(* ===== verification/Prelude.thy ===== *)
theory Prelude
  imports Main "HOL-Library.Word" "HOL-Library.Monad_Syntax"
begin

text \<open>
  The prelude of the development: the machine types the code uses, the model of
  \<open>assert\<close>, the byte stores and loads behind the unions of \<open>utility.hpp\<close>, the stream
  primitives \<open>paper::read\<close> and \<open>paper::write\<close>, and the interface (a locale) that
  every fixed-width encoding of the program satisfies.

  A computation that may fail an \<open>assert\<close>, dereference a null pointer, read outside an
  array or never return has type \<open>'a exec\<close>; \<open>None\<close> is that outcome. The process
  is taken to run with assertions enabled (no \<open>NDEBUG\<close>), as the build files have it, on
  a little-endian machine (the code is compiled with \<open>-msse2\<close>).
\<close>

unbundle bit_operations_syntax

section \<open>Types and collections of facts\<close>

type_synonym byte = "8 word"
type_synonym uint32 = "32 word"
type_synonym uint64 = "64 word"
type_synonym uint128_t = "128 word"
type_synonym uint256_t = "256 word"
type_synonym uint512_t = "512 word"
type_synonym 'a exec = "'a option"

named_theorems codec_simps "how the stream readers behave on the writers' output"
named_theorems store_simps "what the store operations return after a store update"
named_theorems ledger_defs "definitions of the ledger's handlers, for case analysis"

section \<open>Assertions\<close>

definition assert :: "bool \<Rightarrow> unit exec" where
  "assert b = (if b then Some () else None)"

lemma assert_simps [simp]:
  "assert True = Some ()" "assert False = None"
  by (simp_all add: assert_def)

lemma assert_eq_Some [simp]: "assert b = Some u \<longleftrightarrow> b"
  by (simp add: assert_def)

lemma assert_eq_None [simp]: "assert b = None \<longleftrightarrow> \<not> b"
  by (simp add: assert_def)

lemmas exec_splits = option.splits if_splits prod.splits

section \<open>Bytes of a word\<close>

text \<open>
  \<open>le_store\<close> and \<open>le_load\<close> are the memory image of an integer; \<open>be_store\<close> and
  \<open>be_load\<close> are the loops with which the unions of \<open>utility.cpp\<close> convert between their
  bytes, most significant first, and a number.
\<close>

fun le_store :: "nat \<Rightarrow> 'a::len word \<Rightarrow> byte list" where
  "le_store 0 w = []"
| "le_store (Suc k) w = ucast w # le_store k (drop_bit 8 w)"

fun le_load :: "byte list \<Rightarrow> 'a::len word" where
  "le_load [] = 0"
| "le_load (b # bs) = ucast b OR push_bit 8 (le_load bs)"

fun be_store :: "nat \<Rightarrow> 'a::len word \<Rightarrow> byte list \<Rightarrow> byte list" where
  "be_store 0 w acc = acc"
| "be_store (Suc k) w acc = be_store k (drop_bit 8 w) (ucast (w AND 0xff) # acc)"

fun be_load :: "'a::len word \<Rightarrow> nat \<Rightarrow> byte list \<Rightarrow> 'a word" where
  "be_load result shift [] = result"
| "be_load result shift (b # bs) = be_load (push_bit shift result OR ucast b) 8 bs"

lemma ucast_and_ff [simp]: "(ucast (w AND 0xff) :: byte) = ucast (w :: 'a::len word)"
proof (rule bit_word_eqI)
  fix n assume "n < LENGTH(8)"
  then have n: "n < 8" by simp
  have "(0xff :: 'a word) = mask 8" by (simp add: mask_eq_exp_minus_1)
  then have "bit (0xff :: 'a word) n = bit (mask 8 :: 'a word) n" by (simp only:)
  then have "bit (0xff :: 'a word) n \<longleftrightarrow> n < LENGTH('a)"
    using n by (simp only: bit_mask_iff) auto
  then show "bit (ucast (w AND 0xff) :: byte) n \<longleftrightarrow> bit (ucast w :: byte) n"
    using n by (auto simp: bit_ucast_iff bit_and_iff dest: bit_imp_le_length)
qed

lemma length_le_store [simp]: "length (le_store k w) = k"
  by (induction k arbitrary: w) auto

lemma be_store_eq: "be_store k w acc = rev (le_store k w) @ acc"
  by (induction k arbitrary: w acc) auto

lemma length_be_store [simp]: "length (be_store k w acc) = k + length acc"
  by (simp add: be_store_eq)

lemma nth_le_store: "j < k \<Longrightarrow> le_store k w ! j = ucast (drop_bit (8 * j) w)"
proof (induction k arbitrary: w j)
  case (Suc k)
  then show ?case by (cases j) (auto simp: add.commute)
qed simp

lemma bit_le_load:
  "bit (le_load bs :: 'a::len word) i \<longleftrightarrow>
     i < LENGTH('a) \<and> i div 8 < length bs \<and> bit (bs ! (i div 8)) (i mod 8)"
proof (induction bs arbitrary: i)
  case (Cons b bs)
  show ?case
  proof (cases "i < 8")
    case True
    then show ?thesis by (auto simp: bit_or_iff bit_push_bit_iff bit_ucast_iff)
  next
    case False
    then have d: "i div 8 = Suc ((i - 8) div 8)" "i mod 8 = (i - 8) mod 8"
      by (auto simp: div_if mod_if)
    have "\<not> bit b i" using False bit_imp_le_length[of b i] by auto
    with False show ?thesis
      by (auto simp: bit_or_iff bit_push_bit_iff bit_ucast_iff Cons.IH d)
  qed
qed simp

lemma le_load_store:
  assumes "LENGTH('a::len) = 8 * k"
  shows "(le_load (le_store k w) :: 'a word) = w"
proof (rule bit_word_eqI)
  fix i assume i: "i < LENGTH('a)"
  with assms have "i div 8 < k" by (simp add: div_less_iff_less_mult mult.commute)
  then show "bit (le_load (le_store k w) :: 'a word) i \<longleftrightarrow> bit w i"
    using i mod_less_divisor [of 8 i]
    by (simp add: bit_le_load nth_le_store bit_ucast_iff bit_drop_bit_eq ac_simps
        del: mod_less_divisor)
qed

lemma le_store_load:
  assumes "LENGTH('a::len) = 8 * k" "length bs = k"
  shows "le_store k (le_load bs :: 'a word) = bs"
proof (rule nth_equalityI)
  fix j assume j: "j < length (le_store k (le_load bs :: 'a word))"
  then have jk: "j < k" by simp
  show "le_store k (le_load bs :: 'a word) ! j = bs ! j"
  proof (rule bit_word_eqI)
    fix n assume "n < LENGTH(8)"
    then have n: "n < 8" by simp
    have "8 * j + n < 8 * k" using n jk by linarith
    moreover have "(8 * j + n) div 8 = j" "(8 * j + n) mod 8 = n" using n by auto
    ultimately show "bit (le_store k (le_load bs :: 'a word) ! j) n \<longleftrightarrow> bit (bs ! j) n"
      using n jk assms by (simp add: nth_le_store bit_ucast_iff bit_drop_bit_eq bit_le_load)
  qed
qed (use assms in simp)

lemma le_load_append:
  "(le_load (xs @ ys) :: 'a::len word) = le_load xs OR push_bit (8 * length xs) (le_load ys)"
  by (induction xs) (simp_all add: ac_simps)

lemma be_load_eq: "be_load r 8 bs = push_bit (8 * length bs) r OR le_load (rev bs)"
  by (induction bs arbitrary: r) (simp_all add: le_load_append ac_simps)

lemma be_load_start: "be_load 0 0 bs = (le_load (rev bs) :: 'a::len word)"
  by (cases bs) (simp_all add: be_load_eq le_load_append or.commute)

lemma be_load_store:
  "LENGTH('a::len) = 8 * k \<Longrightarrow> be_load 0 0 (be_store k (w :: 'a word) []) = w"
  by (simp add: be_load_start be_store_eq le_load_store)

lemma be_store_load:
  "LENGTH('a::len) = 8 * k \<Longrightarrow> length bs = k \<Longrightarrow> be_store k (be_load 0 0 bs :: 'a word) [] = bs"
  by (simp add: be_load_start be_store_eq le_store_load)

section \<open>Streams\<close>

text \<open>
  A stream of the program is a stream buffer of bytes; the model passes the bytes that
  are still to be read. \<open>stream_read n\<close> is \<open>paper::read\<close> of a value of \<open>n\<close> bytes: the
  source returns an error exactly when fewer bytes are left, and every caller then drops
  the partly read object. \<open>stream_write\<close> is \<open>paper::write\<close>, which appends.
\<close>

definition stream_read :: "nat \<Rightarrow> byte list \<Rightarrow> (byte list \<times> byte list) option" where
  "stream_read n s = (if length s < n then None else Some (take n s, drop n s))"

definition stream_write :: "byte list \<Rightarrow> byte list \<Rightarrow> byte list" where
  "stream_write s value = s @ value"

lemma stream_read_Some:
  "stream_read n s = Some (bs, r) \<longleftrightarrow> s = bs @ r \<and> length bs = n"
  by (auto simp: stream_read_def)

lemma stream_read_None: "stream_read n s = None \<longleftrightarrow> length s < n"
  by (simp add: stream_read_def)

section \<open>Fixed-width encodings\<close>

text \<open>
  The interface of an encoding with a fixed width: decoding succeeds exactly on the
  streams that start with the encoding of a value, leaves the rest of the stream, and
  fails exactly when the stream is too short.
\<close>

locale codec =
  fixes enc :: "'a \<Rightarrow> byte list"
    and dec :: "byte list \<Rightarrow> ('a \<times> byte list) option"
    and width :: nat
  assumes dec_Some: "dec s = Some (a, r) \<longleftrightarrow> s = enc a @ r"
    and dec_None: "dec s = None \<longleftrightarrow> length s < width"
    and enc_length: "length (enc a) = width"
begin

lemma dec_enc: "dec (enc a @ r) = Some (a, r)"
  by (simp add: dec_Some)

lemma dec_enc_exact: "dec (enc a) = Some (a, [])"
  using dec_enc [of a "[]"] by simp

lemma enc_inject: "enc a = enc b \<longleftrightarrow> a = b"
  by (metis dec_enc_exact option.inject prod.inject)

lemma enc_append_inject: "enc a @ r = enc b @ q \<longleftrightarrow> a = b \<and> r = q"
  by (metis dec_enc option.inject prod.inject)

lemma dec_exact:
  assumes "length s = width"
  obtains a where "dec s = Some (a, [])" and "s = enc a"
proof -
  from assms have "dec s \<noteq> None" by (simp add: dec_None)
  then obtain a r where ar: "dec s = Some (a, r)" by auto
  then have "s = enc a @ r" by (simp add: dec_Some)
  moreover from this assms have "r = []" by (simp add: enc_length)
  ultimately show ?thesis using ar that by simp
qed

lemma dec_width: "length s = width \<Longrightarrow> dec s = Some (fst (the (dec s)), [])"
  by (metis dec_exact fst_conv option.sel)

lemma dec_long:
  assumes "width \<le> length s"
  obtains a r where "dec s = Some (a, r)" and "s = enc a @ r"
proof -
  from assms have "dec s \<noteq> None" by (simp add: dec_None)
  then show ?thesis using that dec_Some by (metis not_Some_eq prod.exhaust)
qed

end

text \<open>
  The interface of a format that not every value has and not every stream of enough bytes
  is: decoding succeeds exactly on the streams that start with the encoding of a
  well-formed value. A fixed-width encoding is such a format.
\<close>

locale stream_format =
  fixes enc :: "'a \<Rightarrow> byte list"
    and dec :: "byte list \<Rightarrow> ('a \<times> byte list) option"
    and wf :: "'a \<Rightarrow> bool"
  assumes dec_iff: "dec s = Some (a, r) \<longleftrightarrow> wf a \<and> s = enc a @ r"
begin

lemma dec_of_enc: "wf a \<Longrightarrow> dec (enc a @ r) = Some (a, r)"
  by (simp add: dec_iff)

lemma dec_whole: "wf a \<Longrightarrow> dec (enc a) = Some (a, [])"
  using dec_of_enc [of a "[]"] by simp

lemma prefix_free: "wf a \<Longrightarrow> wf b \<Longrightarrow> enc a @ r = enc b @ q \<Longrightarrow> a = b \<and> r = q"
  by (metis dec_of_enc option.inject prod.inject)

end

sublocale codec \<subseteq> format: stream_format enc dec "\<lambda>_. True"
  by unfold_locales (simp add: dec_Some)

end
