(* ===== verification/Platform.thy ===== *)
theory Platform
  imports Prelude
begin

text \<open>
  What the program takes from outside its own sources, as one record of parameters, and
  the compile-time choice of the network (\<open>config.hpp\<close>). Nothing is assumed about the
  fields; a theorem that relies on the documented behaviour of one of them names it as a
  hypothesis. The signature scheme and the hash are linked libraries; the definitions of
  this development are parametric in them, so its theorems hold for every choice.

  \<^item> \<open>blake2b n m\<close>: the \<open>n\<close>-byte digest of the message \<open>m\<close>, that is, \<open>blake2b_init\<close>
    with digest length \<open>n\<close>, \<open>blake2b_update\<close> with the parts of \<open>m\<close>, \<open>blake2b_final\<close>;
  \<^item> \<open>ed25519_publickey\<close>, \<open>ed25519_sign\<close>, \<open>ed25519_sign_open\<close>: the signature scheme;
    the last returns 0 exactly when the signature is accepted;
  \<^item> \<open>mp_show base width n\<close>: the text \<open>stream << n\<close> writes for a Boost multiprecision
    integer with \<open>std::hex\<close> or \<open>std::dec\<close>, \<open>std::setw (width)\<close> and fill \<open>'0'\<close>;
  \<^item> \<open>mp_scan base bits text\<close>: what \<open>stream >> n\<close> reads from \<open>text\<close> into a Boost integer
    of that many bits; \<open>None\<close> when it throws;
  \<^item> \<open>aes_ctr key iv data\<close>: Crypto++'s AES in counter mode, \<open>aes_ctr_dec\<close> its inverse mode;
  \<^item> \<open>write_json\<close>: Boost's printer of property trees.
\<close>

section \<open>The network variants\<close>

datatype paper_networks = paper_test_network | paper_beta_network | paper_live_network

record platform =
  network :: paper_networks
  blake2b :: "nat \<Rightarrow> byte list \<Rightarrow> byte list"
  ed25519_publickey :: "256 word \<Rightarrow> 256 word"
  ed25519_sign :: "byte list \<Rightarrow> 256 word \<Rightarrow> 256 word \<Rightarrow> 512 word"
  ed25519_sign_open :: "byte list \<Rightarrow> 256 word \<Rightarrow> 512 word \<Rightarrow> int"
  mp_show :: "nat \<Rightarrow> nat \<Rightarrow> nat \<Rightarrow> string"
  mp_scan :: "nat \<Rightarrow> nat \<Rightarrow> string \<Rightarrow> nat option"
  aes_ctr :: "byte list \<Rightarrow> byte list \<Rightarrow> byte list \<Rightarrow> byte list"
  aes_ctr_dec :: "byte list \<Rightarrow> byte list \<Rightarrow> byte list \<Rightarrow> byte list"
  write_json :: "(string \<times> string) list \<Rightarrow> string"

definition database_check_interval :: "platform \<Rightarrow> nat" where
  "database_check_interval P = (if network P = paper_test_network then 4 else 1024)"

definition database_size_increment :: "platform \<Rightarrow> nat" where
  "database_size_increment P =
     (if network P = paper_test_network then 2 * 1024 * 1024 else 256 * 1024 * 1024)"

end
