(* ===== verification/Numbers.thy ===== *)
theory Numbers
  imports Platform
begin

text \<open>
  The number types of \<open>paper/utility.cpp\<close>: the unions \<open>uint128_union\<close>,
  \<open>uint256_union\<close> and \<open>uint512_union\<close> with their byte and quad-word views, and their
  hexadecimal, decimal and base58check texts.

  A union is represented by the value of its \<open>number ()\<close>, a word of the union's width;
  \<open>bytes128\<close>, \<open>bytes256\<close> and \<open>bytes512\<close> are its \<open>bytes\<close> member, as the constructor from
  a number fills it, and \<open>number128\<close> etc.\ are the loops of \<open>number ()\<close>. The interpretations
  of the encoding interface below show the two to be inverse, so a union and a word carry
  the same information.
\<close>

type_synonym uint128_union = "128 word"
type_synonym uint256_union = "256 word"
type_synonym uint512_union = "512 word"
type_synonym amount = uint128_union
type_synonym block_hash = uint256_union
type_synonym account = uint256_union
type_synonym public_key = uint256_union
type_synonym private_key = uint256_union
type_synonym secret_key = uint256_union
type_synonym checksum = uint256_union
type_synonym signature = uint512_union

section \<open>Numbers and bytes\<close>

definition bytes128 :: "uint128_t \<Rightarrow> byte list" where
  "bytes128 n = be_store 16 n []"

definition number128 :: "byte list \<Rightarrow> uint128_t" where
  "number128 bytes = be_load 0 0 bytes"

definition bytes256 :: "uint256_t \<Rightarrow> byte list" where
  "bytes256 n = be_store 32 n []"

definition number256 :: "byte list \<Rightarrow> uint256_t" where
  "number256 bytes = be_load 0 0 bytes"

definition bytes512 :: "uint512_t \<Rightarrow> byte list" where
  "bytes512 n = be_store 64 n []"

definition number512 :: "byte list \<Rightarrow> uint512_t" where
  "number512 bytes = be_load 0 0 bytes"

definition bytes64 :: "uint64 \<Rightarrow> byte list" where
  "bytes64 w = le_store 8 w"

text \<open>Reading a value of each type off a stream.\<close>

definition read_uint128 :: "byte list \<Rightarrow> (uint128_union \<times> byte list) option" where
  "read_uint128 s = map_option (map_prod number128 id) (stream_read 16 s)"

definition read_uint256 :: "byte list \<Rightarrow> (uint256_union \<times> byte list) option" where
  "read_uint256 s = map_option (map_prod number256 id) (stream_read 32 s)"

definition read_uint512 :: "byte list \<Rightarrow> (uint512_union \<times> byte list) option" where
  "read_uint512 s = map_option (map_prod number512 id) (stream_read 64 s)"

definition read_uint64 :: "byte list \<Rightarrow> (uint64 \<times> byte list) option" where
  "read_uint64 s = map_option (map_prod le_load id) (stream_read 8 s)"

lemma number_bytes [simp]:
  "number128 (bytes128 a) = a" "number256 (bytes256 b) = b" "number512 (bytes512 c) = c"
  "le_load (bytes64 d) = d"
  by (simp_all add: number128_def bytes128_def number256_def bytes256_def number512_def
      bytes512_def bytes64_def be_load_store le_load_store)

lemma bytes_number:
  "length bs = 16 \<Longrightarrow> bytes128 (number128 bs) = bs"
  "length bs = 32 \<Longrightarrow> bytes256 (number256 bs) = bs"
  "length bs = 64 \<Longrightarrow> bytes512 (number512 bs) = bs"
  "length bs = 8 \<Longrightarrow> bytes64 (le_load bs) = bs"
  by (simp_all add: number128_def bytes128_def number256_def bytes256_def number512_def
      bytes512_def bytes64_def be_store_load le_store_load)

lemma length_bytes [simp]:
  "length (bytes128 a) = 16" "length (bytes256 b) = 32" "length (bytes512 c) = 64"
  "length (bytes64 d) = 8"
  by (simp_all add: bytes128_def bytes256_def bytes512_def bytes64_def)

interpretation u128: codec bytes128 read_uint128 16
  by unfold_locales
    (auto simp: read_uint128_def stream_read_Some stream_read_None bytes_number intro: exI [of _ "bytes128 _"])

interpretation u256: codec bytes256 read_uint256 32
  by unfold_locales
    (auto simp: read_uint256_def stream_read_Some stream_read_None bytes_number intro: exI [of _ "bytes256 _"])

interpretation u512: codec bytes512 read_uint512 64
  by unfold_locales
    (auto simp: read_uint512_def stream_read_Some stream_read_None bytes_number intro: exI [of _ "bytes512 _"])

interpretation u64: codec bytes64 read_uint64 8
  by unfold_locales
    (auto simp: read_uint64_def stream_read_Some stream_read_None bytes_number intro: exI [of _ "bytes64 _"])

text \<open>The readers as conditionals, to compute the total length a reader needs.\<close>

lemma reads_cond:
  "read_uint128 s = (if length s < 16 then None else Some (number128 (take 16 s), drop 16 s))"
  "read_uint256 s = (if length s < 32 then None else Some (number256 (take 32 s), drop 32 s))"
  "read_uint512 s = (if length s < 64 then None else Some (number512 (take 64 s), drop 64 s))"
  "read_uint64 s = (if length s < 8 then None else Some (le_load (take 8 s), drop 8 s))"
  by (simp_all add: read_uint128_def read_uint256_def read_uint512_def read_uint64_def stream_read_def)

lemmas reads_Some [codec_simps] = u128.dec_Some u256.dec_Some u512.dec_Some u64.dec_Some
lemmas reads_None [codec_simps] = u128.dec_None u256.dec_None u512.dec_None u64.dec_None

section \<open>The quad-word view\<close>

text \<open>
  \<open>qwords\<close> is the same memory read as four 64-bit integers of the machine. The operations
  that the code writes on quad words are modelled on them and shown to be the word
  operations.
\<close>

definition qwords256 :: "uint256_union \<Rightarrow> uint64 list" where
  "qwords256 u = map (\<lambda>i. le_load (take 8 (drop (8 * i) (bytes256 u)))) [0..<4]"

definition uint256_of_qwords :: "uint64 \<Rightarrow> uint64 \<Rightarrow> uint64 \<Rightarrow> uint64 \<Rightarrow> uint256_union" where
  "uint256_of_qwords v0 v1 v2 v3 =
     number256 (bytes64 v0 @ bytes64 v1 @ bytes64 v2 @ bytes64 v3)"

definition qwords128 :: "uint128_union \<Rightarrow> uint64 list" where
  "qwords128 u = map (\<lambda>i. le_load (take 8 (drop (8 * i) (bytes128 u)))) [0..<2]"

definition uint128_is_zero :: "uint128_union \<Rightarrow> bool" where
  "uint128_is_zero u \<longleftrightarrow> qwords128 u ! 0 = 0 \<and> qwords128 u ! 1 = 0"

definition uint128_equal :: "uint128_union \<Rightarrow> uint128_union \<Rightarrow> bool" where
  "uint128_equal u v \<longleftrightarrow> qwords128 u ! 0 = qwords128 v ! 0 \<and> qwords128 u ! 1 = qwords128 v ! 1"

definition uint256_is_zero :: "uint256_union \<Rightarrow> bool" where
  "uint256_is_zero u \<longleftrightarrow> qwords256 u ! 0 = 0 \<and> qwords256 u ! 1 = 0 \<and>
     qwords256 u ! 2 = 0 \<and> qwords256 u ! 3 = 0"

definition uint256_xor :: "uint256_union \<Rightarrow> uint256_union \<Rightarrow> uint256_union" where
  "uint256_xor u v =
     (let q = map2 (XOR) (qwords256 u) (qwords256 v)
      in uint256_of_qwords (q ! 0) (q ! 1) (q ! 2) (q ! 3))"

definition uint256_less :: "uint256_union \<Rightarrow> uint256_union \<Rightarrow> bool" where
  "uint256_less u v \<longleftrightarrow> number256 (bytes256 u) < number256 (bytes256 v)"

definition uint512_xor :: "uint512_union \<Rightarrow> uint512_union \<Rightarrow> uint512_union" where
  "uint512_xor u v =
     (let half = (\<lambda>w i. number256 (take 32 (drop (32 * i) (bytes512 w))))
      in number512 (bytes256 (uint256_xor (half u 0) (half v 0)) @
           bytes256 (uint256_xor (half u 1) (half v 1))))"

lemma le_load_xor:
  "length xs = length ys \<Longrightarrow>
     (le_load (map2 (XOR) xs ys) :: 'a::len word) = le_load xs XOR le_load ys"
  by (rule bit_word_eqI) (auto simp: bit_le_load bit_xor_iff)

lemma le_store_xor: "le_store k (u XOR v) = map2 (XOR) (le_store k u) (le_store k v)"
  by (induction k arbitrary: u v) (simp_all add: unsigned_xor_eq)

lemma bytes_xor:
  "bytes256 (u XOR v) = map2 (XOR) (bytes256 u) (bytes256 v)"
  "bytes512 (x XOR y) = map2 (XOR) (bytes512 x) (bytes512 y)"
  by (simp_all add: bytes256_def bytes512_def be_store_eq le_store_xor zip_rev rev_map)

lemma le_store_zero [simp]: "le_store k 0 = replicate k 0"
  by (induction k) auto

lemma le_load_zero [simp]: "le_load (replicate k 0) = 0"
  by (induction k) auto

lemma bytes_zero [simp]:
  "bytes64 0 = replicate 8 0" "bytes128 0 = replicate 16 0" "bytes256 0 = replicate 32 0"
  "bytes512 0 = replicate 64 0"
  by (simp_all add: bytes64_def bytes128_def bytes256_def bytes512_def be_store_eq)

lemma chunks4:
  "take 8 xs @ take 8 (drop 8 xs) @ take 8 (drop 16 xs) @ drop 24 xs = xs"
proof -
  have "take 8 (drop 16 xs) @ drop 24 xs = drop 16 xs"
    using append_take_drop_id [of 8 "drop 16 xs"] by simp
  then have "take 8 (drop 8 xs) @ take 8 (drop 16 xs) @ drop 24 xs = drop 8 xs"
    using append_take_drop_id [of 8 "drop 8 xs"] by simp
  then show ?thesis using append_take_drop_id [of 8 xs] by simp
qed

lemma qwords256_nth:
  "i < 4 \<Longrightarrow> qwords256 u ! i = le_load (take 8 (drop (8 * i) (bytes256 u)))"
  by (simp add: qwords256_def)

lemma uint256_of_qwords256 [simp]:
  "uint256_of_qwords (qwords256 u ! 0) (qwords256 u ! 1) (qwords256 u ! 2) (qwords256 u ! 3) = u"
  by (simp add: uint256_of_qwords_def qwords256_nth bytes_number chunks4)

lemma qwords256_xor: "i < 4 \<Longrightarrow> qwords256 (u XOR v) ! i = qwords256 u ! i XOR qwords256 v ! i"
  by (simp add: qwords256_nth bytes_xor take_map drop_map take_zip drop_zip le_load_xor)

lemma uint256_xor_eq: "uint256_xor u v = u XOR v"
proof -
  have "map2 (XOR) (qwords256 u) (qwords256 v) ! i = qwords256 (u XOR v) ! i" if "i < 4" for i
    using that by (simp only: qwords256_xor) (simp add: qwords256_def)
  then have "uint256_xor u v = uint256_of_qwords (qwords256 (u XOR v) ! 0)
      (qwords256 (u XOR v) ! 1) (qwords256 (u XOR v) ! 2) (qwords256 (u XOR v) ! 3)"
    by (simp add: uint256_xor_def Let_def del: nth_map nth_zip)
  then show ?thesis by (simp only: uint256_of_qwords256)
qed

lemma uint256_is_zero_eq: "uint256_is_zero u \<longleftrightarrow> u = 0"
proof
  assume "uint256_is_zero u"
  then have "u = uint256_of_qwords 0 0 0 0"
    using uint256_of_qwords256 [of u] by (simp add: uint256_is_zero_def)
  also have "\<dots> = number256 (bytes256 0)" by (simp add: uint256_of_qwords_def flip: replicate_add)
  finally show "u = 0" by (simp only: number_bytes)
qed (simp add: uint256_is_zero_def qwords256_nth)

lemma uint128_of_qwords128:
  "number128 (bytes64 (qwords128 u ! 0) @ bytes64 (qwords128 u ! 1)) = u"
proof -
  have "take 8 (bytes128 u) @ take 8 (drop 8 (bytes128 u)) = bytes128 u"
    using append_take_drop_id [of 8 "bytes128 u"] by simp
  then show ?thesis by (simp add: qwords128_def bytes_number)
qed

lemma uint128_equal_eq: "uint128_equal u v \<longleftrightarrow> u = v"
  by (metis uint128_equal_def uint128_of_qwords128)

lemma uint128_is_zero_eq: "uint128_is_zero u \<longleftrightarrow> u = 0"
proof -
  have "uint128_is_zero u \<longleftrightarrow> uint128_equal u 0"
    by (simp add: uint128_is_zero_def uint128_equal_def qwords128_def)
  then show ?thesis by (simp add: uint128_equal_eq)
qed

lemma uint256_less_eq: "uint256_less u v \<longleftrightarrow> u < v"
  by (simp add: uint256_less_def)

lemma uint512_xor_eq: "uint512_xor u v = u XOR v"
proof -
  have half: "number256 (take 32 (drop (32 * i) (bytes512 (u XOR v)))) =
      number256 (take 32 (drop (32 * i) (bytes512 u))) XOR
      number256 (take 32 (drop (32 * i) (bytes512 v)))" for i
    by (simp add: bytes_xor take_map drop_map take_zip drop_zip number256_def be_load_start
        rev_map le_load_xor flip: zip_rev)
  have "take 32 (bytes512 (u XOR v)) @ take 32 (drop 32 (bytes512 (u XOR v))) = bytes512 (u XOR v)"
    using append_take_drop_id [of 32 "bytes512 (u XOR v)"] by simp
  then show ?thesis
    unfolding uint512_xor_def Let_def uint256_xor_eq half [symmetric]
    by (simp add: bytes_number)
qed

end
