(* ===== verification/Kdf.thy ===== *)
theory Kdf
  imports Numbers "HOL-Library.Multiset"
begin

text \<open>
  The random number generator \<open>xorshift1024star\<close> and the key derivation function
  \<open>paper::kdf\<close> of \<open>paper/node.cpp\<close>.

  The buffer \<open>data\<close> is a list; reading or writing outside it is \<open>None\<close>, as is the division
  by zero of the read loop, so the claim that \<open>kdf_generate\<close> returns a key contains that
  every index is in range. The loops run over the number of entries that are left. The
  generator's array has 16 entries and its position is masked to four bits, so the accesses
  inside \<open>rng_next\<close> are in range (\<open>rng_next_ok\<close>).
\<close>

section \<open>The generator\<close>

record xorshift1024star =
  rng_s :: "uint64 list"
  rng_p :: uint32

definition rng_next :: "xorshift1024star \<Rightarrow> uint64 \<times> xorshift1024star" where
  "rng_next r =
     (let p_l = rng_p r; pn = (p_l + 1) AND 15;
          s0 = rng_s r ! unat p_l; s1 = rng_s r ! unat pn;
          s1 = s1 XOR push_bit 31 s1;
          s1 = s1 XOR drop_bit 11 s1;
          s0 = s0 XOR drop_bit 30 s0
      in ((s0 XOR s1) * 1181783497276652981,
          \<lparr>rng_s = (rng_s r)[unat pn := s0 XOR s1], rng_p = pn\<rparr>))"

section \<open>The key derivation\<close>

definition stepping :: nat where
  "stepping = 16"

definition data_read :: "uint64 list \<Rightarrow> nat \<Rightarrow> uint64 exec" where
  "data_read data i = (if i < length data then Some (data ! i) else None)"

definition data_write :: "uint64 list \<Rightarrow> nat \<Rightarrow> uint64 \<Rightarrow> uint64 list exec" where
  "data_write data i v = (if i < length data then Some (data[i := v]) else None)"

fun kdf_fill :: "nat \<Rightarrow> xorshift1024star \<Rightarrow> uint64 list \<times> xorshift1024star" where
  "kdf_fill 0 r = ([], r)"
| "kdf_fill (Suc n) r =
     (let (v, r) = rng_next r; (vs, r) = kdf_fill n r in (v # vs, r))"

fun kdf_write ::
  "nat \<Rightarrow> uint64 \<Rightarrow> uint64 \<Rightarrow> uint64 list \<Rightarrow> xorshift1024star \<Rightarrow>
     (uint64 list \<times> xorshift1024star) exec" where
  "kdf_write 0 previous_l mask_l data r = Some (data, r)"
| "kdf_write (Suc n) previous_l mask_l data r =
     (let index = previous_l AND mask_l; (value, r) = rng_next r in do {
        data \<leftarrow> data_write data (unat index) value;
        kdf_write n previous_l mask_l data r
      })"

text \<open>
  The inner loop of the hashing phase: \<open>k\<close> values are still to be read, and \<open>rest\<close> is
  \<open>entries_l - (i + j)\<close>.
\<close>

fun kdf_read ::
  "nat \<Rightarrow> nat \<Rightarrow> uint64 list \<Rightarrow> xorshift1024star \<Rightarrow>
     (uint64 list \<times> uint64 list \<times> xorshift1024star) exec" where
  "kdf_read 0 rest data r = Some ([], data, r)"
| "kdf_read (Suc k) rest data r =
     (if rest = 0 then None
      else let (x, r) = rng_next r; index = unat x mod rest in do {
        v \<leftarrow> data_read data index;
        w \<leftarrow> data_read data (rest - 1);
        data \<leftarrow> data_write data index w;
        (vs, data, r) \<leftarrow> kdf_read k (rest - 1) data r;
        Some (v # vs, data, r)
      })"

function kdf_hash :: "nat \<Rightarrow> uint64 list \<Rightarrow> xorshift1024star \<Rightarrow> byte list exec" where
  "kdf_hash rest data r =
     (if rest = 0 then Some []
      else do {
        (vs, data, r) \<leftarrow> kdf_read stepping rest data r;
        bytes \<leftarrow> kdf_hash (rest - stepping) data r;
        Some (concat (map bytes64 vs) @ bytes)
      })"
  by auto

termination
  by (relation "measure fst") (simp_all add: stepping_def)

declare kdf_hash.simps [simp del]

definition kdf_generate :: "platform \<Rightarrow> uint64 \<Rightarrow> string \<Rightarrow> uint256_union \<Rightarrow> uint256_union exec" where
  "kdf_generate P entries_l password_a salt_a =
     (if entries_l AND of_nat (stepping - 1) \<noteq> 0 then None
      else let input = uint256_xor (number256 (blake2b P 32 (map of_char password_a))) salt_a;
        mask_l = entries_l - 1;
        r = \<lparr>rng_s = qwords256 input @ replicate 12 0, rng_p = 0\<rparr>;
        (data, r) = kdf_fill (unat entries_l) r;
        (previous_l, r) = rng_next r
      in do {
        (data, r) \<leftarrow> kdf_write (unat entries_l) previous_l mask_l data r;
        bytes \<leftarrow> kdf_hash (unat entries_l) data r;
        Some (number256 (blake2b P 32 bytes))
      })"

section \<open>The generator stays in its array\<close>

definition rng_ok :: "xorshift1024star \<Rightarrow> bool" where
  "rng_ok r \<longleftrightarrow> length (rng_s r) = 16 \<and> unat (rng_p r) < 16"

lemma mask_less: "unat ((p :: 32 word) AND 15) < 16"
proof -
  have "p AND 15 = take_bit 4 p" by (simp add: take_bit_eq_mask mask_eq_exp_minus_1)
  then show ?thesis using take_bit_nat_less_exp [of 4 "unat p"] by (simp add: unsigned_take_bit_eq)
qed

lemma rng_next_ok: "rng_ok r \<Longrightarrow> rng_ok (snd (rng_next r))"
  by (simp add: rng_ok_def rng_next_def Let_def mask_less)

section \<open>What the loops do\<close>

text \<open>The first \<open>n\<close> values the generator yields.\<close>

fun rng_values :: "nat \<Rightarrow> xorshift1024star \<Rightarrow> uint64 list" where
  "rng_values 0 r = []"
| "rng_values (Suc n) r = fst (rng_next r) # rng_values n (snd (rng_next r))"

fun rng_skip :: "nat \<Rightarrow> xorshift1024star \<Rightarrow> xorshift1024star" where
  "rng_skip 0 r = r"
| "rng_skip (Suc n) r = rng_skip n (snd (rng_next r))"

lemma length_rng_values [simp]: "length (rng_values n r) = n"
  by (induction n r rule: rng_values.induct) auto

lemma rng_values_add: "rng_values (m + n) r = rng_values m r @ rng_values n (rng_skip m r)"
  by (induction m r rule: rng_skip.induct) auto

lemma kdf_fill_eq: "kdf_fill n r = (rng_values n r, rng_skip n r)"
  by (induction n r rule: kdf_fill.induct) (auto split: prod.splits)

text \<open>
  The write loop takes its index from a variable that it never assigns again: all values go
  to the same entry, and only the last one stays there.
\<close>

lemma kdf_write_eq:
  assumes "unat (p AND mask_l) < length data"
  shows "kdf_write n p mask_l data r =
    Some (if n = 0 then data else data[unat (p AND mask_l) := rng_values n r ! (n - 1)], rng_skip n r)"
  using assms
proof (induction n p mask_l data r rule: kdf_write.induct)
  case (2 n p mask_l data r)
  obtain v r' where v: "rng_next r = (v, r')" by (cases "rng_next r")
  have "kdf_write (Suc n) p mask_l data r = kdf_write n p mask_l (data[unat (p AND mask_l) := v]) r'"
    using "2.prems" v by (simp add: data_write_def)
  also have "\<dots> = Some (if n = 0 then data[unat (p AND mask_l) := v]
      else data[unat (p AND mask_l) := rng_values n r' ! (n - 1)], rng_skip n r')"
    using "2.IH" [of "p AND mask_l" "(v, r')" v r' "data[unat (p AND mask_l) := v]"] "2.prems" v
    by (simp add: data_write_def)
  finally show ?case using v by (cases n) auto
qed simp

text \<open>
  Removing one entry by overwriting it with the last one: what is read and what is left are
  together what was there.
\<close>

lemma mset_take_overwrite:
  assumes "i < rest" "rest \<le> length data"
  shows "mset (take rest data) = add_mset (data ! i) (mset (take (rest - 1) (data[i := data ! (rest - 1)])))"
proof -
  obtain m where m: "rest = Suc m" using assms(1) by (cases rest) auto
  have split: "take rest data = take m data @ [data ! m]"
    using assms(2) m by (simp add: take_Suc_conv_app_nth)
  show ?thesis
  proof (cases "i = m")
    case True
    then show ?thesis using m split by simp
  next
    case False
    then have i: "i < length (take m data)" using assms m by simp
    have "mset ((take m data)[i := data ! m]) =
        add_mset (data ! m) (mset (take m data) - {#take m data ! i#})"
      by (rule mset_update [OF i])
    moreover have "take m data ! i \<in># mset (take m data)" using i by (metis nth_mem set_mset_mset)
    moreover have "take m data ! i = data ! i" using False assms(1) m by simp
    ultimately show ?thesis using m split by (simp add: take_update_swap)
  qed
qed

lemma kdf_read_exists:
  assumes "k \<le> rest" "rest \<le> length data"
  shows "\<exists>vs data' r'. kdf_read k rest data r = Some (vs, data', r') \<and> length data' = length data \<and>
    mset (take rest data) = mset vs + mset (take (rest - k) data')"
  using assms
proof (induction k arbitrary: rest data r)
  case (Suc k)
  obtain x r1 where x: "rng_next r = (x, r1)" by (cases "rng_next r")
  let ?i = "unat x mod rest"
  let ?d = "data[?i := data ! (rest - 1)]"
  have i: "?i < rest" using Suc.prems by simp
  have il: "?i < length data" "0 < rest" "rest - 1 < length data" using i Suc.prems by linarith+
  have pre: "k \<le> rest - 1" "rest - 1 \<le> length ?d" using Suc.prems by auto
  obtain vs data' r' where rec: "kdf_read k (rest - 1) ?d r1 = Some (vs, data', r')"
    "length data' = length data"
    "mset (take (rest - 1) ?d) = mset vs + mset (take (rest - 1 - k) data')"
    using Suc.IH [of "rest - 1" ?d r1] pre by auto
  have "kdf_read (Suc k) rest data r = Some (data ! ?i # vs, data', r')"
    using x il rec by (auto simp: data_read_def data_write_def Let_def)
  then show ?case using rec mset_take_overwrite [OF i Suc.prems(2)] by auto
qed auto

lemma kdf_hash_exists:
  assumes "16 dvd rest" "rest \<le> length data"
  shows "\<exists>vs. kdf_hash rest data r = Some (concat (map bytes64 vs)) \<and> mset vs = mset (take rest data)"
  using assms
proof (induction rest data r rule: kdf_hash.induct)
  case (1 rest data r)
  show ?case
  proof (cases "rest = 0")
    case True
    then show ?thesis by (simp add: kdf_hash.simps)
  next
    case False
    with 1 have le: "16 \<le> rest" by (auto intro: dvd_imp_le)
    obtain vs data' r' where rd: "kdf_read 16 rest data r = Some (vs, data', r')"
      "length data' = length data" "mset (take rest data) = mset vs + mset (take (rest - 16) data')"
      using kdf_read_exists [OF le "1.prems"(2), of r] by auto
    have pre: "16 dvd rest - 16" "rest - 16 \<le> length data'"
      using "1.prems" rd(2) by (simp_all add: dvd_diff_nat)
    obtain ws where ws: "kdf_hash (rest - 16) data' r' = Some (concat (map bytes64 ws))"
      "mset ws = mset (take (rest - 16) data')"
      using "1.IH" [of "(vs, data', r')" vs "(data', r')" data' r'] False rd(1) pre
      by (auto simp: stepping_def)
    have "kdf_hash rest data r = Some (concat (map bytes64 (vs @ ws)))"
      using False rd ws by (subst kdf_hash.simps) (simp add: stepping_def)
    then show ?thesis using rd(3) ws(2) by (intro exI [of _ "vs @ ws"]) simp
  qed
qed

text \<open>The state the generator is seeded with.\<close>

definition kdf_seed :: "platform \<Rightarrow> string \<Rightarrow> uint256_union \<Rightarrow> xorshift1024star" where
  "kdf_seed P password_a salt_a =
     \<lparr>rng_s = qwords256 (number256 (blake2b P 32 (map of_char password_a)) XOR salt_a) @ replicate 12 0,
      rng_p = 0\<rparr>"

lemma kdf_seed_ok: "rng_ok (kdf_seed P pw salt)"
  by (simp add: rng_ok_def kdf_seed_def qwords256_def)

lemma mask_in_range:
  assumes "(n :: uint64) \<noteq> 0"
  shows "unat (p AND (n - 1)) < unat n"
proof -
  have "p AND (n - 1) \<le> n - 1" by (rule word_and_le1)
  then have "unat (p AND (n - 1)) \<le> unat (n - 1)" by (simp add: word_le_nat_alt)
  also have "\<dots> = unat n - 1" using assms by (rule unat_minus_one)
  finally show ?thesis using assms unat_gt_0 [of n] by linarith
qed

lemma kdf_generate_eq:
  assumes "entries_l AND 15 = 0" and "unat entries_l = n" and "xs = rng_values (2 * n + 1) (kdf_seed P pw salt)"
  shows "\<exists>vs. kdf_generate P entries_l pw salt = Some (number256 (blake2b P 32 (concat (map bytes64 vs)))) \<and>
    mset vs = mset (if n = 0 then []
      else (take n xs)[unat (xs ! n AND (entries_l - 1)) := xs ! (2 * n)])"
proof -
  let ?r = "kdf_seed P pw salt"
  let ?p = "fst (rng_next (rng_skip n ?r))" and ?q = "snd (rng_next (rng_skip n ?r))"
  have xs: "xs = rng_values n ?r @ ?p # rng_values n ?q"
    using rng_values_add [of n "Suc n" ?r] by (simp add: assms(3) mult_2)
  have dvd: "16 dvd n"
  proof -
    have "take_bit 4 entries_l = 0"
      using assms(1) by (simp add: take_bit_eq_mask mask_eq_exp_minus_1)
    then have "unat (take_bit 4 entries_l) = 0" by simp
    then have "take_bit 4 n = 0" using assms(2) by (simp add: unsigned_take_bit_eq)
    then have "n mod 16 = 0" by (simp add: take_bit_eq_mod)
    then show ?thesis by presburger
  qed
  define data where "data = (if n = 0 then []
    else (rng_values n ?r)[unat (?p AND (entries_l - 1)) := rng_values n ?q ! (n - 1)])"
  have wr: "kdf_write n ?p (entries_l - 1) (rng_values n ?r) ?q = Some (data, rng_skip n ?q)"
  proof (cases "n = 0")
    case False
    then have "entries_l \<noteq> 0" using assms(2) by auto
    then show ?thesis
      using mask_in_range [of entries_l ?p] False
      by (subst kdf_write_eq) (simp_all add: assms(2) data_def)
  qed (simp add: data_def)
  have "length data = n" by (simp add: data_def)
  then obtain vs where vs: "kdf_hash n data (rng_skip n ?q) = Some (concat (map bytes64 vs))"
    "mset vs = mset data"
    using kdf_hash_exists [OF dvd, of data "rng_skip n ?q"] by auto
  have "kdf_generate P entries_l pw salt = Some (number256 (blake2b P 32 (concat (map bytes64 vs))))"
    using assms(1,2) wr vs(1)
    by (simp add: kdf_generate_def stepping_def kdf_fill_eq uint256_xor_eq kdf_seed_def Let_def
        case_prod_unfold)
  moreover have "data = (if n = 0 then []
      else (take n xs)[unat (xs ! n AND (entries_l - 1)) := xs ! (2 * n)])"
    by (cases n) (simp_all add: data_def xs nth_append)
  ultimately show ?thesis using vs(2) by auto
qed

lemma kdf_returns:
  assumes "entries_l AND 15 = 0"
  shows "\<exists>key. kdf_generate P entries_l pw salt = Some key"
  using kdf_generate_eq [OF assms refl refl, of P pw salt] by auto

end
