(* ===== verification/Texts.thy ===== *)
theory Texts
  imports Numbers
begin

text \<open>
  The texts of numbers in \<open>paper/utility.cpp\<close>: hexadecimal, decimal and base58check.
  Formatting and parsing of built-in integers is the C++ standard library's and is
  modelled here; formatting and parsing of Boost multiprecision integers are the
  parameters \<open>mp_show\<close> and \<open>mp_scan\<close> of the platform, whose documented behaviour is the
  locale \<open>number_text\<close>. The standard positional texts satisfy it (interpretation
  \<open>std_text\<close>).
\<close>

section \<open>Positional texts\<close>

definition digit_chars :: string where
  "digit_chars = ''0123456789abcdef''"

definition digit_value :: "char \<Rightarrow> nat option" where
  "digit_value c =
     (let n = of_char c :: nat in
      if 48 \<le> n \<and> n \<le> 57 then Some (n - 48)
      else if 97 \<le> n \<and> n \<le> 102 then Some (n - 87)
      else if 65 \<le> n \<and> n \<le> 70 then Some (n - 55)
      else None)"

fun digits :: "nat \<Rightarrow> nat \<Rightarrow> string" where
  "digits base n =
     (if n < base \<or> base < 2 then [digit_chars ! n]
      else digits base (n div base) @ [digit_chars ! (n mod base)])"

declare digits.simps [simp del]

definition digits_value :: "nat \<Rightarrow> string \<Rightarrow> nat" where
  "digits_value base ds = foldl (\<lambda>a c. a * base + the (digit_value c)) 0 ds"

definition std_show :: "nat \<Rightarrow> nat \<Rightarrow> nat \<Rightarrow> string" where
  "std_show base width n =
     (let ds = digits base n in replicate (width - length ds) CHR ''0'' @ ds)"

definition is_digit :: "nat \<Rightarrow> char \<Rightarrow> bool" where
  "is_digit base c = (case digit_value c of None \<Rightarrow> False | Some d \<Rightarrow> d < base)"

definition is_space :: "char \<Rightarrow> bool" where
  "is_space c = (let n = of_char c :: nat in n = 32 \<or> 9 \<le> n \<and> n \<le> 13)"

definition std_scan :: "nat \<Rightarrow> nat \<Rightarrow> string \<Rightarrow> nat option" where
  "std_scan base bits text =
     (let n = digits_value base (takeWhile (is_digit base) (dropWhile is_space text))
      in if n < 2 ^ bits then Some n else None)"

lemma digit_value_digit_chars:
  assumes "d < 16" shows "digit_value (digit_chars ! d) = Some d"
proof -
  have "list_all (\<lambda>d. digit_value (digit_chars ! d) = Some d) [0..<16]" by code_simp
  with assms show ?thesis by (simp add: list_all_iff)
qed

lemma not_space_digit: "is_digit base c \<Longrightarrow> \<not> is_space c"
  by (auto simp: is_digit_def digit_value_def is_space_def Let_def split: if_splits)

lemma digits_digit:
  "2 \<le> base \<Longrightarrow> base \<le> 16 \<Longrightarrow> \<forall>c \<in> set (digits base n). is_digit base c"
proof (induction base n rule: digits.induct)
  case (1 base n)
  show ?case
  proof (cases "n < base")
    case True
    with 1 show ?thesis by (subst digits.simps) (simp add: is_digit_def digit_value_digit_chars)
  next
    case False
    have "n mod base < base" "n mod base < 16"
      using 1 mod_less_divisor [of base n] by linarith+
    then have "is_digit base (digit_chars ! (n mod base))"
      by (simp add: is_digit_def digit_value_digit_chars)
    with False 1 show ?thesis by (subst digits.simps) auto
  qed
qed

lemma digits_value_snoc:
  "digits_value base (ds @ [c]) = digits_value base ds * base + the (digit_value c)"
  by (simp add: digits_value_def)

lemma digits_value_digits:
  "2 \<le> base \<Longrightarrow> base \<le> 16 \<Longrightarrow> digits_value base (digits base n) = n"
proof (induction base n rule: digits.induct)
  case (1 base n)
  show ?case
  proof (cases "n < base")
    case True
    with 1 show ?thesis
      by (subst digits.simps) (simp add: digits_value_def digit_value_digit_chars)
  next
    case False
    have "n mod base < base" using 1 by simp
    then have "n mod base < 16" using 1 by linarith
    with False 1 show ?thesis
      by (subst digits.simps) (simp add: digits_value_snoc digit_value_digit_chars)
  qed
qed

lemma digits_value_zeros:
  "digits_value base (replicate k CHR ''0'' @ ds) = digits_value base ds"
proof (induction k)
  case (Suc k)
  have "the (digit_value CHR ''0'') = 0" by (simp add: digit_value_def)
  with Suc show ?case by (simp add: digits_value_def)
qed simp

lemma length_digits:
  "2 \<le> base \<Longrightarrow> n < base ^ k \<Longrightarrow> 0 < k \<Longrightarrow> length (digits base n) \<le> k"
proof (induction base n arbitrary: k rule: digits.induct)
  case (1 base n)
  show ?case
  proof (cases "n < base")
    case True
    with 1 show ?thesis by (subst digits.simps) simp
  next
    case False
    with 1 obtain j where k: "k = Suc j" by (cases k) auto
    with 1 False have j: "0 < j" by (cases j) auto
    have "n div base < base ^ j" using 1 k by (simp add: less_mult_imp_div_less mult.commute)
    then have "length (digits base (n div base)) \<le> j" using 1 False j by simp
    with False 1 k show ?thesis by (subst digits.simps) simp
  qed
qed

lemma length_std_show:
  "2 \<le> base \<Longrightarrow> n < base ^ k \<Longrightarrow> 0 < k \<Longrightarrow> width \<le> k \<Longrightarrow> length (std_show base width n) \<le> k"
  using length_digits [of base n k] by (simp add: std_show_def Let_def)

lemma std_show_digit:
  assumes "2 \<le> base" "base \<le> 16"
  shows "\<forall>c \<in> set (std_show base width n). is_digit base c"
proof -
  have "is_digit base CHR ''0''" using assms by (simp add: is_digit_def digit_value_def)
  with digits_digit [OF assms, of n] show ?thesis by (auto simp: std_show_def Let_def)
qed

lemma digits_value_std_show:
  "2 \<le> base \<Longrightarrow> base \<le> 16 \<Longrightarrow> digits_value base (std_show base width n) = n"
  by (simp add: std_show_def Let_def digits_value_zeros digits_value_digits)

lemma std_scan_show:
  assumes "2 \<le> base" "base \<le> 16" "n < 2 ^ bits"
  shows "std_scan base bits (std_show base width n) = Some n"
proof -
  note d = std_show_digit [OF assms(1,2), of width n]
  then have "dropWhile is_space (std_show base width n) = std_show base width n"
    by (auto simp: dropWhile_eq_self_iff dest!: not_space_digit hd_in_set)
  moreover have "takeWhile (is_digit base) (std_show base width n) = std_show base width n"
    using d by (auto simp: takeWhile_eq_all_conv)
  ultimately show ?thesis
    using assms unfolding std_scan_def Let_def by (simp only: digits_value_std_show if_True)
qed

section \<open>The interface of the number formatter\<close>

locale number_text =
  fixes show_n :: "nat \<Rightarrow> nat \<Rightarrow> nat \<Rightarrow> string"
    and scan_n :: "nat \<Rightarrow> nat \<Rightarrow> string \<Rightarrow> nat option"
  assumes scan_show:
      "base = 16 \<or> base = 10 \<Longrightarrow> n < 2 ^ bits \<Longrightarrow> scan_n base bits (show_n base w n) = Some n"
    and show_length:
      "base = 16 \<or> base = 10 \<Longrightarrow> n < base ^ k \<Longrightarrow> 0 < k \<Longrightarrow> w \<le> k \<Longrightarrow> length (show_n base w n) \<le> k"
    and show_nonempty: "base = 16 \<or> base = 10 \<Longrightarrow> show_n base w n \<noteq> []"

interpretation std_text: number_text std_show std_scan
proof
  fix base w n :: nat
  show "std_show base w n \<noteq> []"
    by (simp add: std_show_def Let_def) (subst digits.simps, simp)
qed (auto simp: std_scan_show length_std_show)

section \<open>64-bit integers in hexadecimal\<close>

definition to_string_hex :: "uint64 \<Rightarrow> string" where
  "to_string_hex value_a = std_show 16 16 (unat value_a)"

text \<open>
  \<open>stream >> number_l\<close> for \<open>uint64_t\<close> with \<open>std::hex\<close>: white space is skipped, then an
  optional sign and an optional \<open>0x\<close> are taken and the hexadecimal digits that follow are
  accumulated. Without a digit the value is 0, beyond the range it is the largest value,
  and a minus sign negates modulo \<open>2 ^ 64\<close>; no exception is thrown. When nothing is left
  after the white space the variable is not written at all, and reading it is undefined.
\<close>

definition scan_sign :: "string \<Rightarrow> bool \<times> string" where
  "scan_sign s =
     (case s of
        [] \<Rightarrow> (False, [])
      | c # cs \<Rightarrow> if c = CHR ''-'' then (True, cs) else if c = CHR ''+'' then (False, cs)
                  else (False, c # cs))"

definition scan_prefix :: "string \<Rightarrow> string" where
  "scan_prefix s =
     (case s of
        a # b # cs \<Rightarrow> if a = CHR ''0'' \<and> (b = CHR ''x'' \<or> b = CHR ''X'') then cs else s
      | _ \<Rightarrow> s)"

definition scan_hex_uint64 :: "string \<Rightarrow> uint64 exec" where
  "scan_hex_uint64 text =
     (let s = dropWhile is_space text in
      if s = [] then None
      else
        (let (negative, s) = scan_sign s;
             n = digits_value 16 (takeWhile (is_digit 16) (scan_prefix s))
         in Some (if n \<ge> 2 ^ 64 then - 1 else if negative then - of_nat n else of_nat n)))"

definition from_string_hex :: "string \<Rightarrow> uint64 option exec" where
  "from_string_hex value_a =
     (if length value_a = 8 then Some None
      else map_option Some (scan_hex_uint64 value_a))"

lemma digit_char_cases:
  assumes "is_digit 16 c"
  shows "c \<noteq> CHR ''-'' \<and> c \<noteq> CHR ''+'' \<and> c \<noteq> CHR ''x'' \<and> c \<noteq> CHR ''X''"
  using assms by (auto simp: is_digit_def digit_value_def)

lemma scan_hex_uint64_digits:
  assumes ne: "s \<noteq> []" and ds: "\<forall>c \<in> set s. is_digit 16 c"
  shows "scan_hex_uint64 s =
    Some (if digits_value 16 s \<ge> 2 ^ 64 then - 1 else of_nat (digits_value 16 s))"
proof -
  obtain c cs where s: "s = c # cs" using ne by (cases s) auto
  have c: "is_digit 16 c" using ds s by simp
  have "dropWhile is_space s = s" using not_space_digit [OF c] s by simp
  moreover have "scan_sign s = (False, s)"
    using digit_char_cases [OF c] by (simp add: scan_sign_def s)
  moreover have "scan_prefix s = s"
  proof (cases cs)
    case (Cons b bs)
    with ds s have "is_digit 16 b" by simp
    with digit_char_cases Cons s show ?thesis by (auto simp: scan_prefix_def)
  qed (simp add: scan_prefix_def s)
  moreover have "digits_value 16 (takeWhile (is_digit 16) s) = digits_value 16 s"
    using ds by (metis takeWhile_eq_all_conv)
  ultimately show ?thesis using ne by (simp add: scan_hex_uint64_def Let_def)
qed

lemma length_to_string_hex: "length (to_string_hex v) = 16"
proof -
  have "unat v < 16 ^ 16" using unsigned_less [of v] by simp
  then have "length (digits 16 (unat v)) \<le> 16" by (intro length_digits) auto
  then show ?thesis by (simp add: to_string_hex_def std_show_def Let_def)
qed

text \<open>The work values that the JSON form of a block carries read back as they were written.\<close>

lemma from_to_string_hex: "from_string_hex (to_string_hex v) = Some (Some v)"
proof -
  have "to_string_hex v \<noteq> []" using length_to_string_hex [of v] by auto
  moreover have "\<forall>c \<in> set (to_string_hex v). is_digit 16 c"
    by (simp add: to_string_hex_def std_show_digit)
  moreover have "digits_value 16 (to_string_hex v) = unat v"
    by (simp add: to_string_hex_def digits_value_std_show)
  moreover have "unat v < 2 ^ 64"
    using unsigned_less [of v] by simp
  ultimately have "scan_hex_uint64 (to_string_hex v) = Some v"
    by (simp add: scan_hex_uint64_digits)
  then show ?thesis by (simp add: from_string_hex_def length_to_string_hex)
qed

section \<open>Wide numbers in hexadecimal and decimal\<close>

definition uint128_encode_hex :: "platform \<Rightarrow> uint128_union \<Rightarrow> string" where
  "uint128_encode_hex P u = mp_show P 16 32 (unat u)"

definition uint128_decode_hex :: "platform \<Rightarrow> string \<Rightarrow> uint128_union option" where
  "uint128_decode_hex P text =
     (if length text > 32 then None else map_option of_nat (mp_scan P 16 128 text))"

definition uint128_encode_dec :: "platform \<Rightarrow> uint128_union \<Rightarrow> string" where
  "uint128_encode_dec P u = mp_show P 10 0 (unat u)"

definition uint128_decode_dec :: "platform \<Rightarrow> string \<Rightarrow> uint128_union option" where
  "uint128_decode_dec P text =
     (if length text > 39 then None else map_option of_nat (mp_scan P 10 128 text))"

definition uint256_encode_hex :: "platform \<Rightarrow> uint256_union \<Rightarrow> string" where
  "uint256_encode_hex P u = mp_show P 16 64 (unat u)"

definition uint256_decode_hex :: "platform \<Rightarrow> string \<Rightarrow> uint256_union option" where
  "uint256_decode_hex P text =
     (if text \<noteq> [] then
        if length text \<le> 64 then map_option of_nat (mp_scan P 16 256 text) else None
      else None)"

definition uint256_encode_dec :: "platform \<Rightarrow> uint256_union \<Rightarrow> string" where
  "uint256_encode_dec P u = mp_show P 10 0 (unat u)"

definition uint256_decode_dec :: "platform \<Rightarrow> string \<Rightarrow> uint256_union option" where
  "uint256_decode_dec P text =
     (if length text > 78 then None else map_option of_nat (mp_scan P 10 256 text))"

definition uint512_encode_hex :: "platform \<Rightarrow> uint512_union \<Rightarrow> string" where
  "uint512_encode_hex P u = mp_show P 16 128 (unat u)"

definition uint512_decode_hex :: "platform \<Rightarrow> string \<Rightarrow> uint512_union option" where
  "uint512_decode_hex P text =
     (if length text > 128 then None else map_option of_nat (mp_scan P 16 512 text))"

lemma decode_encode_hex:
  assumes "number_text (mp_show P) (mp_scan P)"
  shows "uint128_decode_hex P (uint128_encode_hex P u) = Some u"
    and "uint256_decode_hex P (uint256_encode_hex P v) = Some v"
    and "uint512_decode_hex P (uint512_encode_hex P w) = Some w"
proof -
  note nt = number_text.scan_show [OF assms] number_text.show_nonempty [OF assms]
  have "unat u < 2 ^ 128" "unat v < 2 ^ 256" "unat w < 2 ^ 512"
    using unsigned_less [of u] unsigned_less [of v] unsigned_less [of w] by simp_all
  moreover from this have "unat u < 16 ^ 32" "unat v < 16 ^ 64" "unat w < 16 ^ 128"
    by simp_all
  ultimately show "uint128_decode_hex P (uint128_encode_hex P u) = Some u"
    and "uint256_decode_hex P (uint256_encode_hex P v) = Some v"
    and "uint512_decode_hex P (uint512_encode_hex P w) = Some w"
    using number_text.show_length [OF assms, of 16 "unat u" 32 32]
      number_text.show_length [OF assms, of 16 "unat v" 64 64]
      number_text.show_length [OF assms, of 16 "unat w" 128 128]
    by (simp_all add: uint128_decode_hex_def uint128_encode_hex_def uint256_decode_hex_def
        uint256_encode_hex_def uint512_decode_hex_def uint512_encode_hex_def nt)
qed

lemma decode_encode_dec:
  assumes "number_text (mp_show P) (mp_scan P)"
  shows "uint128_decode_dec P (uint128_encode_dec P u) = Some u"
    and "uint256_decode_dec P (uint256_encode_dec P v) = Some v"
proof -
  note nt = number_text.scan_show [OF assms]
  have "unat u < 2 ^ 128" "unat v < 2 ^ 256"
    using unsigned_less [of u] unsigned_less [of v] by simp_all
  moreover from this have "unat u < 10 ^ 39" "unat v < 10 ^ 78"
    by simp_all
  ultimately show "uint128_decode_dec P (uint128_encode_dec P u) = Some u"
    and "uint256_decode_dec P (uint256_encode_dec P v) = Some v"
    using number_text.show_length [OF assms, of 10 "unat u" 39 0]
      number_text.show_length [OF assms, of 10 "unat v" 78 0]
    by (simp_all add: uint128_decode_dec_def uint128_encode_dec_def uint256_decode_dec_def
        uint256_encode_dec_def nt)
qed

end
