(* ===== verification/Base58.thy ===== *)
theory Base58
  imports Texts
begin

text \<open>
  The account text of \<open>paper/utility.cpp\<close>: 13, a 32-bit check and the 256-bit account
  number, written in base 58. The lookup tables are the source's; reading
  \<open>base58_reverse\<close> outside its 76 bytes (the terminating zero included) is undefined and
  is \<open>None\<close> in the model.
\<close>

section \<open>The tables\<close>

definition base58_lookup :: string where
  "base58_lookup = ''123456789ABCDEFGHJKLMNPQRSTUVWXYZabcdefghijkmnopqrstuvwxyz''"

definition base58_reverse :: string where
  "base58_reverse = ''~012345678~~~~~~~9:;<=>?@~ABCDE~FGHIJKLMNOP~~~~~~QRSTUVWXYZ[~'' @
     [CHR 0x5C] @ '']^_'' @ [CHR 0x60] @ ''abcdefghi''"

definition base58_encode :: "byte \<Rightarrow> char exec" where
  "base58_encode value_a =
     (if unat value_a < 58 then Some (base58_lookup ! unat value_a) else None)"

definition base58_decode :: "char \<Rightarrow> byte exec" where
  "base58_decode value_a =
     (let i = (of_char value_a :: int) - 0x30 in
      if of_char value_a \<ge> (128 :: int) \<or> i < 0 \<or> i > 75 then None
      else if i = 75 then Some (0 - 0x30)
      else Some (of_char (base58_reverse ! nat i) - 0x30))"

lemma base58_tables:
  assumes "d < 58"
  shows "base58_decode (base58_lookup ! d) = Some (of_nat d)"
proof -
  have "list_all (\<lambda>d. base58_decode (base58_lookup ! d) = Some (of_nat d)) [0..<58]"
    by code_simp
  with assms show ?thesis by (simp add: list_all_iff)
qed

section \<open>Encoding\<close>

function base58_loop :: "uint512_t \<Rightarrow> string \<Rightarrow> string exec" where
  "base58_loop number_l destination =
     (if number_l = 0 then Some destination
      else do {
        c \<leftarrow> base58_encode (ucast (number_l mod 58));
        base58_loop (number_l div 58) (destination @ [c])
      })"
  by pat_completeness auto
termination
proof (relation "measure (\<lambda>(n, s). unat n)")
  fix n :: uint512_t and s :: string and c
  assume "n \<noteq> 0"
  then have "unat n > 0" by (simp add: unat_gt_0)
  then show "((n div 58, s @ [c]), n, s) \<in> measure (\<lambda>(n, s). unat n)"
    by (simp add: unat_div)
qed auto

declare base58_loop.simps [simp del]

definition base58_check :: "platform \<Rightarrow> uint256_union \<Rightarrow> uint32" where
  "base58_check P u = le_load (blake2b P 4 (bytes256 u))"

definition base58_number :: "platform \<Rightarrow> uint256_union \<Rightarrow> uint512_t" where
  "base58_number P u =
     ucast u OR push_bit 256 (ucast (base58_check P u)) OR push_bit (256 + 32) 13"

definition encode_base58check :: "platform \<Rightarrow> uint256_union \<Rightarrow> string exec" where
  "encode_base58check P u = map_option rev (base58_loop (base58_number P u) [])"

section \<open>Decoding\<close>

text \<open>
  The loop of \<open>decode_base58check\<close>: the first component of the result is the source's
  \<open>result\<close> flag, true when the character was taken for an invalid one.
\<close>

fun base58_accumulate :: "uint512_t \<Rightarrow> string \<Rightarrow> (bool \<times> uint512_t) exec" where
  "base58_accumulate number_l [] = Some (False, number_l)"
| "base58_accumulate number_l (c # cs) = do {
     byte \<leftarrow> base58_decode c;
     if byte = of_char (CHR ''~'') then Some (True, number_l)
     else base58_accumulate (number_l * 58 + ucast byte) cs
   }"

definition decode_base58check :: "platform \<Rightarrow> string \<Rightarrow> uint256_union option exec" where
  "decode_base58check P source_a =
     (if length source_a \<noteq> 50 then Some None
      else do {
        (result, number_l) \<leftarrow> base58_accumulate 0 source_a;
        if result then Some None
        else
          (let u = ucast number_l;
               check = ucast (drop_bit 256 number_l)
           in if drop_bit (256 + 32) number_l \<noteq> 13 then Some None
              else if check \<noteq> base58_check P u then Some None
              else Some (Some u))
      })"

section \<open>Digits\<close>

text \<open>The digits the encoder produces, least significant first.\<close>

fun base58_digits :: "nat \<Rightarrow> nat list" where
  "base58_digits n = (if n = 0 then [] else n mod 58 # base58_digits (n div 58))"

declare base58_digits.simps [simp del]

lemma base58_zero [simp]: "base58_digits 0 = []" "base58_loop 0 acc = Some acc"
  by (simp_all add: base58_digits.simps base58_loop.simps)

lemma base58_digits_small: "\<forall>d \<in> set (base58_digits n). d < 58"
proof (induction n rule: base58_digits.induct)
  case (1 n)
  then show ?case by (cases "n = 0") (simp_all add: base58_digits.simps [of n])
qed

lemma base58_digits_value:
  "foldl (\<lambda>a d. a * 58 + d) 0 (rev (base58_digits n)) = n"
proof (induction n rule: base58_digits.induct)
  case (1 n)
  then show ?case by (cases "n = 0") (simp_all add: base58_digits.simps [of n])
qed

lemma length_base58_digits:
  "58 ^ k \<le> n \<Longrightarrow> n < 58 ^ Suc k \<Longrightarrow> length (base58_digits n) = Suc k"
proof (induction k arbitrary: n)
  case 0
  then show ?case by (simp add: base58_digits.simps [of n])
next
  case (Suc k)
  have "n \<noteq> 0" using Suc.prems by auto
  moreover have "58 ^ k \<le> n div 58" "n div 58 < 58 ^ Suc k"
    using Suc.prems by (simp_all add: less_eq_div_iff_mult_less_eq div_less_iff_less_mult mult.commute)
  ultimately show ?case using Suc.IH by (simp add: base58_digits.simps [of n])
qed

lemma last_base58_digits:
  "58 ^ k \<le> n \<Longrightarrow> n < 58 ^ Suc k \<Longrightarrow> last (base58_digits n) = n div 58 ^ k"
proof (induction k arbitrary: n)
  case 0
  then show ?case by (simp add: base58_digits.simps [of n])
next
  case (Suc k)
  have "n \<noteq> 0" using Suc.prems by auto
  have b: "58 ^ k \<le> n div 58" "n div 58 < 58 ^ Suc k"
    using Suc.prems by (simp_all add: less_eq_div_iff_mult_less_eq div_less_iff_less_mult mult.commute)
  then have "base58_digits (n div 58) \<noteq> []"
    using length_base58_digits [of k "n div 58"] by auto
  with Suc.IH [OF b] \<open>n \<noteq> 0\<close> show ?case
    by (simp add: base58_digits.simps [of n] div_mult2_eq)
qed

lemma base58_loop_digits:
  "base58_loop n acc = Some (acc @ map (\<lambda>d. base58_lookup ! d) (base58_digits (unat n)))"
proof (induction n acc rule: base58_loop.induct)
  case (1 n acc)
  show ?case
  proof (cases "n = 0")
    case True
    then show ?thesis by (simp add: base58_loop.simps [of n])
  next
    case False
    have d: "unat (ucast (n mod 58) :: byte) = unat n mod 58"
    proof -
      have "unat (n mod 58) = unat n mod 58" by (simp add: unat_mod)
      moreover have "unat n mod 58 < 256" using mod_less_divisor [of 58 "unat n"] by linarith
      ultimately show ?thesis by (simp add: unsigned_ucast_eq take_bit_eq_mod)
    qed
    then have e: "base58_encode (ucast (n mod 58)) = Some (base58_lookup ! (unat n mod 58))"
      by (simp add: base58_encode_def)
    from False have "unat n \<noteq> 0" by (simp add: unat_eq_zero)
    with 1 [OF False, of "base58_lookup ! (unat n mod 58)"] False e show ?thesis
      by (simp add: base58_loop.simps [of n] base58_digits.simps [of "unat n"] unat_div)
  qed
qed

lemma base58_decode_digit:
  "d < 58 \<Longrightarrow> base58_decode (base58_lookup ! d) = Some (of_nat d) \<and>
     (of_nat d :: byte) \<noteq> 126 \<and> (ucast (of_nat d :: byte) :: uint512_t) = of_nat d"
proof -
  assume d: "d < 58"
  then have u: "unat (of_nat d :: byte) = d" by (simp add: unsigned_of_nat take_bit_nat_eq_self)
  have "(of_nat d :: byte) \<noteq> 126"
  proof
    assume "(of_nat d :: byte) = 126"
    then have "unat (of_nat d :: byte) = 126" by simp
    with u d show False by simp
  qed
  moreover have "(ucast (of_nat d :: byte) :: uint512_t) = of_nat d"
    using d by (simp add: unsigned_of_nat take_bit_nat_eq_self)
  ultimately show ?thesis using d by (simp add: base58_tables)
qed

lemma base58_accumulate_digits:
  "\<forall>d \<in> set ds. d < 58 \<Longrightarrow>
     base58_accumulate n (map (\<lambda>d. base58_lookup ! d) ds) =
       Some (False, foldl (\<lambda>a d. a * 58 + of_nat d) n ds)"
  by (induction ds arbitrary: n) (simp_all add: base58_decode_digit)

lemma foldl_of_nat:
  "foldl (\<lambda>a d. a * 58 + of_nat d) (of_nat n :: uint512_t) ds =
     of_nat (foldl (\<lambda>a d. a * 58 + d) n ds)"
proof (induction ds arbitrary: n)
  case (Cons d ds)
  show ?case using Cons.IH [of "n * 58 + d"] by simp
qed simp

section \<open>The layout of the encoded number\<close>

lemma base58_layout:
  fixes u :: uint256_t and c :: uint32 and y :: uint512_t
  defines "n \<equiv> ucast u OR push_bit 256 (ucast c) OR push_bit (256 + 32) y"
  shows "(ucast n :: uint256_t) = u"
    and "(ucast (drop_bit 256 n) :: uint32) = c"
    and "drop_bit (256 + 32) n = take_bit 224 y"
proof -
  show "(ucast n :: uint256_t) = u"
    by (rule bit_word_eqI)
      (auto simp: n_def bit_ucast_iff bit_or_iff bit_push_bit_iff)
  show "(ucast (drop_bit 256 n) :: uint32) = c"
    by (rule bit_word_eqI)
      (auto simp: n_def bit_ucast_iff bit_or_iff bit_push_bit_iff bit_drop_bit_eq
        dest: bit_imp_le_length)
  show "drop_bit (256 + 32) n = take_bit 224 y"
    by (rule bit_word_eqI)
      (auto simp: n_def bit_ucast_iff bit_or_iff bit_push_bit_iff bit_drop_bit_eq bit_take_bit_iff
        dest: bit_imp_le_length)
qed

lemma base58_number_parts:
  "ucast (base58_number P u) = u"
  "ucast (drop_bit 256 (base58_number P u)) = base58_check P u"
  "drop_bit 288 (base58_number P u) = 13"
  using base58_layout [of u "base58_check P u" 13]
  by (simp_all add: base58_number_def)

lemma base58_number_range:
  "13 * 2 ^ 288 \<le> unat (base58_number P u)" "unat (base58_number P u) < 14 * 2 ^ 288"
proof -
  define n where "n = unat (base58_number P u)"
  have "unat (drop_bit 288 (base58_number P u)) = 13"
    by (simp only: base58_number_parts) simp
  then have d: "n div 2 ^ 288 = 13"
    by (simp add: n_def drop_bit_eq_div unat_div)
  show "13 * 2 ^ 288 \<le> unat (base58_number P u)" "unat (base58_number P u) < 14 * 2 ^ 288"
    using div_times_less_eq_dividend [of n "2 ^ 288"] dividend_less_times_div [of "2 ^ 288" n] d
    by (simp_all add: n_def)
qed

lemma base58_number_bounds: "58 ^ 49 \<le> unat (base58_number P u)" "unat (base58_number P u) < 58 ^ 50"
  using base58_number_range [of P u] by simp_all

section \<open>Correctness\<close>

lemma encode_base58check_digits:
  "encode_base58check P u =
     Some (map (\<lambda>d. base58_lookup ! d) (rev (base58_digits (unat (base58_number P u)))))"
  by (simp add: encode_base58check_def base58_loop_digits rev_map)

lemma length_base58_number: "length (base58_digits (unat (base58_number P u))) = 50"
  using length_base58_digits [of 49 "unat (base58_number P u)"] base58_number_bounds [where P = P and u = u]
  by simp

lemma base58_accumulate_number:
  "base58_accumulate 0 (map (\<lambda>d. base58_lookup ! d) (rev (base58_digits (unat (base58_number P u))))) =
     Some (False, base58_number P u)"
proof -
  have "\<forall>d \<in> set (rev (base58_digits (unat (base58_number P u)))). d < 58"
    using base58_digits_small by simp
  then show ?thesis
    using foldl_of_nat [of 0 "rev (base58_digits (unat (base58_number P u)))"]
    by (simp add: base58_accumulate_digits base58_digits_value)
qed

lemma decode_base58check_digits:
  "decode_base58check P
     (map (\<lambda>d. base58_lookup ! d) (rev (base58_digits (unat (base58_number P u))))) = Some (Some u)"
  by (simp add: length_base58_number decode_base58check_def base58_accumulate_number
      base58_number_parts Let_def)

text \<open>
  C31: the base58check text of an account is always produced (no assertion of the encoder
  fails), has exactly the 50 characters the decoder insists on, and decodes to the account
  it was made from, whatever the hash function.
\<close>

theorem base58check_roundtrip:
  "\<exists>text. encode_base58check P u = Some text \<and> length text = 50 \<and>
     decode_base58check P text = Some (Some u)"
  by (simp add: encode_base58check_digits length_base58_number decode_base58check_digits)

text \<open>
  No character is ever recognised as invalid. \<open>base58_decode\<close> subtracts \<open>'0'\<close> from the
  table's entry, so the marker for an invalid character comes out as 78, and the test of
  \<open>decode_base58check\<close> against the marker itself never succeeds; the character is counted
  as the digit 78.
\<close>

theorem base58_invalid_character_accepted:
  "base58_accumulate n s \<noteq> Some (True, m) \<and> base58_decode (CHR ''0'') = Some 78"
proof -
  have table: "list_all (\<lambda>c. of_char c - 0x30 \<noteq> (126 :: byte)) base58_reverse" "length base58_reverse = 75"
    by (simp_all add: base58_reverse_def)
  have "base58_decode c \<noteq> Some 126" for c
  proof -
    have "of_char (base58_reverse ! i) - 0x30 \<noteq> (126 :: byte)" if "i < 75" for i
      using table that by (simp add: list_all_length)
    then show ?thesis by (auto simp: base58_decode_def Let_def split: if_splits)
  qed
  then have "base58_accumulate n s \<noteq> Some (True, m)"
    by (induction s arbitrary: n) (auto simp: bind_eq_Some_conv)
  moreover have "base58_decode (CHR ''0'') = Some 78"
    by (simp add: base58_decode_def base58_reverse_def)
  ultimately show ?thesis by simp
qed

end
