(* ===== verification/Blocks.thy ===== *)
theory Blocks
  imports Base58
begin

text \<open>
  The four kinds of block of \<open>paper/secure.hpp\<close> and \<open>secure.cpp\<close>: their hashed parts,
  their byte form on streams and in the store, their JSON form, their hash, their work and
  their signatures.

  Each class is a record, \<open>block\<close> the datatype of the classes derived from the abstract
  base class, and a virtual member is a function on that datatype. A constructor that reads
  a stream or a tree and reports an error through its \<open>bool &\<close> argument returns an
  option. The classes' \<open>deserialize\<close> members repeat the stream constructors and are
  modelled separately.
\<close>

section \<open>Data\<close>

datatype block_type = Bt_invalid | Bt_not_a_block | Bt_send | Bt_receive | Bt_open | Bt_change

record send_hashables =
  send_previous :: block_hash
  send_destination :: account
  send_balance :: amount

record send_block =
  send_hashables :: send_hashables
  send_signature :: signature
  send_work :: uint64

record receive_hashables =
  receive_previous :: block_hash
  receive_source :: block_hash

record receive_block =
  receive_hashables :: receive_hashables
  receive_signature :: signature
  receive_work :: uint64

record open_hashables =
  open_source :: block_hash
  open_representative :: account
  open_account :: account

record open_block =
  open_hashables :: open_hashables
  open_signature :: signature
  open_work :: uint64

record change_hashables =
  change_previous :: block_hash
  change_representative :: account

record change_block =
  change_hashables :: change_hashables
  change_signature :: signature
  change_work :: uint64

datatype block =
    Send send_block
  | Receive receive_block
  | Open open_block
  | Change change_block

definition send_block_size :: nat where
  "send_block_size = 32 + 32 + 16 + 64 + 8"

definition receive_block_size :: nat where
  "receive_block_size = 32 + 32 + 64 + 8"

definition open_block_size :: nat where
  "open_block_size = 32 + 32 + 32 + 64 + 8"

definition change_block_size :: nat where
  "change_block_size = 32 + 32 + 64 + 8"

section \<open>Virtual members\<close>

fun type_of :: "block \<Rightarrow> block_type" where
  "type_of (Send b) = Bt_send"
| "type_of (Receive b) = Bt_receive"
| "type_of (Open b) = Bt_open"
| "type_of (Change b) = Bt_change"

fun previous :: "block \<Rightarrow> block_hash" where
  "previous (Send b) = send_previous (send_hashables b)"
| "previous (Receive b) = receive_previous (receive_hashables b)"
| "previous (Open b) = 0"
| "previous (Change b) = change_previous (change_hashables b)"

fun source :: "block \<Rightarrow> block_hash" where
  "source (Send b) = 0"
| "source (Receive b) = receive_source (receive_hashables b)"
| "source (Open b) = open_source (open_hashables b)"
| "source (Change b) = 0"

fun root :: "block \<Rightarrow> block_hash" where
  "root (Send b) = send_previous (send_hashables b)"
| "root (Receive b) = receive_previous (receive_hashables b)"
| "root (Open b) = open_account (open_hashables b)"
| "root (Change b) = change_previous (change_hashables b)"

fun representative :: "block \<Rightarrow> account" where
  "representative (Send b) = 0"
| "representative (Receive b) = 0"
| "representative (Open b) = open_representative (open_hashables b)"
| "representative (Change b) = change_representative (change_hashables b)"

fun block_work :: "block \<Rightarrow> uint64" where
  "block_work (Send b) = send_work b"
| "block_work (Receive b) = receive_work b"
| "block_work (Open b) = open_work b"
| "block_work (Change b) = change_work b"

fun signature_of :: "block \<Rightarrow> signature" where
  "signature_of (Send b) = send_signature b"
| "signature_of (Receive b) = receive_signature b"
| "signature_of (Open b) = open_signature b"
| "signature_of (Change b) = change_signature b"

section \<open>Hash, work and signatures\<close>

text \<open>The bytes that \<open>hashables.hash\<close> feeds to the digest, in the order of the updates.\<close>

definition send_hashables_hash :: "send_hashables \<Rightarrow> byte list" where
  "send_hashables_hash h =
     bytes256 (send_previous h) @ bytes256 (send_destination h) @ bytes128 (send_balance h)"

definition receive_hashables_hash :: "receive_hashables \<Rightarrow> byte list" where
  "receive_hashables_hash h = bytes256 (receive_previous h) @ bytes256 (receive_source h)"

definition open_hashables_hash :: "open_hashables \<Rightarrow> byte list" where
  "open_hashables_hash h =
     bytes256 (open_source h) @ bytes256 (open_representative h) @ bytes256 (open_account h)"

definition change_hashables_hash :: "change_hashables \<Rightarrow> byte list" where
  "change_hashables_hash h = bytes256 (change_previous h) @ bytes256 (change_representative h)"

fun hashables_hash :: "block \<Rightarrow> byte list" where
  "hashables_hash (Send b) = send_hashables_hash (send_hashables b)"
| "hashables_hash (Receive b) = receive_hashables_hash (receive_hashables b)"
| "hashables_hash (Open b) = open_hashables_hash (open_hashables b)"
| "hashables_hash (Change b) = change_hashables_hash (change_hashables b)"

definition block_hash :: "platform \<Rightarrow> block \<Rightarrow> block_hash" where
  "block_hash P b = number256 (blake2b P 32 (hashables_hash b))"

definition publish_test_threshold :: uint64 where
  "publish_test_threshold = 0xff00000000000000"

definition publish_full_threshold :: uint64 where
  "publish_full_threshold = 0xfffffe0000000000"

definition publish_threshold :: "platform \<Rightarrow> uint64" where
  "publish_threshold P =
     (if network P = paper_test_network then publish_test_threshold else publish_full_threshold)"

definition work_validate :: "platform \<Rightarrow> block_hash \<Rightarrow> uint64 \<Rightarrow> bool" where
  "work_validate P root_a work_a \<longleftrightarrow>
     (le_load (blake2b P 8 (bytes64 work_a @ bytes256 root_a)) :: uint64) < publish_threshold P"

definition work_validate_block :: "platform \<Rightarrow> block \<Rightarrow> bool" where
  "work_validate_block P b = work_validate P (root b) (block_work b)"

fun block_work_set :: "platform \<Rightarrow> block \<Rightarrow> uint64 \<Rightarrow> block exec" where
  "block_work_set P (Send b) w = do {
     assert (\<not> work_validate P (root (Send b)) w); Some (Send (b\<lparr>send_work := w\<rparr>)) }"
| "block_work_set P (Receive b) w = do {
     assert (\<not> work_validate P (root (Receive b)) w); Some (Receive (b\<lparr>receive_work := w\<rparr>)) }"
| "block_work_set P (Open b) w = do {
     assert (\<not> work_validate P (root (Open b)) w); Some (Open (b\<lparr>open_work := w\<rparr>)) }"
| "block_work_set P (Change b) w = do {
     assert (\<not> work_validate P (root (Change b)) w); Some (Change (b\<lparr>change_work := w\<rparr>)) }"

definition sign_message ::
  "platform \<Rightarrow> private_key \<Rightarrow> public_key \<Rightarrow> uint256_union \<Rightarrow> uint512_union" where
  "sign_message P prv pub message = ed25519_sign P (bytes256 message) prv pub"

text \<open>True when the signature is \<^emph>\<open>not\<close> valid, as in the source.\<close>

definition validate_message ::
  "platform \<Rightarrow> public_key \<Rightarrow> uint256_union \<Rightarrow> uint512_union \<Rightarrow> bool" where
  "validate_message P pub message sig \<longleftrightarrow> 0 \<noteq> ed25519_sign_open P (bytes256 message) pub sig"

text \<open>The constructors that sign what they build.\<close>

definition make_send ::
  "platform \<Rightarrow> block_hash \<Rightarrow> account \<Rightarrow> amount \<Rightarrow> private_key \<Rightarrow> public_key \<Rightarrow> uint64 \<Rightarrow> send_block" where
  "make_send P previous_a destination_a balance_a prv pub work_a =
     (let h = \<lparr>send_previous = previous_a, send_destination = destination_a,
                send_balance = balance_a\<rparr>;
          unsigned = \<lparr>send_hashables = h, send_signature = 0, send_work = work_a\<rparr>
      in unsigned\<lparr>send_signature := sign_message P prv pub (block_hash P (Send unsigned))\<rparr>)"

definition make_receive ::
  "platform \<Rightarrow> block_hash \<Rightarrow> block_hash \<Rightarrow> private_key \<Rightarrow> public_key \<Rightarrow> uint64 \<Rightarrow> receive_block" where
  "make_receive P previous_a source_a prv pub work_a =
     (let h = \<lparr>receive_previous = previous_a, receive_source = source_a\<rparr>;
          unsigned = \<lparr>receive_hashables = h, receive_signature = 0, receive_work = work_a\<rparr>
      in unsigned\<lparr>receive_signature := sign_message P prv pub (block_hash P (Receive unsigned))\<rparr>)"

definition make_open ::
  "platform \<Rightarrow> block_hash \<Rightarrow> account \<Rightarrow> account \<Rightarrow> private_key \<Rightarrow> public_key \<Rightarrow> uint64 \<Rightarrow>
     open_block exec" where
  "make_open P source_a representative_a account_a prv pub work_a =
     (let h = \<lparr>open_source = source_a, open_representative = representative_a,
                open_account = account_a\<rparr>;
          unsigned = \<lparr>open_hashables = h, open_signature = 0, open_work = work_a\<rparr>
      in do {
        assert (\<not> uint256_is_zero representative_a);
        Some (unsigned\<lparr>open_signature := sign_message P prv pub (block_hash P (Open unsigned))\<rparr>)
      })"

text \<open>The unsigned open block of the genesis.\<close>

definition make_open_unsigned :: "block_hash \<Rightarrow> account \<Rightarrow> account \<Rightarrow> open_block" where
  "make_open_unsigned source_a representative_a account_a =
     \<lparr>open_hashables = \<lparr>open_source = source_a, open_representative = representative_a,
        open_account = account_a\<rparr>, open_signature = 0, open_work = 0\<rparr>"

definition make_change ::
  "platform \<Rightarrow> block_hash \<Rightarrow> account \<Rightarrow> private_key \<Rightarrow> public_key \<Rightarrow> uint64 \<Rightarrow> change_block" where
  "make_change P previous_a representative_a prv pub work_a =
     (let h = \<lparr>change_previous = previous_a, change_representative = representative_a\<rparr>;
          unsigned = \<lparr>change_hashables = h, change_signature = 0, change_work = work_a\<rparr>
      in unsigned\<lparr>change_signature := sign_message P prv pub (block_hash P (Change unsigned))\<rparr>)"

section \<open>Byte form\<close>

definition send_block_serialize :: "send_block \<Rightarrow> byte list" where
  "send_block_serialize b =
     bytes256 (send_previous (send_hashables b)) @
     bytes256 (send_destination (send_hashables b)) @
     bytes128 (send_balance (send_hashables b)) @
     bytes512 (send_signature b) @ bytes64 (send_work b)"

definition receive_block_serialize :: "receive_block \<Rightarrow> byte list" where
  "receive_block_serialize b =
     bytes256 (receive_previous (receive_hashables b)) @
     bytes256 (receive_source (receive_hashables b)) @
     bytes512 (receive_signature b) @ bytes64 (receive_work b)"

definition open_block_serialize :: "open_block \<Rightarrow> byte list" where
  "open_block_serialize b =
     bytes256 (open_source (open_hashables b)) @
     bytes256 (open_representative (open_hashables b)) @
     bytes256 (open_account (open_hashables b)) @
     bytes512 (open_signature b) @ bytes64 (open_work b)"

definition change_block_serialize :: "change_block \<Rightarrow> byte list" where
  "change_block_serialize b =
     bytes256 (change_previous (change_hashables b)) @
     bytes256 (change_representative (change_hashables b)) @
     bytes512 (change_signature b) @ bytes64 (change_work b)"

fun serialize :: "block \<Rightarrow> byte list" where
  "serialize (Send b) = send_block_serialize b"
| "serialize (Receive b) = receive_block_serialize b"
| "serialize (Open b) = open_block_serialize b"
| "serialize (Change b) = change_block_serialize b"

fun block_type_code :: "block_type \<Rightarrow> byte" where
  "block_type_code Bt_invalid = 0"
| "block_type_code Bt_not_a_block = 1"
| "block_type_code Bt_send = 2"
| "block_type_code Bt_receive = 3"
| "block_type_code Bt_open = 4"
| "block_type_code Bt_change = 5"

definition serialize_block :: "block \<Rightarrow> byte list" where
  "serialize_block b = block_type_code (type_of b) # serialize b"

definition send_hashables_read :: "byte list \<Rightarrow> (send_hashables \<times> byte list) option" where
  "send_hashables_read s = do {
     (p, s) \<leftarrow> read_uint256 s;
     (d, s) \<leftarrow> read_uint256 s;
     (b, s) \<leftarrow> read_uint128 s;
     Some (\<lparr>send_previous = p, send_destination = d, send_balance = b\<rparr>, s)
   }"

definition send_block_read :: "byte list \<Rightarrow> (send_block \<times> byte list) option" where
  "send_block_read s = do {
     (h, s) \<leftarrow> send_hashables_read s;
     (sig, s) \<leftarrow> read_uint512 s;
     (w, s) \<leftarrow> read_uint64 s;
     Some (\<lparr>send_hashables = h, send_signature = sig, send_work = w\<rparr>, s)
   }"

definition receive_hashables_read :: "byte list \<Rightarrow> (receive_hashables \<times> byte list) option" where
  "receive_hashables_read s = do {
     (p, s) \<leftarrow> read_uint256 s;
     (q, s) \<leftarrow> read_uint256 s;
     Some (\<lparr>receive_previous = p, receive_source = q\<rparr>, s)
   }"

definition receive_block_read :: "byte list \<Rightarrow> (receive_block \<times> byte list) option" where
  "receive_block_read s = do {
     (h, s) \<leftarrow> receive_hashables_read s;
     (sig, s) \<leftarrow> read_uint512 s;
     (w, s) \<leftarrow> read_uint64 s;
     Some (\<lparr>receive_hashables = h, receive_signature = sig, receive_work = w\<rparr>, s)
   }"

definition open_hashables_read :: "byte list \<Rightarrow> (open_hashables \<times> byte list) option" where
  "open_hashables_read s = do {
     (q, s) \<leftarrow> read_uint256 s;
     (r, s) \<leftarrow> read_uint256 s;
     (a, s) \<leftarrow> read_uint256 s;
     Some (\<lparr>open_source = q, open_representative = r, open_account = a\<rparr>, s)
   }"

definition open_block_read :: "byte list \<Rightarrow> (open_block \<times> byte list) option" where
  "open_block_read s = do {
     (h, s) \<leftarrow> open_hashables_read s;
     (sig, s) \<leftarrow> read_uint512 s;
     (w, s) \<leftarrow> read_uint64 s;
     Some (\<lparr>open_hashables = h, open_signature = sig, open_work = w\<rparr>, s)
   }"

definition change_hashables_read :: "byte list \<Rightarrow> (change_hashables \<times> byte list) option" where
  "change_hashables_read s = do {
     (p, s) \<leftarrow> read_uint256 s;
     (r, s) \<leftarrow> read_uint256 s;
     Some (\<lparr>change_previous = p, change_representative = r\<rparr>, s)
   }"

definition change_block_read :: "byte list \<Rightarrow> (change_block \<times> byte list) option" where
  "change_block_read s = do {
     (h, s) \<leftarrow> change_hashables_read s;
     (sig, s) \<leftarrow> read_uint512 s;
     (w, s) \<leftarrow> read_uint64 s;
     Some (\<lparr>change_hashables = h, change_signature = sig, change_work = w\<rparr>, s)
   }"

text \<open>The \<open>deserialize\<close> members, which fill an existing object field by field.\<close>

definition send_block_deserialize :: "byte list \<Rightarrow> (send_block \<times> byte list) option" where
  "send_block_deserialize s = do {
     (p, s) \<leftarrow> read_uint256 s;
     (d, s) \<leftarrow> read_uint256 s;
     (b, s) \<leftarrow> read_uint128 s;
     (sig, s) \<leftarrow> read_uint512 s;
     (w, s) \<leftarrow> read_uint64 s;
     Some (\<lparr>send_hashables = \<lparr>send_previous = p, send_destination = d, send_balance = b\<rparr>,
       send_signature = sig, send_work = w\<rparr>, s)
   }"

definition receive_block_deserialize :: "byte list \<Rightarrow> (receive_block \<times> byte list) option" where
  "receive_block_deserialize s = do {
     (p, s) \<leftarrow> read_uint256 s;
     (q, s) \<leftarrow> read_uint256 s;
     (sig, s) \<leftarrow> read_uint512 s;
     (w, s) \<leftarrow> read_uint64 s;
     Some (\<lparr>receive_hashables = \<lparr>receive_previous = p, receive_source = q\<rparr>,
       receive_signature = sig, receive_work = w\<rparr>, s)
   }"

definition open_block_deserialize :: "byte list \<Rightarrow> (open_block \<times> byte list) option" where
  "open_block_deserialize s = do {
     (q, s) \<leftarrow> read_uint256 s;
     (r, s) \<leftarrow> read_uint256 s;
     (a, s) \<leftarrow> read_uint256 s;
     (sig, s) \<leftarrow> read_uint512 s;
     (w, s) \<leftarrow> read_uint64 s;
     Some (\<lparr>open_hashables = \<lparr>open_source = q, open_representative = r, open_account = a\<rparr>,
       open_signature = sig, open_work = w\<rparr>, s)
   }"

definition change_block_deserialize :: "byte list \<Rightarrow> (change_block \<times> byte list) option" where
  "change_block_deserialize s = do {
     (p, s) \<leftarrow> read_uint256 s;
     (r, s) \<leftarrow> read_uint256 s;
     (sig, s) \<leftarrow> read_uint512 s;
     (w, s) \<leftarrow> read_uint64 s;
     Some (\<lparr>change_hashables = \<lparr>change_previous = p, change_representative = r\<rparr>,
       change_signature = sig, change_work = w\<rparr>, s)
   }"

text \<open>
  A type code is one byte of the stream; a byte that is no enumerator goes to the
  \<open>default\<close> branch of the switch, like \<open>invalid\<close> and \<open>not_a_block\<close>.
\<close>

definition block_type_of_byte :: "byte \<Rightarrow> block_type option" where
  "block_type_of_byte c =
     (if c = 0 then Some Bt_invalid else if c = 1 then Some Bt_not_a_block
      else if c = 2 then Some Bt_send else if c = 3 then Some Bt_receive
      else if c = 4 then Some Bt_open else if c = 5 then Some Bt_change else None)"

fun deserialize_block_typed :: "byte list \<Rightarrow> block_type option \<Rightarrow> (block \<times> byte list) option" where
  "deserialize_block_typed s (Some Bt_receive) = map_option (map_prod Receive id) (receive_block_read s)"
| "deserialize_block_typed s (Some Bt_send) = map_option (map_prod Send id) (send_block_read s)"
| "deserialize_block_typed s (Some Bt_open) = map_option (map_prod Open id) (open_block_read s)"
| "deserialize_block_typed s (Some Bt_change) = map_option (map_prod Change id) (change_block_read s)"
| "deserialize_block_typed s _ = None"

definition deserialize_block :: "byte list \<Rightarrow> (block \<times> byte list) option" where
  "deserialize_block s = do {
     (t, s) \<leftarrow> stream_read 1 s;
     deserialize_block_typed s (block_type_of_byte (hd t))
   }"

section \<open>Equality\<close>

text \<open>
  \<open>operator ==\<close> on the base class casts the other operand to the own class first.
\<close>

fun block_equal :: "block \<Rightarrow> block \<Rightarrow> bool" where
  "block_equal (Send a) (Send b) \<longleftrightarrow>
     send_destination (send_hashables a) = send_destination (send_hashables b) \<and>
     send_previous (send_hashables a) = send_previous (send_hashables b) \<and>
     uint128_equal (send_balance (send_hashables a)) (send_balance (send_hashables b)) \<and>
     send_work a = send_work b \<and> send_signature a = send_signature b"
| "block_equal (Receive a) (Receive b) \<longleftrightarrow>
     receive_previous (receive_hashables a) = receive_previous (receive_hashables b) \<and>
     receive_source (receive_hashables a) = receive_source (receive_hashables b) \<and>
     receive_work a = receive_work b \<and> receive_signature a = receive_signature b"
| "block_equal (Open a) (Open b) \<longleftrightarrow>
     open_source (open_hashables a) = open_source (open_hashables b) \<and>
     open_representative (open_hashables a) = open_representative (open_hashables b) \<and>
     open_account (open_hashables a) = open_account (open_hashables b) \<and>
     open_work a = open_work b \<and> open_signature a = open_signature b"
| "block_equal (Change a) (Change b) \<longleftrightarrow>
     change_previous (change_hashables a) = change_previous (change_hashables b) \<and>
     change_representative (change_hashables a) = change_representative (change_hashables b) \<and>
     change_work a = change_work b \<and> change_signature a = change_signature b"
| "block_equal _ _ \<longleftrightarrow> False"

lemma block_equal_eq: "block_equal a b \<longleftrightarrow> a = b"
  by (cases a; cases b) (auto simp: uint128_equal_eq intro!: send_block.equality
      send_hashables.equality receive_block.equality receive_hashables.equality
      open_block.equality open_hashables.equality change_block.equality change_hashables.equality)

section \<open>The byte form is a fixed-width encoding\<close>

interpretation send_codec: codec send_block_serialize send_block_read send_block_size
proof
  fix s r and b :: send_block
  show "send_block_read s = Some (b, r) \<longleftrightarrow> s = send_block_serialize b @ r"
    by (cases b; cases "send_hashables b")
      (auto simp: send_block_read_def send_hashables_read_def
        send_block_serialize_def bind_eq_Some_conv codec_simps)
  show "send_block_read s = None \<longleftrightarrow> length s < send_block_size"
    by (auto simp: send_block_read_def send_hashables_read_def send_block_size_def reads_cond)
qed (simp add: send_block_serialize_def send_block_size_def)

interpretation receive_codec: codec receive_block_serialize receive_block_read receive_block_size
proof
  fix s r and b :: receive_block
  show "receive_block_read s = Some (b, r) \<longleftrightarrow> s = receive_block_serialize b @ r"
    by (cases b; cases "receive_hashables b")
      (auto simp: receive_block_read_def receive_hashables_read_def
        receive_block_serialize_def bind_eq_Some_conv codec_simps)
  show "receive_block_read s = None \<longleftrightarrow> length s < receive_block_size"
    by (auto simp: receive_block_read_def receive_hashables_read_def receive_block_size_def reads_cond)
qed (simp add: receive_block_serialize_def receive_block_size_def)

interpretation open_codec: codec open_block_serialize open_block_read open_block_size
proof
  fix s r and b :: open_block
  show "open_block_read s = Some (b, r) \<longleftrightarrow> s = open_block_serialize b @ r"
    by (cases b; cases "open_hashables b")
      (auto simp: open_block_read_def open_hashables_read_def
        open_block_serialize_def bind_eq_Some_conv codec_simps)
  show "open_block_read s = None \<longleftrightarrow> length s < open_block_size"
    by (auto simp: open_block_read_def open_hashables_read_def open_block_size_def reads_cond)
qed (simp add: open_block_serialize_def open_block_size_def)

interpretation change_codec: codec change_block_serialize change_block_read change_block_size
proof
  fix s r and b :: change_block
  show "change_block_read s = Some (b, r) \<longleftrightarrow> s = change_block_serialize b @ r"
    by (cases b; cases "change_hashables b")
      (auto simp: change_block_read_def change_hashables_read_def
        change_block_serialize_def bind_eq_Some_conv codec_simps)
  show "change_block_read s = None \<longleftrightarrow> length s < change_block_size"
    by (auto simp: change_block_read_def change_hashables_read_def change_block_size_def reads_cond)
qed (simp add: change_block_serialize_def change_block_size_def)

lemmas block_reads_Some [codec_simps] =
  send_codec.dec_Some receive_codec.dec_Some open_codec.dec_Some change_codec.dec_Some

lemma deserialize_members:
  "send_block_deserialize = send_block_read"
  "receive_block_deserialize = receive_block_read"
  "open_block_deserialize = open_block_read"
  "change_block_deserialize = change_block_read"
  by (auto simp: fun_eq_iff send_block_deserialize_def send_block_read_def send_hashables_read_def
      receive_block_deserialize_def receive_block_read_def receive_hashables_read_def
      open_block_deserialize_def open_block_read_def open_hashables_read_def
      change_block_deserialize_def change_block_read_def change_hashables_read_def reads_cond)

lemma deserialize_block_typed_Some:
  "deserialize_block_typed s t = Some (b, r) \<longleftrightarrow> t = Some (type_of b) \<and> s = serialize b @ r"
  by (cases "(s, t)" rule: deserialize_block_typed.cases; cases b) (auto simp: codec_simps)

lemma block_type_of_code [simp]: "block_type_of_byte (block_type_code t) = Some t"
  by (cases t) (simp_all add: block_type_of_byte_def)

lemma block_type_of_byte_Some: "block_type_of_byte c = Some t \<longleftrightarrow> c = block_type_code t"
  by (cases t) (auto simp: block_type_of_byte_def split: if_splits)

lemma deserialize_block_iff: "deserialize_block s = Some (b, r) \<longleftrightarrow> s = serialize_block b @ r"
  by (cases s) (auto simp: deserialize_block_def serialize_block_def stream_read_def
      deserialize_block_typed_Some block_type_of_byte_Some)

text \<open>
  C32: a block read off a stream is exactly the block that was written there: the type byte
  and the class's own fields determine the block and the rest of the stream, and nothing
  but the serialisation of a block is accepted.
\<close>

theorem deserialize_serialize_block:
  "deserialize_block s = Some (b, r) \<longleftrightarrow> s = serialize_block b @ r"
  by (rule deserialize_block_iff)

end
