(* ===== verification/Blocks_Json.thy ===== *)
theory Blocks_Json
  imports Blocks
begin

text \<open>
  The JSON form of blocks (\<open>serialize_json\<close>, the constructors from a property tree,
  \<open>deserialize_json\<close> and \<open>deserialize_block_json\<close> of \<open>paper/secure.cpp\<close>). A property tree of
  these functions is flat: an association list of names and texts. Boost prints it
  (\<open>write_json\<close>, a parameter); a missing name makes \<open>get\<close> throw, which the code catches and
  turns into its error result.

  A result of type \<open>'a option exec\<close> has three outcomes: \<open>None\<close> for undefined behaviour or a
  failed assertion, \<open>Some None\<close> for the error result, \<open>Some (Some x)\<close> for success.
\<close>

type_synonym ptree = "(string \<times> string) list"

fun ptree_put :: "ptree \<Rightarrow> string \<Rightarrow> string \<Rightarrow> ptree" where
  "ptree_put [] k v = [(k, v)]"
| "ptree_put ((k', v') # t) k v = (if k' = k then (k, v) # t else (k', v') # ptree_put t k v)"

definition ptree_get :: "ptree \<Rightarrow> string \<Rightarrow> string option" where
  "ptree_get t k = map_of t k"

definition and_then :: "'a option exec \<Rightarrow> ('a \<Rightarrow> 'b option exec) \<Rightarrow> 'b option exec" where
  "and_then x f = (case x of None \<Rightarrow> None | Some None \<Rightarrow> Some None | Some (Some a) \<Rightarrow> f a)"

lemma and_then_simps [simp]:
  "and_then None f = None" "and_then (Some None) f = Some None" "and_then (Some (Some a)) f = f a"
  by (simp_all add: and_then_def)

section \<open>Writing\<close>

definition send_block_tree :: "platform \<Rightarrow> send_block \<Rightarrow> ptree exec" where
  "send_block_tree P b = do {
     let tree = ptree_put [] ''type'' ''send'';
     let tree = ptree_put tree ''previous'' (uint256_encode_hex P (send_previous (send_hashables b)));
     destination \<leftarrow> encode_base58check P (send_destination (send_hashables b));
     let tree = ptree_put tree ''destination'' destination;
     let tree = ptree_put tree ''balance'' (uint128_encode_hex P (send_balance (send_hashables b)));
     let tree = ptree_put tree ''work'' (to_string_hex (send_work b));
     Some (ptree_put tree ''signature'' (uint512_encode_hex P (send_signature b)))
   }"

definition receive_block_tree :: "platform \<Rightarrow> receive_block \<Rightarrow> ptree exec" where
  "receive_block_tree P b = do {
     let tree = ptree_put [] ''type'' ''receive'';
     let tree = ptree_put tree ''previous'' (uint256_encode_hex P (receive_previous (receive_hashables b)));
     let tree = ptree_put tree ''source'' (uint256_encode_hex P (receive_source (receive_hashables b)));
     let tree = ptree_put tree ''work'' (to_string_hex (receive_work b));
     Some (ptree_put tree ''signature'' (uint512_encode_hex P (receive_signature b)))
   }"

definition open_block_tree :: "platform \<Rightarrow> open_block \<Rightarrow> ptree exec" where
  "open_block_tree P b = do {
     let tree = ptree_put [] ''type'' ''open'';
     let tree = ptree_put tree ''source'' (uint256_encode_hex P (open_source (open_hashables b)));
     representative_l \<leftarrow> encode_base58check P (open_representative (open_hashables b));
     let tree = ptree_put tree ''representative'' representative_l;
     account_l \<leftarrow> encode_base58check P (open_account (open_hashables b));
     let tree = ptree_put tree ''account'' account_l;
     let tree = ptree_put tree ''work'' (to_string_hex (open_work b));
     Some (ptree_put tree ''signature'' (uint512_encode_hex P (open_signature b)))
   }"

definition change_block_tree :: "platform \<Rightarrow> change_block \<Rightarrow> ptree exec" where
  "change_block_tree P b = do {
     let tree = ptree_put [] ''type'' ''change'';
     let tree = ptree_put tree ''previous'' (uint256_encode_hex P (change_previous (change_hashables b)));
     representative_l \<leftarrow> encode_base58check P (change_representative (change_hashables b));
     let tree = ptree_put tree ''representative'' representative_l;
     let tree = ptree_put tree ''work'' (to_string_hex (change_work b));
     Some (ptree_put tree ''signature'' (uint512_encode_hex P (change_signature b)))
   }"

fun block_tree :: "platform \<Rightarrow> block \<Rightarrow> ptree exec" where
  "block_tree P (Send b) = send_block_tree P b"
| "block_tree P (Receive b) = receive_block_tree P b"
| "block_tree P (Open b) = open_block_tree P b"
| "block_tree P (Change b) = change_block_tree P b"

definition to_json :: "platform \<Rightarrow> block \<Rightarrow> string exec" where
  "to_json P b = map_option (write_json P) (block_tree P b)"

section \<open>Reading\<close>

definition send_hashables_of_tree :: "platform \<Rightarrow> ptree \<Rightarrow> send_hashables option exec" where
  "send_hashables_of_tree P tree_a =
     and_then (Some (ptree_get tree_a ''previous'')) (\<lambda>previous_l.
     and_then (Some (ptree_get tree_a ''destination'')) (\<lambda>destination_l.
     and_then (Some (ptree_get tree_a ''balance'')) (\<lambda>balance_l.
     and_then (Some (uint256_decode_hex P previous_l)) (\<lambda>p.
     and_then (decode_base58check P destination_l) (\<lambda>d.
     and_then (Some (uint128_decode_hex P balance_l)) (\<lambda>b.
     Some (Some \<lparr>send_previous = p, send_destination = d, send_balance = b\<rparr>)))))))"

definition send_block_of_tree :: "platform \<Rightarrow> ptree \<Rightarrow> send_block option exec" where
  "send_block_of_tree P tree_a =
     and_then (send_hashables_of_tree P tree_a) (\<lambda>h.
     and_then (Some (ptree_get tree_a ''signature'')) (\<lambda>signature_l.
     and_then (Some (ptree_get tree_a ''work'')) (\<lambda>work_l.
     and_then (Some (uint512_decode_hex P signature_l)) (\<lambda>sig.
     and_then (from_string_hex work_l) (\<lambda>w.
     Some (Some \<lparr>send_hashables = h, send_signature = sig, send_work = w\<rparr>))))))"

definition receive_hashables_of_tree :: "platform \<Rightarrow> ptree \<Rightarrow> receive_hashables option exec" where
  "receive_hashables_of_tree P tree_a =
     and_then (Some (ptree_get tree_a ''previous'')) (\<lambda>previous_l.
     and_then (Some (ptree_get tree_a ''source'')) (\<lambda>source_l.
     and_then (Some (uint256_decode_hex P previous_l)) (\<lambda>p.
     and_then (Some (uint256_decode_hex P source_l)) (\<lambda>q.
     Some (Some \<lparr>receive_previous = p, receive_source = q\<rparr>)))))"

definition receive_block_of_tree :: "platform \<Rightarrow> ptree \<Rightarrow> receive_block option exec" where
  "receive_block_of_tree P tree_a =
     and_then (receive_hashables_of_tree P tree_a) (\<lambda>h.
     and_then (Some (ptree_get tree_a ''signature'')) (\<lambda>signature_l.
     and_then (Some (ptree_get tree_a ''work'')) (\<lambda>work_l.
     and_then (Some (uint512_decode_hex P signature_l)) (\<lambda>sig.
     and_then (from_string_hex work_l) (\<lambda>w.
     Some (Some \<lparr>receive_hashables = h, receive_signature = sig, receive_work = w\<rparr>))))))"

definition open_hashables_of_tree :: "platform \<Rightarrow> ptree \<Rightarrow> open_hashables option exec" where
  "open_hashables_of_tree P tree_a =
     and_then (Some (ptree_get tree_a ''source'')) (\<lambda>source_l.
     and_then (Some (ptree_get tree_a ''representative'')) (\<lambda>representative_l.
     and_then (Some (ptree_get tree_a ''account'')) (\<lambda>account_l.
     and_then (Some (uint256_decode_hex P source_l)) (\<lambda>q.
     and_then (decode_base58check P representative_l) (\<lambda>r.
     and_then (decode_base58check P account_l) (\<lambda>a.
     Some (Some \<lparr>open_source = q, open_representative = r, open_account = a\<rparr>)))))))"

definition open_block_of_tree :: "platform \<Rightarrow> ptree \<Rightarrow> open_block option exec" where
  "open_block_of_tree P tree_a =
     and_then (open_hashables_of_tree P tree_a) (\<lambda>h.
     and_then (Some (ptree_get tree_a ''work'')) (\<lambda>work_l.
     and_then (Some (ptree_get tree_a ''signature'')) (\<lambda>signature_l.
     and_then (from_string_hex work_l) (\<lambda>w.
     and_then (Some (uint512_decode_hex P signature_l)) (\<lambda>sig.
     Some (Some \<lparr>open_hashables = h, open_signature = sig, open_work = w\<rparr>))))))"

definition change_hashables_of_tree :: "platform \<Rightarrow> ptree \<Rightarrow> change_hashables option exec" where
  "change_hashables_of_tree P tree_a =
     and_then (Some (ptree_get tree_a ''previous'')) (\<lambda>previous_l.
     and_then (Some (ptree_get tree_a ''representative'')) (\<lambda>representative_l.
     and_then (Some (uint256_decode_hex P previous_l)) (\<lambda>p.
     and_then (decode_base58check P representative_l) (\<lambda>r.
     Some (Some \<lparr>change_previous = p, change_representative = r\<rparr>)))))"

definition change_block_of_tree :: "platform \<Rightarrow> ptree \<Rightarrow> change_block option exec" where
  "change_block_of_tree P tree_a =
     and_then (change_hashables_of_tree P tree_a) (\<lambda>h.
     and_then (Some (ptree_get tree_a ''work'')) (\<lambda>work_l.
     and_then (Some (ptree_get tree_a ''signature'')) (\<lambda>signature_l.
     and_then (from_string_hex work_l) (\<lambda>w.
     and_then (Some (uint512_decode_hex P signature_l)) (\<lambda>sig.
     Some (Some \<lparr>change_hashables = h, change_signature = sig, change_work = w\<rparr>))))))"

definition deserialize_block_json :: "platform \<Rightarrow> ptree \<Rightarrow> block option exec" where
  "deserialize_block_json P tree_a =
     and_then (Some (ptree_get tree_a ''type'')) (\<lambda>type_l.
       if type_l = ''receive'' then map_option (map_option Receive) (receive_block_of_tree P tree_a)
       else if type_l = ''send'' then map_option (map_option Send) (send_block_of_tree P tree_a)
       else if type_l = ''open'' then map_option (map_option Open) (open_block_of_tree P tree_a)
       else if type_l = ''change'' then map_option (map_option Change) (change_block_of_tree P tree_a)
       else Some None)"

text \<open>
  The \<open>deserialize_json\<close> members. They assert the type before anything else and, in the open
  and the change block, read the accounts as hexadecimal.
\<close>

definition send_block_deserialize_json :: "platform \<Rightarrow> ptree \<Rightarrow> send_block option exec" where
  "send_block_deserialize_json P tree_a =
     and_then (Some (ptree_get tree_a ''type'')) (\<lambda>type_l.
     if type_l \<noteq> ''send'' then None else
     and_then (Some (ptree_get tree_a ''previous'')) (\<lambda>previous_l.
     and_then (Some (ptree_get tree_a ''destination'')) (\<lambda>destination_l.
     and_then (Some (ptree_get tree_a ''balance'')) (\<lambda>balance_l.
     and_then (Some (ptree_get tree_a ''work'')) (\<lambda>work_l.
     and_then (Some (ptree_get tree_a ''signature'')) (\<lambda>signature_l.
     and_then (Some (uint256_decode_hex P previous_l)) (\<lambda>p.
     and_then (decode_base58check P destination_l) (\<lambda>d.
     and_then (Some (uint128_decode_hex P balance_l)) (\<lambda>b.
     and_then (from_string_hex work_l) (\<lambda>w.
     and_then (Some (uint512_decode_hex P signature_l)) (\<lambda>sig.
     Some (Some \<lparr>send_hashables = \<lparr>send_previous = p, send_destination = d, send_balance = b\<rparr>,
       send_signature = sig, send_work = w\<rparr>))))))))))))"

definition receive_block_deserialize_json :: "platform \<Rightarrow> ptree \<Rightarrow> receive_block option exec" where
  "receive_block_deserialize_json P tree_a =
     and_then (Some (ptree_get tree_a ''type'')) (\<lambda>type_l.
     if type_l \<noteq> ''receive'' then None else
     and_then (Some (ptree_get tree_a ''previous'')) (\<lambda>previous_l.
     and_then (Some (ptree_get tree_a ''source'')) (\<lambda>source_l.
     and_then (Some (ptree_get tree_a ''work'')) (\<lambda>work_l.
     and_then (Some (ptree_get tree_a ''signature'')) (\<lambda>signature_l.
     and_then (Some (uint256_decode_hex P previous_l)) (\<lambda>p.
     and_then (Some (uint256_decode_hex P source_l)) (\<lambda>q.
     and_then (from_string_hex work_l) (\<lambda>w.
     and_then (Some (uint512_decode_hex P signature_l)) (\<lambda>sig.
     Some (Some \<lparr>receive_hashables = \<lparr>receive_previous = p, receive_source = q\<rparr>,
       receive_signature = sig, receive_work = w\<rparr>))))))))))"

definition open_block_deserialize_json :: "platform \<Rightarrow> ptree \<Rightarrow> open_block option exec" where
  "open_block_deserialize_json P tree_a =
     and_then (Some (ptree_get tree_a ''type'')) (\<lambda>type_l.
     if type_l \<noteq> ''open'' then None else
     and_then (Some (ptree_get tree_a ''source'')) (\<lambda>source_l.
     and_then (Some (ptree_get tree_a ''representative'')) (\<lambda>representative_l.
     and_then (Some (ptree_get tree_a ''account'')) (\<lambda>account_l.
     and_then (Some (ptree_get tree_a ''work'')) (\<lambda>work_l.
     and_then (Some (ptree_get tree_a ''signature'')) (\<lambda>signature_l.
     and_then (Some (uint256_decode_hex P source_l)) (\<lambda>q.
     and_then (Some (uint256_decode_hex P representative_l)) (\<lambda>r.
     and_then (Some (uint256_decode_hex P account_l)) (\<lambda>a.
     and_then (from_string_hex work_l) (\<lambda>w.
     and_then (Some (uint512_decode_hex P signature_l)) (\<lambda>sig.
     Some (Some \<lparr>open_hashables = \<lparr>open_source = q, open_representative = r, open_account = a\<rparr>,
       open_signature = sig, open_work = w\<rparr>))))))))))))"

definition change_block_deserialize_json :: "platform \<Rightarrow> ptree \<Rightarrow> change_block option exec" where
  "change_block_deserialize_json P tree_a =
     and_then (Some (ptree_get tree_a ''type'')) (\<lambda>type_l.
     if type_l \<noteq> ''change'' then None else
     and_then (Some (ptree_get tree_a ''previous'')) (\<lambda>previous_l.
     and_then (Some (ptree_get tree_a ''representative'')) (\<lambda>representative_l.
     and_then (Some (ptree_get tree_a ''work'')) (\<lambda>work_l.
     and_then (Some (ptree_get tree_a ''signature'')) (\<lambda>signature_l.
     and_then (Some (uint256_decode_hex P previous_l)) (\<lambda>p.
     and_then (Some (uint256_decode_hex P representative_l)) (\<lambda>r.
     and_then (from_string_hex work_l) (\<lambda>w.
     and_then (Some (uint512_decode_hex P signature_l)) (\<lambda>sig.
     Some (Some \<lparr>change_hashables = \<lparr>change_previous = p, change_representative = r\<rparr>,
       change_signature = sig, change_work = w\<rparr>))))))))))"

section \<open>Round trips\<close>

lemma encode_base58check_text:
  obtains t where "encode_base58check P u = Some t" "decode_base58check P t = Some (Some u)"
  by (metis encode_base58check_digits decode_base58check_digits)

lemmas tree_defs =
  send_block_tree_def receive_block_tree_def open_block_tree_def change_block_tree_def

lemmas of_tree_defs =
  send_hashables_of_tree_def send_block_of_tree_def receive_hashables_of_tree_def
  receive_block_of_tree_def open_hashables_of_tree_def open_block_of_tree_def
  change_hashables_of_tree_def change_block_of_tree_def

text \<open>
  C33: the JSON form of a block reads back as the same block, for any formatter of wide
  numbers whose texts read back.
\<close>

theorem block_json_roundtrip:
  assumes "number_text (mp_show P) (mp_scan P)"
  shows "\<exists>tree. block_tree P b = Some tree \<and> deserialize_block_json P tree = Some (Some b)"
proof -
  note hex = decode_encode_hex [OF assms]
  show ?thesis
  proof (cases b)
    case (Send s)
    obtain t where "encode_base58check P (send_destination (send_hashables s)) = Some t"
      "decode_base58check P t = Some (Some (send_destination (send_hashables s)))"
      by (rule encode_base58check_text)
    then show ?thesis
      by (simp add: Send deserialize_block_json_def of_tree_defs tree_defs ptree_get_def hex from_to_string_hex)
  next
    case (Receive s)
    then show ?thesis
      by (simp add: deserialize_block_json_def of_tree_defs tree_defs ptree_get_def hex from_to_string_hex)
  next
    case (Open s)
    obtain t where "encode_base58check P (open_representative (open_hashables s)) = Some t"
      "decode_base58check P t = Some (Some (open_representative (open_hashables s)))"
      by (rule encode_base58check_text)
    moreover obtain t' where "encode_base58check P (open_account (open_hashables s)) = Some t'"
      "decode_base58check P t' = Some (Some (open_account (open_hashables s)))"
      by (rule encode_base58check_text)
    ultimately show ?thesis
      by (simp add: Open deserialize_block_json_def of_tree_defs tree_defs ptree_get_def hex from_to_string_hex)
  next
    case (Change s)
    obtain t where "encode_base58check P (change_representative (change_hashables s)) = Some t"
      "decode_base58check P t = Some (Some (change_representative (change_hashables s)))"
      by (rule encode_base58check_text)
    then show ?thesis
      by (simp add: Change deserialize_block_json_def of_tree_defs tree_defs ptree_get_def hex from_to_string_hex)
  qed
qed

text \<open>A platform with the standard positional texts, for concrete instances.\<close>

definition text_platform :: platform where
  "text_platform =
     \<lparr>network = paper_test_network, blake2b = (\<lambda>n m. take n (rev m @ replicate n 0)),
      ed25519_publickey = id, ed25519_sign = (\<lambda>m prv pub. 0), ed25519_sign_open = (\<lambda>m pub sig. 0),
      mp_show = std_show, mp_scan = std_scan,
      aes_ctr = (\<lambda>key iv m. m), aes_ctr_dec = (\<lambda>key iv m. m), write_json = concat \<circ> map fst\<rparr>"

theorem block_json_roundtrip_witness:
  "number_text (mp_show text_platform) (mp_scan text_platform) \<and>
   (\<exists>tree. block_tree text_platform (Open (make_open_unsigned 1 2 3)) = Some tree \<and>
      deserialize_block_json text_platform tree = Some (Some (Open (make_open_unsigned 1 2 3))))"
proof -
  have "number_text (mp_show text_platform) (mp_scan text_platform)"
    by (simp add: text_platform_def std_text.number_text_axioms)
  then show ?thesis using block_json_roundtrip [of text_platform] by blast
qed

section \<open>The unused reader of open and change blocks\<close>

lemma hd_base58_text:
  assumes "encode_base58check P u = Some t"
  shows "t \<noteq> [] \<and> length t = 50 \<and> hd t \<in> {CHR ''S'', CHR ''T'', CHR ''U''}"
proof -
  define n where "n = unat (base58_number P u)"
  have b: "13 * 2 ^ 288 \<le> n" "n < 14 * 2 ^ 288"
    using base58_number_range [of P u] by (simp_all add: n_def)
  have t: "t = map (\<lambda>d. base58_lookup ! d) (rev (base58_digits n))"
    using assms by (simp add: encode_base58check_digits n_def)
  have "length (base58_digits n) = Suc 49"
    using length_base58_number [of P u] by (simp add: n_def)
  moreover have "last (base58_digits n) = n div 58 ^ 49"
    using last_base58_digits [of 49 n] b by simp
  moreover have "n div 58 ^ 49 \<in> {25, 26, 27}"
  proof -
    have "25 \<le> n div 58 ^ 49" using b by (simp add: less_eq_div_iff_mult_less_eq)
    moreover have "n div 58 ^ 49 < 28" using b by (simp add: div_less_iff_less_mult)
    ultimately show ?thesis by auto
  qed
  ultimately have "t \<noteq> []" "length t = 50" "hd t = base58_lookup ! (n div 58 ^ 49)"
    by (auto simp: t hd_rev hd_map length_0_conv [symmetric] simp del: length_0_conv)
  then show ?thesis using \<open>n div 58 ^ 49 \<in> {25, 26, 27}\<close> by (auto simp: base58_lookup_def)
qed

lemma base58_text_as_hex:
  assumes "encode_base58check P u = Some t" and "mp_scan P = std_scan"
  shows "uint256_decode_hex P t = Some 0"
proof -
  obtain c cs where t: "t = c # cs" and c: "c \<in> {CHR ''S'', CHR ''T'', CHR ''U''}" and l: "length t = 50"
    using hd_base58_text [OF assms(1)] by (cases t) auto
  have "\<not> is_space c" "\<not> is_digit 16 c"
    using c by (auto simp: is_space_def is_digit_def digit_value_def)
  then have "std_scan 16 256 t = Some 0" by (simp add: std_scan_def t digits_value_def)
  with l t show ?thesis by (simp add: uint256_decode_hex_def assms(2))
qed

text \<open>
  \<open>open_block::deserialize_json\<close> does not read what \<open>open_block::serialize_json\<close> writes.
  The accounts are written in base58check and read as hexadecimal; the first character of an
  account's text is never a hexadecimal digit, so the reader reports success with the
  account and the representative set to zero. (The constructor from a tree, which the
  program uses, reads base58check.)
\<close>

theorem open_deserialize_json_zeroes_accounts:
  assumes "mp_show P = std_show" "mp_scan P = std_scan"
    and "open_block_tree P b = Some tree"
  shows "\<exists>b'. open_block_deserialize_json P tree = Some (Some b') \<and>
    open_source (open_hashables b') = open_source (open_hashables b) \<and>
    open_representative (open_hashables b') = 0 \<and> open_account (open_hashables b') = 0"
proof -
  have nt: "number_text (mp_show P) (mp_scan P)"
    using assms by (simp add: std_text.number_text_axioms)
  obtain r a where "encode_base58check P (open_representative (open_hashables b)) = Some r"
    "encode_base58check P (open_account (open_hashables b)) = Some a"
    by (meson encode_base58check_text)
  with assms(3) base58_text_as_hex [OF _ assms(2)] show ?thesis
    by (auto simp: open_block_tree_def open_block_deserialize_json_def ptree_get_def
        decode_encode_hex [OF nt] from_to_string_hex)
qed

theorem open_deserialize_json_zeroes_accounts_witness:
  "\<exists>tree b'. open_block_tree text_platform (make_open_unsigned 1 2 3) = Some tree \<and>
     open_block_deserialize_json text_platform tree = Some (Some b') \<and>
     open_source (open_hashables b') = 1 \<and>
     open_representative (open_hashables b') = 0 \<and> open_account (open_hashables b') = 0"
proof -
  have p: "mp_show text_platform = std_show" "mp_scan text_platform = std_scan"
    by (simp_all add: text_platform_def)
  obtain r a where "encode_base58check text_platform 2 = Some r" "encode_base58check text_platform 3 = Some a"
    by (meson encode_base58check_text)
  then obtain tree where t: "open_block_tree text_platform (make_open_unsigned 1 2 3) = Some tree"
    by (simp add: open_block_tree_def make_open_unsigned_def)
  from open_deserialize_json_zeroes_accounts [OF p t] t show ?thesis
    by (auto simp: make_open_unsigned_def)
qed

end
