(* ===== verification/Mdb.thy ===== *)
theory Mdb
  imports Prelude
begin

text \<open>
  A database of the embedded store (\<open>liblmdb\<close>), as the program uses one: a finite map from
  keys to values, iterated in the order of the keys. The type \<open>('k, 'v) mdb\<close> holds the
  entries as a list in strictly increasing key order, so two databases with the same
  content are equal. \<open>mdb_get\<close>, \<open>mdb_put\<close>, \<open>mdb_del\<close>, \<open>mdb_drop\<close> and the cursor
  operations \<open>MDB_FIRST\<close>, \<open>MDB_SET_RANGE\<close> and \<open>MDB_NEXT\<close> are what the library documents;
  the status \<open>MDB_NOTFOUND\<close> is \<open>None\<close>. Failures of the disk or of the map size are not
  modelled.

  Keys are the 256-bit or 64-bit values the program stores under. The library compares
  keys byte by byte; on 256-bit keys, stored most significant byte first, that is the order
  of the numbers.

  The interface \<open>kv_table\<close> is what the block store relies on; the lemmas about several
  updates in a row are proved in it once.
\<close>

section \<open>Sorted entry lists\<close>

fun entries_put :: "'k::linorder \<Rightarrow> 'v \<Rightarrow> ('k \<times> 'v) list \<Rightarrow> ('k \<times> 'v) list" where
  "entries_put k v [] = [(k, v)]"
| "entries_put k v (e # es) =
     (if fst e < k then e # entries_put k v es
      else if fst e = k then (k, v) # es
      else (k, v) # e # es)"

definition entries_del :: "'k \<Rightarrow> ('k \<times> 'v) list \<Rightarrow> ('k \<times> 'v) list" where
  "entries_del k es = filter (\<lambda>e. fst e \<noteq> k) es"

lemma entries_del_simps [simp]:
  "entries_del k [] = []"
  "entries_del k (e # es) = (if fst e = k then entries_del k es else e # entries_del k es)"
  by (simp_all add: entries_del_def)

lemma keys_entries_put: "fst ` set (entries_put k v es) = insert k (fst ` set es)"
  by (induction es) auto

lemma sorted_entries_put:
  "sorted_wrt (<) (map fst es) \<Longrightarrow> sorted_wrt (<) (map fst (entries_put k v es))"
proof (induction es)
  case (Cons e es)
  have "set (map fst (entries_put k v es)) = insert k (set (map fst es))"
    using keys_entries_put [of k v es] by simp
  with Cons show ?case by (auto simp del: set_map)
qed simp

lemma sorted_entries_del:
  "sorted_wrt (<) (map fst es) \<Longrightarrow> sorted_wrt (<) (map fst (entries_del k es))"
  by (induction es) (auto simp: entries_del_def)

lemma map_of_entries_put: "map_of (entries_put k v es) = (map_of es)(k \<mapsto> v)"
  by (induction es) auto

lemma map_of_entries_del: "map_of (entries_del k es) = (map_of es)(k := None)"
  by (induction es) auto

section \<open>Databases\<close>

typedef (overloaded) ('k :: linorder, 'v) mdb =
  "{es :: ('k \<times> 'v) list. sorted_wrt (<) (map fst es)}"
  morphisms mdb_entries Abs_mdb
  by (rule exI [of _ "[]"]) simp

setup_lifting type_definition_mdb

lift_definition mdb_empty :: "('k::linorder, 'v) mdb" is "[]"
  by simp

lift_definition mdb_get :: "('k::linorder, 'v) mdb \<Rightarrow> 'k \<Rightarrow> 'v option" is map_of .

lift_definition mdb_put :: "('k::linorder, 'v) mdb \<Rightarrow> 'k \<Rightarrow> 'v \<Rightarrow> ('k, 'v) mdb"
  is "\<lambda>es k v. entries_put k v es"
  by (rule sorted_entries_put)

lift_definition mdb_remove :: "('k::linorder, 'v) mdb \<Rightarrow> 'k \<Rightarrow> ('k, 'v) mdb"
  is "\<lambda>es k. entries_del k es"
  by (rule sorted_entries_del)

definition mdb_del :: "('k::linorder, 'v) mdb \<Rightarrow> 'k \<Rightarrow> ('k, 'v) mdb option" where
  "mdb_del db k = (case mdb_get db k of None \<Rightarrow> None | Some v \<Rightarrow> Some (mdb_remove db k))"

definition mdb_first :: "('k::linorder, 'v) mdb \<Rightarrow> ('k \<times> 'v) option" where
  "mdb_first db = (case mdb_entries db of [] \<Rightarrow> None | e # es \<Rightarrow> Some e)"

definition mdb_set_range :: "('k::linorder, 'v) mdb \<Rightarrow> 'k \<Rightarrow> ('k \<times> 'v) option" where
  "mdb_set_range db k = find (\<lambda>e. k \<le> fst e) (mdb_entries db)"

definition mdb_next :: "('k::linorder, 'v) mdb \<Rightarrow> 'k \<Rightarrow> ('k \<times> 'v) option" where
  "mdb_next db k = find (\<lambda>e. k < fst e) (mdb_entries db)"

lemma mdb_get_empty [simp]: "mdb_get mdb_empty k = None"
  by transfer simp

lemma mdb_get_put [simp]: "mdb_get (mdb_put db k v) k' = (if k' = k then Some v else mdb_get db k')"
  by transfer (simp add: map_of_entries_put)

lemma mdb_get_remove [simp]: "mdb_get (mdb_remove db k) k' = (if k' = k then None else mdb_get db k')"
  by transfer (simp add: map_of_entries_del)

lemma mdb_del_Some: "mdb_del db k = Some db' \<longleftrightarrow> mdb_get db k \<noteq> None \<and> db' = mdb_remove db k"
  by (auto simp: mdb_del_def split: option.splits)

lemma mdb_del_None: "mdb_del db k = None \<longleftrightarrow> mdb_get db k = None"
  by (auto simp: mdb_del_def split: option.splits)

lemma mdb_entries_simps [simp]:
  "mdb_entries mdb_empty = []"
  "mdb_entries (mdb_put db k v) = entries_put k v (mdb_entries db)"
  "mdb_entries (mdb_remove db k) = entries_del k (mdb_entries db)"
  by (transfer, simp)+

lemma mdb_get_entries: "mdb_get db k = map_of (mdb_entries db) k"
  by (simp add: mdb_get.rep_eq)

lemma sorted_mdb_entries [simp]: "sorted_wrt (<) (map fst (mdb_entries db))"
  using mdb_entries [of db] by simp

lemma distinct_mdb_entries [simp]: "distinct (map fst (mdb_entries db))"
  using sorted_mdb_entries [of db] strict_sorted_iff by blast

lemma mdb_get_iff: "mdb_get db k = Some v \<longleftrightarrow> (k, v) \<in> set (mdb_entries db)"
  by (simp add: mdb_get_entries map_of_eq_Some_iff)

lemma mdb_eqI:
  assumes "\<And>k. mdb_get d k = mdb_get e k"
  shows "d = e"
proof -
  have s: "set (mdb_entries d) = set (mdb_entries e)"
    using assms mdb_get_iff by (metis subsetI subset_antisym surj_pair)
  moreover have "inj_on fst (set (mdb_entries d))"
    using distinct_mdb_entries [of d] by (simp add: distinct_map)
  ultimately have "mdb_entries d = mdb_entries e"
    by (intro map_sorted_distinct_set_unique [of fst])
      (use strict_sorted_iff in \<open>auto intro: strict_sorted_imp_sorted\<close>)
  then show ?thesis by (simp add: mdb_entries_inject)
qed

text \<open>The database with every value replaced by its image: what stored bytes stand for.\<close>

lift_definition mdb_map :: "('v \<Rightarrow> 'w) \<Rightarrow> ('k::linorder, 'v) mdb \<Rightarrow> ('k, 'w) mdb"
  is "\<lambda>f es. map (apsnd f) es"
  by (simp add: comp_def)

lemma map_of_apsnd: "map_of (map (apsnd f) es) k = map_option f (map_of es k)"
  by (induction es) auto

lemma mdb_get_map [simp]: "mdb_get (mdb_map f db) k = map_option f (mdb_get db k)"
  by transfer (rule map_of_apsnd)

lemma mdb_map_simps [simp]:
  "mdb_map f mdb_empty = mdb_empty"
  "mdb_map f (mdb_put db k v) = mdb_put (mdb_map f db) k (f v)"
  "mdb_map f (mdb_remove db k) = mdb_remove (mdb_map f db) k"
  by (auto intro: mdb_eqI)

section \<open>The interface\<close>

locale kv_table =
  fixes get :: "'d \<Rightarrow> 'k \<Rightarrow> 'v option"
    and put :: "'d \<Rightarrow> 'k \<Rightarrow> 'v \<Rightarrow> 'd"
    and remove :: "'d \<Rightarrow> 'k \<Rightarrow> 'd"
  assumes get_put: "get (put d k v) k' = (if k' = k then Some v else get d k')"
    and get_remove: "get (remove d k) k' = (if k' = k then None else get d k')"
    and ext: "(\<And>k. get d k = get e k) \<Longrightarrow> d = e"
begin

lemma put_same: "get d k = Some v \<Longrightarrow> put d k v = d"
  by (rule ext) (simp add: get_put)

lemma put_put: "put (put d k v) k w = put d k w"
  by (rule ext) (simp add: get_put)

lemma put_commute: "k \<noteq> l \<Longrightarrow> put (put d k v) l w = put (put d l w) k v"
  by (rule ext) (simp add: get_put)

lemma remove_put: "get d k = None \<Longrightarrow> remove (put d k v) k = d"
  by (rule ext) (simp add: get_put get_remove)

lemma put_remove: "get d k = Some v \<Longrightarrow> put (remove d k) k v = d"
  by (rule ext) (simp add: get_put get_remove)

lemma put_remove_other: "k \<noteq> l \<Longrightarrow> put (remove d k) l v = remove (put d l v) k"
  by (rule ext) (simp add: get_put get_remove)

lemma remove_absent: "get d k = None \<Longrightarrow> remove d k = d"
  by (rule ext) (simp add: get_remove)

end

interpretation tbl: kv_table mdb_get mdb_put mdb_remove
  by unfold_locales (auto intro: mdb_eqI)

section \<open>Totals\<close>

text \<open>The sum of a measure and the exclusive or of a key over all entries.\<close>

definition mdb_sum :: "('k \<Rightarrow> 'v \<Rightarrow> nat) \<Rightarrow> ('k::linorder, 'v) mdb \<Rightarrow> nat" where
  "mdb_sum f db = sum_list (map (\<lambda>(k, v). f k v) (mdb_entries db))"

definition mdb_xor :: "('k \<Rightarrow> 'v \<Rightarrow> 'a::len word) \<Rightarrow> ('k::linorder, 'v) mdb \<Rightarrow> 'a word" where
  "mdb_xor f db = foldr (\<lambda>(k, v) acc. f k v XOR acc) (mdb_entries db) 0"

definition entry_or :: "'a \<Rightarrow> ('v \<Rightarrow> 'a) \<Rightarrow> 'v option \<Rightarrow> 'a" where
  "entry_or z f x = (case x of None \<Rightarrow> z | Some v \<Rightarrow> f v)"

lemma entry_or_simps [simp]: "entry_or z f None = z" "entry_or z f (Some v) = f v"
  by (simp_all add: entry_or_def)

lemma entries_del_absent: "k \<notin> fst ` set es \<Longrightarrow> entries_del k es = es"
  by (auto simp: entries_del_def filter_id_conv)

lemma sum_entries_put:
  "sorted_wrt (<) (map fst es) \<Longrightarrow>
   sum_list (map (\<lambda>(k, v). f k v) (entries_put k v es)) + entry_or 0 (f k) (map_of es k) =
   sum_list (map (\<lambda>(k, v). f k v) es) + f k v" for f :: "'k::linorder \<Rightarrow> 'v \<Rightarrow> nat"
proof (induction es)
  case (Cons e es)
  have "fst e > k \<Longrightarrow> map_of es k = None"
    using Cons.prems by (auto simp: map_of_eq_None_iff dest: less_trans)
  with Cons show ?case by (cases e) (auto simp: not_less)
qed simp

lemma sum_entries_del:
  "sorted_wrt (<) (map fst es) \<Longrightarrow>
   sum_list (map (\<lambda>(k, v). f k v) (entries_del k es)) + entry_or 0 (f k) (map_of es k) =
   sum_list (map (\<lambda>(k, v). f k v) es)" for f :: "'k::linorder \<Rightarrow> 'v \<Rightarrow> nat"
proof (induction es)
  case (Cons e es)
  have "fst e = k \<Longrightarrow> k \<notin> fst ` set es" using Cons.prems by auto
  with Cons show ?case
    by (cases e) (auto simp: entries_del_absent)
qed simp

lemma mdb_sum_put:
  "mdb_sum f (mdb_put db k v) + entry_or 0 (f k) (mdb_get db k) = mdb_sum f db + f k v"
  using sum_entries_put [OF sorted_mdb_entries [of db], of f k v]
  by (simp add: mdb_sum_def mdb_get_entries)

lemma mdb_sum_remove:
  "mdb_sum f (mdb_remove db k) + entry_or 0 (f k) (mdb_get db k) = mdb_sum f db"
  using sum_entries_del [OF sorted_mdb_entries [of db], of f k]
  by (simp add: mdb_sum_def mdb_get_entries)

lemma mdb_sum_empty [simp]: "mdb_sum f mdb_empty = 0"
  by (simp add: mdb_sum_def)

lemma mdb_sum_ge: "mdb_get db k = Some v \<Longrightarrow> f k v \<le> mdb_sum f db"
  using mdb_sum_remove [of f db k] by simp

lemma mdb_sum_ge2:
  "mdb_get db k = Some v \<Longrightarrow> mdb_get db l = Some w \<Longrightarrow> k \<noteq> l \<Longrightarrow> f k v + f l w \<le> mdb_sum f db"
  using mdb_sum_remove [of f db k] mdb_sum_ge [of "mdb_remove db k" l w f] by simp

lemma sum_entries_except:
  "distinct (map fst es) \<Longrightarrow> sum_list (map (\<lambda>(k, v). f k v) es) =
     sum_list (map (\<lambda>(k, v). if k = a then 0 else f k v) es) + entry_or (0::nat) (f a) (map_of es a)"
proof (induction es)
  case (Cons e es)
  have "map_of es a = None" if "fst e = a" using Cons.prems that by (simp add: map_of_eq_None_iff)
  then show ?case using Cons by (cases e; cases "fst e = a") simp_all
qed simp

lemma mdb_sum_except:
  "mdb_sum f db = mdb_sum (\<lambda>k v. if k = a then 0 else f k v) db + entry_or 0 (f a) (mdb_get db a)"
  unfolding mdb_sum_def mdb_get_entries by (rule sum_entries_except) simp

lemma xor_entries_put:
  "sorted_wrt (<) (map fst es) \<Longrightarrow>
   foldr (\<lambda>(k, v) acc. f k v XOR acc) (entries_put k v es) 0 =
   foldr (\<lambda>(k, v) acc. f k v XOR acc) es 0 XOR entry_or 0 (f k) (map_of es k) XOR f k v"
  for f :: "'k::linorder \<Rightarrow> 'v \<Rightarrow> 'a::len word"
proof (induction es)
  case (Cons e es)
  have "fst e > k \<Longrightarrow> map_of es k = None"
    using Cons.prems by (auto simp: map_of_eq_None_iff dest: less_trans)
  with Cons show ?case by (cases e) (auto simp: not_less ac_simps)
qed simp

lemma xor_entries_del:
  "sorted_wrt (<) (map fst es) \<Longrightarrow>
   foldr (\<lambda>(k, v) acc. f k v XOR acc) (entries_del k es) 0 =
   foldr (\<lambda>(k, v) acc. f k v XOR acc) es 0 XOR entry_or 0 (f k) (map_of es k)"
  for f :: "'k::linorder \<Rightarrow> 'v \<Rightarrow> 'a::len word"
proof (induction es)
  case (Cons e es)
  have "fst e = k \<Longrightarrow> k \<notin> fst ` set es" using Cons.prems by auto
  with Cons show ?case
    by (cases e) (auto simp: entries_del_absent ac_simps)
qed simp

lemma mdb_xor_put:
  "mdb_xor f (mdb_put db k v) = mdb_xor f db XOR entry_or 0 (f k) (mdb_get db k) XOR f k v"
  using xor_entries_put [OF sorted_mdb_entries [of db], of f k v]
  by (simp add: mdb_xor_def mdb_get_entries)

lemma mdb_xor_remove:
  "mdb_xor f (mdb_remove db k) = mdb_xor f db XOR entry_or 0 (f k) (mdb_get db k)"
  using xor_entries_del [OF sorted_mdb_entries [of db], of f k]
  by (simp add: mdb_xor_def mdb_get_entries)

lemma mdb_xor_empty [simp]: "mdb_xor f mdb_empty = 0"
  by (simp add: mdb_xor_def)

end
