(* ===== verification/Store.thy ===== *)
theory Store
  imports Blocks Mdb
begin

text \<open>
  The block store of \<open>paper/secure.cpp\<close>: twelve databases of the embedded store, one record
  field each, and the operations of class \<open>block_store\<close> on them. Values are stored as the
  bytes the code stores; reading decodes them. A block's value is its serialisation
  followed by the 32-byte hash of its successor, zero while it has none.

  An operation that updates the store returns the new store; one whose assertions can fail
  returns in \<open>exec\<close>. A \<open>bool\<close> result with an output argument (\<open>account_get\<close>,
  \<open>pending_get\<close>, \<open>checksum_get\<close>, true for "not found") is an option, and a null
  \<open>unique_ptr\<close> is \<open>None\<close>. \<open>store_simps\<close> collects what each read returns after each
  update.
\<close>

section \<open>Records\<close>

record account_info =
  info_head :: block_hash
  info_rep_block :: block_hash
  info_balance :: amount
  info_modified :: uint64

record receivable =
  rcv_source :: account
  rcv_amount :: amount
  rcv_destination :: account

definition account_info_serialize :: "account_info \<Rightarrow> byte list" where
  "account_info_serialize i =
     bytes256 (info_head i) @ bytes256 (info_rep_block i) @ bytes128 (info_balance i) @
     bytes64 (info_modified i)"

definition account_info_deserialize :: "byte list \<Rightarrow> (account_info \<times> byte list) option" where
  "account_info_deserialize s = do {
     (h, s) \<leftarrow> read_uint256 s;
     (r, s) \<leftarrow> read_uint256 s;
     (b, s) \<leftarrow> read_uint128 s;
     (m, s) \<leftarrow> read_uint64 s;
     Some (\<lparr>info_head = h, info_rep_block = r, info_balance = b, info_modified = m\<rparr>, s)
   }"

text \<open>\<open>val ()\<close> is the object's memory; the class is packed, so its members lie in order.\<close>

definition account_info_val :: "account_info \<Rightarrow> byte list" where
  "account_info_val i =
     bytes256 (info_head i) @ bytes256 (info_rep_block i) @ bytes128 (info_balance i) @
     le_store 8 (info_modified i)"

definition account_info_of_val :: "byte list \<Rightarrow> account_info exec" where
  "account_info_of_val v = do {
     assert (length v = 88);
     Some \<lparr>info_head = number256 (take 32 v), info_rep_block = number256 (take 32 (drop 32 v)),
       info_balance = number128 (take 16 (drop 64 v)), info_modified = le_load (drop 80 v)\<rparr>
   }"

definition account_info_default :: account_info where
  "account_info_default = \<lparr>info_head = 0, info_rep_block = 0, info_balance = 0, info_modified = 0\<rparr>"

definition receivable_serialize :: "receivable \<Rightarrow> byte list" where
  "receivable_serialize v =
     bytes256 (rcv_source v) @ bytes128 (rcv_amount v) @ bytes256 (rcv_destination v)"

definition receivable_deserialize :: "byte list \<Rightarrow> (receivable \<times> byte list) option" where
  "receivable_deserialize s = do {
     (q, s) \<leftarrow> read_uint256 s;
     (a, s) \<leftarrow> read_uint128 s;
     (d, s) \<leftarrow> read_uint256 s;
     Some (\<lparr>rcv_source = q, rcv_amount = a, rcv_destination = d\<rparr>, s)
   }"

definition receivable_val :: "receivable \<Rightarrow> byte list" where
  "receivable_val v =
     bytes256 (rcv_source v) @ bytes128 (rcv_amount v) @ bytes256 (rcv_destination v)"

definition receivable_of_val :: "byte list \<Rightarrow> receivable exec" where
  "receivable_of_val v = do {
     assert (length v = 80);
     Some \<lparr>rcv_source = number256 (take 32 v), rcv_amount = number128 (take 16 (drop 32 v)),
       rcv_destination = number256 (drop 48 v)\<rparr>
   }"

interpretation info_codec: codec account_info_serialize account_info_deserialize 88
proof
  fix s r and i :: account_info
  show "account_info_deserialize s = Some (i, r) \<longleftrightarrow> s = account_info_serialize i @ r"
    by (cases i) (auto simp: account_info_deserialize_def account_info_serialize_def
        bind_eq_Some_conv codec_simps)
  show "account_info_deserialize s = None \<longleftrightarrow> length s < 88"
    by (auto simp: account_info_deserialize_def reads_cond)
qed (simp add: account_info_serialize_def)

interpretation receivable_codec: codec receivable_serialize receivable_deserialize 80
proof
  fix s r and v :: receivable
  show "receivable_deserialize s = Some (v, r) \<longleftrightarrow> s = receivable_serialize v @ r"
    by (cases v) (auto simp: receivable_deserialize_def receivable_serialize_def
        bind_eq_Some_conv codec_simps)
  show "receivable_deserialize s = None \<longleftrightarrow> length s < 80"
    by (auto simp: receivable_deserialize_def reads_cond)
qed (simp add: receivable_serialize_def)

lemma account_info_val_eq: "account_info_val i = account_info_serialize i"
  by (simp add: account_info_val_def account_info_serialize_def bytes64_def)

lemma receivable_val_eq: "receivable_val v = receivable_serialize v"
  by (simp add: receivable_val_def receivable_serialize_def)

type_synonym table = "(uint256_union, byte list) mdb"
type_synonym small_table = "(uint64, byte list) mdb"

record block_store =
  frontiers :: table
  accounts :: table
  send_blocks :: table
  receive_blocks :: table
  open_blocks :: table
  change_blocks :: table
  pending :: table
  representation :: table
  unchecked_blocks :: table
  unsynced_blocks :: table
  stack :: small_table
  checksums :: small_table

section \<open>Iterators\<close>

text \<open>
  An iterator is its current entry; the past-the-end iterator, whose \<open>current\<close> is clear, is
  \<open>None\<close>. Incrementing that is \<open>None\<close> in \<open>exec\<close>: the null iterator has no cursor, which is
  an assertion failure, and no other past-the-end iterator is incremented by the program.
\<close>

type_synonym 'k store_iterator = "('k \<times> byte list) option"

definition iterator_begin :: "('k::linorder, byte list) mdb \<Rightarrow> 'k store_iterator" where
  "iterator_begin db = mdb_first db"

definition iterator_at :: "('k::linorder, byte list) mdb \<Rightarrow> 'k \<Rightarrow> 'k store_iterator" where
  "iterator_at db k = mdb_set_range db k"

definition iterator_next :: "('k::linorder, byte list) mdb \<Rightarrow> 'k store_iterator \<Rightarrow> 'k store_iterator exec" where
  "iterator_next db i = (case i of None \<Rightarrow> None | Some e \<Rightarrow> Some (mdb_next db (fst e)))"

definition iterator_end :: "'k store_iterator" where
  "iterator_end = None"

lemma iterator_at_key:
  "(iterator_at db k \<noteq> iterator_end \<and> fst (the (iterator_at db k)) = k) \<longleftrightarrow> mdb_get db k \<noteq> None"
proof -
  have "(find (\<lambda>e. k \<le> fst e) es \<noteq> None \<and> fst (the (find (\<lambda>e. k \<le> fst e) es)) = k) \<longleftrightarrow>
      map_of es k \<noteq> None"
    if "sorted_wrt (<) (map fst es)" for es :: "('a \<times> byte list) list"
    using that
  proof (induction es)
    case (Cons e es)
    have "k < fst e \<Longrightarrow> map_of es k = None"
      using Cons.prems by (auto simp: map_of_eq_None_iff dest: less_trans)
    with Cons show ?case by (auto simp: not_le)
  qed simp
  then show ?thesis
    by (simp add: iterator_at_def iterator_end_def mdb_set_range_def mdb_get_entries)
qed

section \<open>Blocks\<close>

text \<open>The handles of the four block databases, and of the other ones \<open>clear\<close> may be given.\<close>

datatype dbi =
    Db_send | Db_receive | Db_open | Db_change
  | Db_frontiers | Db_accounts | Db_pending | Db_representation | Db_unchecked | Db_unsynced
  | Db_stack | Db_checksum

fun clear :: "block_store \<Rightarrow> dbi \<Rightarrow> block_store" where
  "clear s Db_send = s\<lparr>send_blocks := mdb_empty\<rparr>"
| "clear s Db_receive = s\<lparr>receive_blocks := mdb_empty\<rparr>"
| "clear s Db_open = s\<lparr>open_blocks := mdb_empty\<rparr>"
| "clear s Db_change = s\<lparr>change_blocks := mdb_empty\<rparr>"
| "clear s Db_frontiers = s\<lparr>frontiers := mdb_empty\<rparr>"
| "clear s Db_accounts = s\<lparr>accounts := mdb_empty\<rparr>"
| "clear s Db_pending = s\<lparr>pending := mdb_empty\<rparr>"
| "clear s Db_representation = s\<lparr>representation := mdb_empty\<rparr>"
| "clear s Db_unchecked = s\<lparr>unchecked_blocks := mdb_empty\<rparr>"
| "clear s Db_unsynced = s\<lparr>unsynced_blocks := mdb_empty\<rparr>"
| "clear s Db_stack = s\<lparr>stack := mdb_empty\<rparr>"
| "clear s Db_checksum = s\<lparr>checksums := mdb_empty\<rparr>"

fun block_database :: "block_type \<Rightarrow> dbi exec" where
  "block_database Bt_send = Some Db_send"
| "block_database Bt_receive = Some Db_receive"
| "block_database Bt_open = Some Db_open"
| "block_database Bt_change = Some Db_change"
| "block_database _ = None"

text \<open>Only handles that \<open>block_database\<close> returns are ever passed; any other is \<open>None\<close>.\<close>

fun block_put_raw :: "block_store \<Rightarrow> dbi \<Rightarrow> block_hash \<Rightarrow> byte list \<Rightarrow> block_store exec" where
  "block_put_raw s Db_send h v = Some (s\<lparr>send_blocks := mdb_put (send_blocks s) h v\<rparr>)"
| "block_put_raw s Db_receive h v = Some (s\<lparr>receive_blocks := mdb_put (receive_blocks s) h v\<rparr>)"
| "block_put_raw s Db_open h v = Some (s\<lparr>open_blocks := mdb_put (open_blocks s) h v\<rparr>)"
| "block_put_raw s Db_change h v = Some (s\<lparr>change_blocks := mdb_put (change_blocks s) h v\<rparr>)"
| "block_put_raw s _ h v = None"

definition block_get_raw :: "block_store \<Rightarrow> block_hash \<Rightarrow> byte list \<times> block_type option" where
  "block_get_raw s h =
     (case mdb_get (send_blocks s) h of Some v \<Rightarrow> (v, Some Bt_send) | None \<Rightarrow>
      case mdb_get (receive_blocks s) h of Some v \<Rightarrow> (v, Some Bt_receive) | None \<Rightarrow>
      case mdb_get (open_blocks s) h of Some v \<Rightarrow> (v, Some Bt_open) | None \<Rightarrow>
      case mdb_get (change_blocks s) h of Some v \<Rightarrow> (v, Some Bt_change) | None \<Rightarrow> ([], None))"

definition block_successor :: "block_store \<Rightarrow> block_hash \<Rightarrow> block_hash exec" where
  "block_successor s h =
     (let (value, t) = block_get_raw s h in
      if value \<noteq> [] then do {
        assert (32 \<le> length value);
        (result, _) \<leftarrow> read_uint256 (drop (length value - 32) value);
        Some result
      } else Some 0)"

definition fill_value :: "platform \<Rightarrow> block_store \<Rightarrow> block \<Rightarrow> block_store exec" where
  "fill_value P s b =
     (let hash = block_hash P b; (value, t) = block_get_raw s (previous b) in do {
        assert (value \<noteq> []);
        assert (32 \<le> length value);
        let data = take (length value - 32) value @ bytes256 hash;
        t \<leftarrow> t;
        db \<leftarrow> block_database t;
        block_put_raw s db (previous b) data
      })"

fun set_predecessor :: "platform \<Rightarrow> block_store \<Rightarrow> block \<Rightarrow> block_store exec" where
  "set_predecessor P s (Send b) = fill_value P s (Send b)"
| "set_predecessor P s (Receive b) = fill_value P s (Receive b)"
| "set_predecessor P s (Open b) = Some s"
| "set_predecessor P s (Change b) = fill_value P s (Change b)"

definition block_put :: "platform \<Rightarrow> block_store \<Rightarrow> block_hash \<Rightarrow> block \<Rightarrow> block_store exec" where
  "block_put P s h b = do {
     db \<leftarrow> block_database (type_of b);
     s \<leftarrow> block_put_raw s db h (serialize b @ bytes256 0);
     s \<leftarrow> set_predecessor P s b;
     if uint256_is_zero (previous b) then Some s
     else do {
       successor \<leftarrow> block_successor s (previous b);
       assert (successor = h);
       Some s
     }
   }"

definition block_get :: "block_store \<Rightarrow> block_hash \<Rightarrow> block option exec" where
  "block_get s h =
     (let (value, t) = block_get_raw s h in
      if value \<noteq> [] then do {
        (b, _) \<leftarrow> deserialize_block_typed value t;
        Some (Some b)
      } else Some None)"

definition block_del :: "block_store \<Rightarrow> block_hash \<Rightarrow> block_store exec" where
  "block_del s h =
     (case mdb_del (send_blocks s) h of Some db \<Rightarrow> Some (s\<lparr>send_blocks := db\<rparr>) | None \<Rightarrow>
      case mdb_del (receive_blocks s) h of Some db \<Rightarrow> Some (s\<lparr>receive_blocks := db\<rparr>) | None \<Rightarrow>
      case mdb_del (open_blocks s) h of Some db \<Rightarrow> Some (s\<lparr>open_blocks := db\<rparr>) | None \<Rightarrow>
      case mdb_del (change_blocks s) h of Some db \<Rightarrow> Some (s\<lparr>change_blocks := db\<rparr>) | None \<Rightarrow> None)"

definition block_exists :: "block_store \<Rightarrow> block_hash \<Rightarrow> bool" where
  "block_exists s h \<longleftrightarrow>
     mdb_get (send_blocks s) h \<noteq> None \<or> mdb_get (receive_blocks s) h \<noteq> None \<or>
     mdb_get (open_blocks s) h \<noteq> None \<or> mdb_get (change_blocks s) h \<noteq> None"

section \<open>Accounts, frontiers, pending entries and weights\<close>

definition account_put :: "block_store \<Rightarrow> account \<Rightarrow> account_info \<Rightarrow> block_store" where
  "account_put s a i = s\<lparr>accounts := mdb_put (accounts s) a (account_info_val i)\<rparr>"

definition account_get :: "block_store \<Rightarrow> account \<Rightarrow> account_info option exec" where
  "account_get s a =
     (case mdb_get (accounts s) a of
        None \<Rightarrow> Some None
      | Some value \<Rightarrow> do { (i, _) \<leftarrow> account_info_deserialize value; Some (Some i) })"

definition account_del :: "block_store \<Rightarrow> account \<Rightarrow> block_store exec" where
  "account_del s a = map_option (\<lambda>db. s\<lparr>accounts := db\<rparr>) (mdb_del (accounts s) a)"

definition latest_begin_at :: "block_store \<Rightarrow> account \<Rightarrow> account store_iterator" where
  "latest_begin_at s a = iterator_at (accounts s) a"

definition account_exists :: "block_store \<Rightarrow> account \<Rightarrow> bool" where
  "account_exists s a \<longleftrightarrow>
     (let iterator = latest_begin_at s a
      in iterator \<noteq> iterator_end \<and> fst (the iterator) = a)"

definition latest_begin :: "block_store \<Rightarrow> account store_iterator" where
  "latest_begin s = iterator_begin (accounts s)"

definition latest_end :: "account store_iterator" where
  "latest_end = iterator_end"

definition frontier_put :: "block_store \<Rightarrow> block_hash \<Rightarrow> account \<Rightarrow> block_store" where
  "frontier_put s h a = s\<lparr>frontiers := mdb_put (frontiers s) h (bytes256 a)\<rparr>"

definition frontier_get :: "block_store \<Rightarrow> block_hash \<Rightarrow> account exec" where
  "frontier_get s h =
     (case mdb_get (frontiers s) h of
        None \<Rightarrow> Some 0
      | Some value \<Rightarrow> do { assert (length value = 32); Some (number256 value) })"

definition frontier_del :: "block_store \<Rightarrow> block_hash \<Rightarrow> block_store exec" where
  "frontier_del s h = map_option (\<lambda>db. s\<lparr>frontiers := db\<rparr>) (mdb_del (frontiers s) h)"

definition pending_put :: "block_store \<Rightarrow> block_hash \<Rightarrow> receivable \<Rightarrow> block_store" where
  "pending_put s h v = s\<lparr>pending := mdb_put (pending s) h (receivable_val v)\<rparr>"

definition pending_del :: "block_store \<Rightarrow> block_hash \<Rightarrow> block_store exec" where
  "pending_del s h = map_option (\<lambda>db. s\<lparr>pending := db\<rparr>) (mdb_del (pending s) h)"

definition pending_get :: "block_store \<Rightarrow> block_hash \<Rightarrow> receivable option exec" where
  "pending_get s h =
     (case mdb_get (pending s) h of
        None \<Rightarrow> Some None
      | Some value \<Rightarrow> do {
          assert (length value = 32 + 16 + 32);
          (source_l, r) \<leftarrow> read_uint256 value;
          (amount_l, r) \<leftarrow> read_uint128 r;
          (destination_l, r) \<leftarrow> read_uint256 r;
          Some (Some \<lparr>rcv_source = source_l, rcv_amount = amount_l,
            rcv_destination = destination_l\<rparr>)
        })"

definition pending_begin :: "block_store \<Rightarrow> block_hash store_iterator" where
  "pending_begin s = iterator_begin (pending s)"

definition pending_begin_at :: "block_store \<Rightarrow> block_hash \<Rightarrow> block_hash store_iterator" where
  "pending_begin_at s h = iterator_at (pending s) h"

definition pending_exists :: "block_store \<Rightarrow> block_hash \<Rightarrow> bool" where
  "pending_exists s h \<longleftrightarrow>
     (let iterator = pending_begin_at s h
      in iterator \<noteq> iterator_end \<and> fst (the iterator) = h)"

definition representation_get :: "block_store \<Rightarrow> account \<Rightarrow> uint128_t exec" where
  "representation_get s a =
     (case mdb_get (representation s) a of
        None \<Rightarrow> Some 0
      | Some value \<Rightarrow> do { (rep, _) \<leftarrow> read_uint128 value; Some rep })"

definition representation_put :: "block_store \<Rightarrow> account \<Rightarrow> uint128_t \<Rightarrow> block_store" where
  "representation_put s a w = s\<lparr>representation := mdb_put (representation s) a (bytes128 w)\<rparr>"

section \<open>Unchecked and unsynced blocks, the bootstrap stack, checksums\<close>

definition unchecked_put :: "block_store \<Rightarrow> block_hash \<Rightarrow> block \<Rightarrow> block_store" where
  "unchecked_put s h b = s\<lparr>unchecked_blocks := mdb_put (unchecked_blocks s) h (serialize_block b)\<rparr>"

definition unchecked_get :: "block_store \<Rightarrow> block_hash \<Rightarrow> block option exec" where
  "unchecked_get s h =
     (case mdb_get (unchecked_blocks s) h of
        None \<Rightarrow> Some None
      | Some value \<Rightarrow> do { (b, _) \<leftarrow> deserialize_block value; Some (Some b) })"

definition unchecked_del :: "block_store \<Rightarrow> block_hash \<Rightarrow> block_store" where
  "unchecked_del s h = s\<lparr>unchecked_blocks := mdb_remove (unchecked_blocks s) h\<rparr>"

definition unsynced_put :: "block_store \<Rightarrow> block_hash \<Rightarrow> block_store" where
  "unsynced_put s h = s\<lparr>unsynced_blocks := mdb_put (unsynced_blocks s) h []\<rparr>"

definition unsynced_del :: "block_store \<Rightarrow> block_hash \<Rightarrow> block_store exec" where
  "unsynced_del s h = map_option (\<lambda>db. s\<lparr>unsynced_blocks := db\<rparr>) (mdb_del (unsynced_blocks s) h)"

definition unchecked_begin :: "block_store \<Rightarrow> block_hash store_iterator" where
  "unchecked_begin s = iterator_begin (unchecked_blocks s)"

definition unsynced_begin :: "block_store \<Rightarrow> block_hash store_iterator" where
  "unsynced_begin s = iterator_begin (unsynced_blocks s)"

definition unsynced_begin_at :: "block_store \<Rightarrow> block_hash \<Rightarrow> block_hash store_iterator" where
  "unsynced_begin_at s h = iterator_at (unsynced_blocks s) h"

definition unsynced_exists :: "block_store \<Rightarrow> block_hash \<Rightarrow> bool" where
  "unsynced_exists s h \<longleftrightarrow>
     (let iterator = unsynced_begin_at s h
      in iterator \<noteq> iterator_end \<and> fst (the iterator) = h)"

definition stack_push :: "block_store \<Rightarrow> uint64 \<Rightarrow> block_hash \<Rightarrow> block_store" where
  "stack_push s k h = s\<lparr>stack := mdb_put (stack s) k (bytes256 h)\<rparr>"

definition stack_pop :: "block_store \<Rightarrow> uint64 \<Rightarrow> (block_hash \<times> block_store) exec" where
  "stack_pop s k = do {
     value \<leftarrow> mdb_get (stack s) k;
     assert (length value = 32);
     db \<leftarrow> mdb_del (stack s) k;
     Some (number256 value, s\<lparr>stack := db\<rparr>)
   }"

definition checksum_put :: "block_store \<Rightarrow> uint64 \<Rightarrow> byte \<Rightarrow> checksum \<Rightarrow> block_store exec" where
  "checksum_put s prefix mask_a h = do {
     assert (prefix AND 0xff = 0);
     let key = prefix OR ucast mask_a;
     Some (s\<lparr>checksums := mdb_put (checksums s) key (bytes256 h)\<rparr>)
   }"

definition checksum_get :: "block_store \<Rightarrow> uint64 \<Rightarrow> byte \<Rightarrow> checksum option exec" where
  "checksum_get s prefix mask_a = do {
     assert (prefix AND 0xff = 0);
     let key = prefix OR ucast mask_a;
     case mdb_get (checksums s) key of
       None \<Rightarrow> Some None
     | Some value \<Rightarrow> do { (h, _) \<leftarrow> read_uint256 value; Some (Some h) }
   }"

definition checksum_del :: "block_store \<Rightarrow> uint64 \<Rightarrow> byte \<Rightarrow> block_store exec" where
  "checksum_del s prefix mask_a = do {
     assert (prefix AND 0xff = 0);
     let key = prefix OR ucast mask_a;
     map_option (\<lambda>db. s\<lparr>checksums := db\<rparr>) (mdb_del (checksums s) key)
   }"

section \<open>Opening a store\<close>

text \<open>
  The constructor opens the twelve databases, creating those that do not exist, and then
  stores the zero checksum; \<open>s\<close> is what the files hold. The files of a new store are
  \<open>empty_store\<close>.
\<close>

definition empty_store :: block_store where
  "empty_store =
     \<lparr>frontiers = mdb_empty, accounts = mdb_empty, send_blocks = mdb_empty,
      receive_blocks = mdb_empty, open_blocks = mdb_empty, change_blocks = mdb_empty,
      pending = mdb_empty, representation = mdb_empty, unchecked_blocks = mdb_empty,
      unsynced_blocks = mdb_empty, stack = mdb_empty, checksums = mdb_empty\<rparr>"

definition block_store_open :: "block_store \<Rightarrow> block_store exec" where
  "block_store_open s = checksum_put s 0 0 0"

end
