(* ===== verification/Store_View.thy ===== *)
theory Store_View
  imports Store
begin

text \<open>
  What the bytes of a block store stand for. \<open>store_ok\<close> says that every value has the length
  its reader expects and that no hash is in two block databases; \<open>view\<close> is the typed content
  of such a store. The lemmas of this theory show that each operation of \<open>Store\<close> reads and
  updates the view as its name says: on a well-formed store no assertion on stored bytes
  fails, and well-formedness is kept. They are collected in \<open>store_simps\<close>.
\<close>

section \<open>Well-formed stores\<close>

definition sized :: "('k::linorder, byte list) mdb \<Rightarrow> nat \<Rightarrow> bool" where
  "sized db n = list_all (\<lambda>e. length (snd e) = n) (mdb_entries db)"

definition disjoint_keys :: "('k::linorder, 'v) mdb \<Rightarrow> ('k, 'v) mdb \<Rightarrow> bool" where
  "disjoint_keys d e = list_all (\<lambda>x. mdb_get e (fst x) = None) (mdb_entries d)"

definition blocks_ok :: "block_store \<Rightarrow> bool" where
  "blocks_ok s \<longleftrightarrow>
     sized (send_blocks s) (send_block_size + 32) \<and>
     sized (receive_blocks s) (receive_block_size + 32) \<and>
     sized (open_blocks s) (open_block_size + 32) \<and>
     sized (change_blocks s) (change_block_size + 32) \<and>
     disjoint_keys (send_blocks s) (receive_blocks s) \<and>
     disjoint_keys (send_blocks s) (open_blocks s) \<and>
     disjoint_keys (send_blocks s) (change_blocks s) \<and>
     disjoint_keys (receive_blocks s) (open_blocks s) \<and>
     disjoint_keys (receive_blocks s) (change_blocks s) \<and>
     disjoint_keys (open_blocks s) (change_blocks s)"

definition store_ok :: "block_store \<Rightarrow> bool" where
  "store_ok s \<longleftrightarrow>
     blocks_ok s \<and> sized (accounts s) 88 \<and> sized (frontiers s) 32 \<and> sized (pending s) 80 \<and>
     sized (representation s) 16 \<and> sized (checksums s) 32"

lemma sized_iff: "sized db n \<longleftrightarrow> (\<forall>k v. mdb_get db k = Some v \<longrightarrow> length v = n)"
  by (auto simp: sized_def mdb_get_iff list_all_iff)

lemma sizedD: "sized db n \<Longrightarrow> mdb_get db k = Some v \<Longrightarrow> length v = n"
  by (simp add: sized_iff)

lemma disjoint_keys_iff:
  "disjoint_keys d e \<longleftrightarrow> (\<forall>k. mdb_get d k = None \<or> mdb_get e k = None)"
proof -
  have "(\<forall>x\<in>set (mdb_entries d). mdb_get e (fst x) = None) \<longleftrightarrow>
      (\<forall>k v. mdb_get d k = Some v \<longrightarrow> mdb_get e k = None)"
    by (auto simp: mdb_get_iff [of d])
  then have "disjoint_keys d e \<longleftrightarrow> (\<forall>k v. mdb_get d k = Some v \<longrightarrow> mdb_get e k = None)"
    by (simp only: disjoint_keys_def list_all_iff)
  then show ?thesis by (metis not_Some_eq)
qed

lemma sized_simps [simp]:
  "sized mdb_empty n"
  "length v = n \<Longrightarrow> sized db n \<Longrightarrow> sized (mdb_put db k v) n"
  "sized db n \<Longrightarrow> sized (mdb_remove db k) n"
  by (auto simp: sized_iff)

lemma store_ok_sized:
  assumes "store_ok s"
  shows "sized (accounts s) 88" "sized (frontiers s) 32" "sized (pending s) 80"
    "sized (representation s) 16" "sized (checksums s) 32" "blocks_ok s"
  using assms by (simp_all add: store_ok_def)

context codec
begin

lemma sized_dec: "sized db width \<Longrightarrow> mdb_get db k = Some v \<Longrightarrow> \<exists>a. dec v = Some (a, [])"
  using dec_width sizedD by blast

lemma read_sized:
  "sized db width \<Longrightarrow>
   (case mdb_get db k of None \<Rightarrow> Some None | Some v \<Rightarrow> do { (a, _) \<leftarrow> dec v; Some (Some a) }) =
   Some (map_option (\<lambda>v. fst (the (dec v))) (mdb_get db k))"
  by (auto split: option.split dest!: sized_dec)

end

section \<open>The typed content\<close>

record ledger_view =
  blocks :: "block_hash \<Rightarrow> block option"
  infos :: "(account, account_info) mdb"
  heads :: "(block_hash, account) mdb"
  receivables :: "(block_hash, receivable) mdb"
  weights :: "(account, uint128_t) mdb"
  check :: "checksum option"

definition blocks_of :: "block_store \<Rightarrow> block_hash \<Rightarrow> block option" where
  "blocks_of s h = (case block_get s h of None \<Rightarrow> None | Some r \<Rightarrow> r)"

definition check_of :: "block_store \<Rightarrow> checksum option" where
  "check_of s = map_option number256 (mdb_get (checksums s) 0)"

definition view :: "block_store \<Rightarrow> ledger_view" where
  "view s =
     \<lparr>blocks = blocks_of s,
      infos = mdb_map (\<lambda>v. fst (the (account_info_deserialize v))) (accounts s),
      heads = mdb_map number256 (frontiers s),
      receivables = mdb_map (\<lambda>v. fst (the (receivable_deserialize v))) (pending s),
      weights = mdb_map number128 (representation s),
      check = check_of s\<rparr>"

lemma block_get_frame [simp]:
  "block_get_raw (s\<lparr>accounts := x\<rparr>) h = block_get_raw s h"
  "block_get_raw (s\<lparr>frontiers := x\<rparr>) h = block_get_raw s h"
  "block_get_raw (s\<lparr>pending := x\<rparr>) h = block_get_raw s h"
  "block_get_raw (s\<lparr>representation := x\<rparr>) h = block_get_raw s h"
  "block_get_raw (s\<lparr>unchecked_blocks := x\<rparr>) h = block_get_raw s h"
  "block_get_raw (s\<lparr>unsynced_blocks := x\<rparr>) h = block_get_raw s h"
  "block_get_raw (s\<lparr>stack := y\<rparr>) h = block_get_raw s h"
  "block_get_raw (s\<lparr>checksums := y\<rparr>) h = block_get_raw s h"
  by (simp_all add: block_get_raw_def cong: option.case_cong)

lemma blocks_frame [simp]:
  "blocks_of (s\<lparr>accounts := x\<rparr>) = blocks_of s"
  "blocks_of (s\<lparr>frontiers := x\<rparr>) = blocks_of s"
  "blocks_of (s\<lparr>pending := x\<rparr>) = blocks_of s"
  "blocks_of (s\<lparr>representation := x\<rparr>) = blocks_of s"
  "blocks_of (s\<lparr>unchecked_blocks := x\<rparr>) = blocks_of s"
  "blocks_of (s\<lparr>unsynced_blocks := x\<rparr>) = blocks_of s"
  "blocks_of (s\<lparr>stack := y\<rparr>) = blocks_of s"
  "blocks_of (s\<lparr>checksums := y\<rparr>) = blocks_of s"
  by (simp_all add: blocks_of_def block_get_def fun_eq_iff)

lemma blocks_ok_frame [simp]:
  "blocks_ok (s\<lparr>accounts := x\<rparr>) = blocks_ok s"
  "blocks_ok (s\<lparr>frontiers := x\<rparr>) = blocks_ok s"
  "blocks_ok (s\<lparr>pending := x\<rparr>) = blocks_ok s"
  "blocks_ok (s\<lparr>representation := x\<rparr>) = blocks_ok s"
  "blocks_ok (s\<lparr>unchecked_blocks := x\<rparr>) = blocks_ok s"
  "blocks_ok (s\<lparr>unsynced_blocks := x\<rparr>) = blocks_ok s"
  "blocks_ok (s\<lparr>stack := y\<rparr>) = blocks_ok s"
  "blocks_ok (s\<lparr>checksums := y\<rparr>) = blocks_ok s"
  by (simp_all add: blocks_ok_def)

lemma check_frame [simp]:
  "check_of (s\<lparr>accounts := x\<rparr>) = check_of s"
  "check_of (s\<lparr>frontiers := x\<rparr>) = check_of s"
  "check_of (s\<lparr>pending := x\<rparr>) = check_of s"
  "check_of (s\<lparr>representation := x\<rparr>) = check_of s"
  "check_of (s\<lparr>unchecked_blocks := x\<rparr>) = check_of s"
  "check_of (s\<lparr>unsynced_blocks := x\<rparr>) = check_of s"
  "check_of (s\<lparr>stack := y\<rparr>) = check_of s"
  by (simp_all add: check_of_def)

section \<open>Accounts, frontiers, pending entries, weights and the checksum\<close>

lemma account_put_view [store_simps]:
  "view (account_put s a i) = (view s)\<lparr>infos := mdb_put (infos (view s)) a i\<rparr>"
  by (simp add: view_def account_put_def account_info_val_eq info_codec.dec_enc_exact)

lemma account_put_ok [store_simps]: "store_ok s \<Longrightarrow> store_ok (account_put s a i)"
  by (simp add: store_ok_def account_put_def account_info_val_eq info_codec.enc_length)

lemma account_get_view [store_simps]:
  "store_ok s \<Longrightarrow> account_get s a = Some (mdb_get (infos (view s)) a)"
  using info_codec.read_sized [OF store_ok_sized(1)] by (simp add: account_get_def view_def)

lemma account_del_view [store_simps]:
  "account_del s a =
     (if mdb_get (infos (view s)) a = None then None
      else Some (s\<lparr>accounts := mdb_remove (accounts s) a\<rparr>))"
  by (auto simp: account_del_def view_def mdb_del_def split: option.splits)

lemma remove_account_view [store_simps]:
  "view (s\<lparr>accounts := mdb_remove (accounts s) a\<rparr>) = (view s)\<lparr>infos := mdb_remove (infos (view s)) a\<rparr>"
  "store_ok s \<Longrightarrow> store_ok (s\<lparr>accounts := mdb_remove (accounts s) a\<rparr>)"
  by (simp_all add: view_def store_ok_def)

lemma frontier_put_view [store_simps]:
  "view (frontier_put s h a) = (view s)\<lparr>heads := mdb_put (heads (view s)) h a\<rparr>"
  by (simp add: view_def frontier_put_def)

lemma frontier_put_ok [store_simps]: "store_ok s \<Longrightarrow> store_ok (frontier_put s h a)"
  by (simp add: store_ok_def frontier_put_def)

lemma frontier_get_view [store_simps]:
  "store_ok s \<Longrightarrow> frontier_get s h = Some (entry_or 0 (\<lambda>a. a) (mdb_get (heads (view s)) h))"
  using sizedD [OF store_ok_sized(2), of s h]
  by (simp add: frontier_get_def view_def split: option.split)

lemma frontier_del_view [store_simps]:
  "frontier_del s h =
     (if mdb_get (heads (view s)) h = None then None
      else Some (s\<lparr>frontiers := mdb_remove (frontiers s) h\<rparr>))"
  by (auto simp: frontier_del_def view_def mdb_del_def split: option.splits)

lemma remove_frontier_view [store_simps]:
  "view (s\<lparr>frontiers := mdb_remove (frontiers s) h\<rparr>) = (view s)\<lparr>heads := mdb_remove (heads (view s)) h\<rparr>"
  "store_ok s \<Longrightarrow> store_ok (s\<lparr>frontiers := mdb_remove (frontiers s) h\<rparr>)"
  by (simp_all add: view_def store_ok_def)

lemma pending_put_view [store_simps]:
  "view (pending_put s h r) = (view s)\<lparr>receivables := mdb_put (receivables (view s)) h r\<rparr>"
  by (simp add: view_def pending_put_def receivable_val_eq receivable_codec.dec_enc_exact)

lemma pending_put_ok [store_simps]: "store_ok s \<Longrightarrow> store_ok (pending_put s h r)"
  by (simp add: store_ok_def pending_put_def receivable_val_eq receivable_codec.enc_length)

lemma pending_get_view [store_simps]:
  assumes "store_ok s"
  shows "pending_get s h = Some (mdb_get (receivables (view s)) h)"
proof (cases "mdb_get (pending s) h")
  case (Some v)
  then have "length v = 80" by (rule sizedD [OF store_ok_sized(3) [OF assms]])
  with Some show ?thesis
    by (simp add: pending_get_def view_def receivable_deserialize_def reads_cond)
qed (simp add: pending_get_def view_def)

lemma pending_del_view [store_simps]:
  "pending_del s h =
     (if mdb_get (receivables (view s)) h = None then None
      else Some (s\<lparr>pending := mdb_remove (pending s) h\<rparr>))"
  by (auto simp: pending_del_def view_def mdb_del_def split: option.splits)

lemma remove_pending_view [store_simps]:
  "view (s\<lparr>pending := mdb_remove (pending s) h\<rparr>) =
     (view s)\<lparr>receivables := mdb_remove (receivables (view s)) h\<rparr>"
  "store_ok s \<Longrightarrow> store_ok (s\<lparr>pending := mdb_remove (pending s) h\<rparr>)"
  by (simp_all add: view_def store_ok_def)

lemma representation_put_view [store_simps]:
  "view (representation_put s a w) = (view s)\<lparr>weights := mdb_put (weights (view s)) a w\<rparr>"
  by (simp add: view_def representation_put_def)

lemma representation_put_ok [store_simps]: "store_ok s \<Longrightarrow> store_ok (representation_put s a w)"
  by (simp add: store_ok_def representation_put_def)

lemma representation_get_view [store_simps]:
  "store_ok s \<Longrightarrow> representation_get s a = Some (entry_or 0 (\<lambda>w. w) (mdb_get (weights (view s)) a))"
  using sizedD [OF store_ok_sized(4), of s a]
  by (simp add: representation_get_def view_def reads_cond split: option.split)

lemma checksum_view:
  "store_ok s \<Longrightarrow> checksum_get s 0 0 = Some (check (view s))"
  "\<exists>s'. checksum_put s 0 0 c = Some s' \<and> view s' = (view s)\<lparr>check := Some c\<rparr> \<and>
     (store_ok s \<longrightarrow> store_ok s')"
  using sizedD [OF store_ok_sized(5), of s 0]
  by (auto simp: checksum_get_def checksum_put_def view_def check_of_def store_ok_def reads_cond
      split: option.split)

section \<open>Blocks\<close>

text \<open>
  \<open>stored s h\<close> is the block under a hash with the successor its value ends in. Every other
  database is the same in two stores that are \<open>same_tables\<close>.
\<close>

definition stored :: "block_store \<Rightarrow> block_hash \<Rightarrow> (block \<times> block_hash) option" where
  "stored s h =
     (let (v, t) = block_get_raw s h in
      if v = [] then None
      else Some (fst (the (deserialize_block_typed v t)), number256 (drop (length v - 32) v)))"

definition same_tables :: "block_store \<Rightarrow> block_store \<Rightarrow> bool" where
  "same_tables s s' \<longleftrightarrow>
     accounts s' = accounts s \<and> frontiers s' = frontiers s \<and> pending s' = pending s \<and>
     representation s' = representation s \<and> unchecked_blocks s' = unchecked_blocks s \<and>
     unsynced_blocks s' = unsynced_blocks s \<and> stack s' = stack s \<and> checksums s' = checksums s"

lemma same_tables_trans: "same_tables r s \<Longrightarrow> same_tables s t \<Longrightarrow> same_tables r t"
  by (simp add: same_tables_def)

lemma serialize_length: "length (serialize b @ bytes256 n) =
    (case b of Send _ \<Rightarrow> send_block_size | Receive _ \<Rightarrow> receive_block_size
     | Open _ \<Rightarrow> open_block_size | Change _ \<Rightarrow> change_block_size) + 32"
  by (simp add: send_codec.enc_length receive_codec.enc_length open_codec.enc_length
      change_codec.enc_length split: block.split)

lemma bytes256_not_Nil [simp]: "bytes256 n \<noteq> []"
  by (metis u256.enc_length list.size(3) zero_neq_numeral)

context codec
begin

lemma split_value:
  assumes "sized db (width + 32)" and "mdb_get db k = Some v"
  shows "\<exists>a n. v = enc a @ bytes256 n"
proof -
  have len: "length v = width + 32" using assms by (rule sizedD)
  obtain a r where "v = enc a @ r" using len by (metis dec_long le_add1)
  moreover from this len have "length r = 32" by (simp add: enc_length)
  ultimately show ?thesis by (metis u256.dec_exact)
qed

end

lemma block_get_raw_value:
  assumes "blocks_ok s" and "block_get_raw s h = (v, t)" and "v \<noteq> []"
  shows "\<exists>b n. v = serialize b @ bytes256 n \<and> t = Some (type_of b)"
proof -
  note split = send_codec.split_value [of "send_blocks s" h v]
    receive_codec.split_value [of "receive_blocks s" h v]
    open_codec.split_value [of "open_blocks s" h v]
    change_codec.split_value [of "change_blocks s" h v]
  consider "mdb_get (send_blocks s) h = Some v" "t = Some Bt_send"
    | "mdb_get (receive_blocks s) h = Some v" "t = Some Bt_receive"
    | "mdb_get (open_blocks s) h = Some v" "t = Some Bt_open"
    | "mdb_get (change_blocks s) h = Some v" "t = Some Bt_change"
    using assms(2,3) by (auto simp: block_get_raw_def split: option.splits)
  then show ?thesis
    using assms(1) split serialize.simps type_of.simps unfolding blocks_ok_def by cases metis+
qed

lemma deserialize_value:
  "deserialize_block_typed (serialize b @ r) (Some (type_of b)) = Some (b, r)"
  by (simp add: deserialize_block_typed_Some)

lemma stored_raw:
  assumes "blocks_ok s"
  shows "block_get_raw s h =
    (case stored s h of
       None \<Rightarrow> ([], snd (block_get_raw s h))
     | Some (b, n) \<Rightarrow> (serialize b @ bytes256 n, Some (type_of b)))"
proof (cases "block_get_raw s h")
  case (Pair v t)
  show ?thesis
  proof (cases "v = []")
    case False
    then obtain b n where "v = serialize b @ bytes256 n" "t = Some (type_of b)"
      using block_get_raw_value [OF assms Pair] by blast
    then show ?thesis using Pair by (simp add: stored_def deserialize_value)
  qed (simp add: stored_def Pair)
qed

lemma block_get_stored:
  "blocks_ok s \<Longrightarrow> block_get s h = Some (map_option fst (stored s h))"
  using stored_raw [of s h]
  by (cases "stored s h") (auto simp: block_get_def deserialize_value split: prod.splits)

lemma block_successor_stored:
  "blocks_ok s \<Longrightarrow> block_successor s h = Some (entry_or 0 snd (stored s h))"
  using stored_raw [of s h]
  by (cases "stored s h") (auto simp: block_successor_def reads_cond split: prod.splits)

lemma block_exists_raw: "block_exists s h \<longleftrightarrow> snd (block_get_raw s h) \<noteq> None"
  by (auto simp: block_exists_def block_get_raw_def split: option.splits)

lemma block_get_raw_Nil:
  assumes "blocks_ok s" and "block_get_raw s h = ([], t)"
  shows "t = None"
proof -
  have "mdb_get db h \<noteq> Some []" if "sized db (n + 32)" for db :: table and n
    using that by (auto dest: sizedD)
  then show ?thesis using assms by (auto simp: block_get_raw_def blocks_ok_def split: option.splits)
qed

lemma block_exists_stored: "blocks_ok s \<Longrightarrow> block_exists s h \<longleftrightarrow> stored s h \<noteq> None"
  using stored_raw [of s h] block_get_raw_Nil [of s h]
  by (cases "stored s h") (auto simp: block_exists_raw prod_eq_iff)

lemma blocks_of_stored: "blocks_ok s \<Longrightarrow> blocks_of s = (\<lambda>h. map_option fst (stored s h))"
  by (simp add: blocks_of_def block_get_stored fun_eq_iff)

text \<open>Writing an entry under a hash that is new or holds a block of the same type.\<close>

definition put_entry :: "block_store \<Rightarrow> block_hash \<Rightarrow> block \<Rightarrow> block_hash \<Rightarrow> block_store exec" where
  "put_entry s h b n = do {
     db \<leftarrow> block_database (type_of b);
     block_put_raw s db h (serialize b @ bytes256 n)
   }"

lemma disjoint_keys_put:
  "disjoint_keys d e \<Longrightarrow> mdb_get e k = None \<Longrightarrow> disjoint_keys (mdb_put d k v) e"
  "disjoint_keys d e \<Longrightarrow> mdb_get d k = None \<Longrightarrow> disjoint_keys d (mdb_put e k v)"
  by (auto simp: disjoint_keys_iff)

lemma raw_type_tables:
  assumes "blocks_ok s" and "snd (block_get_raw s h) \<in> {None, Some t}"
  shows "t \<noteq> Bt_send \<Longrightarrow> mdb_get (send_blocks s) h = None"
    and "t \<noteq> Bt_receive \<Longrightarrow> mdb_get (receive_blocks s) h = None"
    and "t \<noteq> Bt_open \<Longrightarrow> mdb_get (open_blocks s) h = None"
    and "t \<noteq> Bt_change \<Longrightarrow> mdb_get (change_blocks s) h = None"
proof -
  have "mdb_get (send_blocks s) h = None \<or> mdb_get (receive_blocks s) h = None"
    "mdb_get (send_blocks s) h = None \<or> mdb_get (open_blocks s) h = None"
    "mdb_get (send_blocks s) h = None \<or> mdb_get (change_blocks s) h = None"
    "mdb_get (receive_blocks s) h = None \<or> mdb_get (open_blocks s) h = None"
    "mdb_get (receive_blocks s) h = None \<or> mdb_get (change_blocks s) h = None"
    "mdb_get (open_blocks s) h = None \<or> mdb_get (change_blocks s) h = None"
    using assms(1) by (simp_all add: blocks_ok_def disjoint_keys_iff)
  with assms(2) show "t \<noteq> Bt_send \<Longrightarrow> mdb_get (send_blocks s) h = None"
    and "t \<noteq> Bt_receive \<Longrightarrow> mdb_get (receive_blocks s) h = None"
    and "t \<noteq> Bt_open \<Longrightarrow> mdb_get (open_blocks s) h = None"
    and "t \<noteq> Bt_change \<Longrightarrow> mdb_get (change_blocks s) h = None"
    by (cases "mdb_get (send_blocks s) h"; cases "mdb_get (receive_blocks s) h";
        cases "mdb_get (open_blocks s) h"; cases "mdb_get (change_blocks s) h";
        force simp: block_get_raw_def)+
qed

lemma put_entry_raw:
  assumes "blocks_ok s" and "put_entry s h b n = Some s'"
    and "snd (block_get_raw s h) \<in> {None, Some (type_of b)}"
  shows "block_get_raw s' k =
    (if k = h then (serialize b @ bytes256 n, Some (type_of b)) else block_get_raw s k)"
  using assms(2) raw_type_tables [OF assms(1,3)]
  by (cases b; cases "k = h")
    (clarsimp simp: put_entry_def block_get_raw_def cong: option.case_cong)+

lemma put_entry_ok:
  assumes ok: "blocks_ok s" and put: "put_entry s h b n = Some s'"
    and raw: "snd (block_get_raw s h) \<in> {None, Some (type_of b)}"
  shows "blocks_ok s'"
  using put raw_type_tables [OF ok raw] ok serialize_length [of b n]
  by (cases b) (clarsimp simp: put_entry_def blocks_ok_def disjoint_keys_put)+

lemma put_entry_stored:
  assumes "blocks_ok s" and "stored s h = None \<or> type_of (fst (the (stored s h))) = type_of b"
  obtains s' where "put_entry s h b n = Some s'" and "blocks_ok s'" and "same_tables s s'"
    and "stored s' = (stored s)(h \<mapsto> (b, n))"
proof -
  have raw: "snd (block_get_raw s h) \<in> {None, Some (type_of b)}"
    using assms stored_raw [of s h] block_exists_stored [of s h]
    by (auto simp: block_exists_raw split: option.splits)
  obtain s' where s': "put_entry s h b n = Some s'" "same_tables s s'"
    by (cases b) (auto simp: put_entry_def same_tables_def)
  moreover have "stored s' = (stored s)(h \<mapsto> (b, n))"
    by (simp add: fun_eq_iff stored_def put_entry_raw [OF assms(1) s'(1) raw] deserialize_value)
  ultimately show ?thesis using that put_entry_ok [OF assms(1) s'(1) raw] by blast
qed

lemma fill_value_stored:
  "blocks_ok s \<Longrightarrow> stored s (previous b) = Some (p, n) \<Longrightarrow>
   fill_value P s b = put_entry s (previous b) p (block_hash P b)"
  using stored_raw [of s "previous b"] by (simp add: fill_value_def put_entry_def)

fun is_Open :: "block \<Rightarrow> bool" where
  "is_Open (Open b) = True"
| "is_Open _ = False"

lemma set_predecessor_eq: "set_predecessor P s b = (if is_Open b then Some s else fill_value P s b)"
  by (cases b) simp_all

text \<open>What a store holds after the block \<open>b\<close> was put under its hash \<open>h\<close>.\<close>

definition link :: "(block_hash \<Rightarrow> (block \<times> block_hash) option) \<Rightarrow> block_hash \<Rightarrow> block \<Rightarrow>
    block_hash \<Rightarrow> (block \<times> block_hash) option" where
  "link m h b =
     (if is_Open b then m(h \<mapsto> (b, 0))
      else m(h \<mapsto> (b, 0), previous b \<mapsto> (fst (the (m (previous b))), h)))"

lemma block_put_stored:
  assumes ok: "blocks_ok s" and new: "stored s h = None" and hash: "block_hash P b = h"
    and prev: "is_Open b \<or> stored s (previous b) \<noteq> None"
  obtains s' where "block_put P s h b = Some s'" and "blocks_ok s'" and "same_tables s s'"
    and "stored s' = link (stored s) h b"
proof -
  obtain t where t: "put_entry s h b 0 = Some t" "blocks_ok t" "same_tables s t"
    "stored t = (stored s)(h \<mapsto> (b, 0))"
    using put_entry_stored [OF ok, of h b 0] new by blast
  have put: "block_put P s h b = do {
      s \<leftarrow> set_predecessor P t b;
      if uint256_is_zero (previous b) then Some s
      else do { successor \<leftarrow> block_successor s (previous b); assert (successor = h); Some s } }"
    using t(1) by (auto simp: block_put_def put_entry_def bind_eq_Some_conv)
  show ?thesis
  proof (cases "is_Open b")
    case True
    then have "previous b = 0" by (cases b) simp_all
    with True put t show ?thesis
      by (intro that [of t]) (simp_all add: set_predecessor_eq link_def uint256_is_zero_eq)
  next
    case False
    then obtain p n where p: "stored s (previous b) = Some (p, n)" using prev by auto
    have tp: "stored t (previous b) = Some (p, n)" using p t(4) new by auto
    then obtain s' where s': "put_entry t (previous b) p h = Some s'" "blocks_ok s'"
      "same_tables t s'" "stored s' = (stored t)(previous b \<mapsto> (p, h))"
      using put_entry_stored [OF t(2), of "previous b" p h] by auto
    have "block_successor s' (previous b) = Some h"
      using s' by (simp add: block_successor_stored)
    with s' put False t(2) tp hash have "block_put P s h b = Some s'"
      by (simp add: set_predecessor_eq fill_value_stored)
    with s' t p False show ?thesis
      by (intro that [of s']) (auto simp: link_def elim: same_tables_trans)
  qed
qed

lemma same_tables_ok: "same_tables s s' \<Longrightarrow> blocks_ok s' \<Longrightarrow> store_ok s \<Longrightarrow> store_ok s'"
  by (simp add: store_ok_def same_tables_def)

lemma same_tables_view: "same_tables s s' \<Longrightarrow> view s' = (view s)\<lparr>blocks := blocks_of s'\<rparr>"
  by (simp add: view_def same_tables_def check_of_def)

lemma block_put_view:
  assumes "store_ok s" and "blocks (view s) h = None" and "block_hash P b = h"
    and "is_Open b \<or> blocks (view s) (previous b) \<noteq> None"
  obtains s' where "block_put P s h b = Some s'" and "store_ok s'"
    and "view s' = (view s)\<lparr>blocks := (blocks (view s))(h \<mapsto> b)\<rparr>"
    and "stored s' = link (stored s) h b"
proof -
  have ok: "blocks_ok s" using assms(1) by (simp add: store_ok_def)
  note st = blocks_of_stored [OF ok]
  have new: "stored s h = None" and prev: "is_Open b \<or> stored s (previous b) \<noteq> None"
    using assms(2,4) by (auto simp: view_def st)
  obtain s' where s': "block_put P s h b = Some s'" "blocks_ok s'" "same_tables s s'"
    "stored s' = link (stored s) h b"
    using block_put_stored [OF ok new assms(3) prev] by blast
  have "blocks_of s' = (blocks_of s)(h \<mapsto> b)"
    using prev new by (auto simp: st blocks_of_stored [OF s'(2)] s'(4) link_def fun_eq_iff)
  then show ?thesis
    using s' same_tables_view [OF s'(3)] same_tables_ok [OF s'(3,2) assms(1)]
    by (intro that [of s']) (simp_all add: view_def)
qed

lemma disjoint_keys_remove:
  "disjoint_keys d e \<Longrightarrow> disjoint_keys (mdb_remove d k) e"
  "disjoint_keys d e \<Longrightarrow> disjoint_keys d (mdb_remove e k)"
  by (auto simp: disjoint_keys_iff)

lemmas block_del_defs = block_del_def mdb_del_def block_get_raw_def blocks_ok_def same_tables_def
  disjoint_keys_remove

lemma block_del_raw:
  assumes "blocks_ok s" and "stored s h \<noteq> None"
  obtains s' where "block_del s h = Some s'" and "blocks_ok s'" and "same_tables s s'"
    and "\<And>k. block_get_raw s' k = (if k = h then ([], None) else block_get_raw s k)"
proof -
  obtain t where t: "snd (block_get_raw s h) = Some t"
    using assms block_exists_stored [of s h] by (auto simp: block_exists_raw)
  note tables = raw_type_tables [OF assms(1), of h t]
  consider "t = Bt_send" "mdb_get (send_blocks s) h \<noteq> None"
    | "t = Bt_receive" "mdb_get (receive_blocks s) h \<noteq> None"
    | "t = Bt_open" "mdb_get (open_blocks s) h \<noteq> None"
    | "t = Bt_change" "mdb_get (change_blocks s) h \<noteq> None"
    using t by (auto simp: block_get_raw_def split: option.splits)
  then show ?thesis
  proof cases
    case 1
    with tables t have "mdb_get (receive_blocks s) h = None" "mdb_get (open_blocks s) h = None"
      "mdb_get (change_blocks s) h = None" by simp_all
    with 1(2) assms(1) show ?thesis
      by (intro that [of "s\<lparr>send_blocks := mdb_remove (send_blocks s) h\<rparr>"])
        (clarsimp simp: block_del_defs cong: option.case_cong)+
  next
    case 2
    with tables t have "mdb_get (send_blocks s) h = None" "mdb_get (open_blocks s) h = None"
      "mdb_get (change_blocks s) h = None" by simp_all
    with 2(2) assms(1) show ?thesis
      by (intro that [of "s\<lparr>receive_blocks := mdb_remove (receive_blocks s) h\<rparr>"])
        (clarsimp simp: block_del_defs cong: option.case_cong)+
  next
    case 3
    with tables t have "mdb_get (send_blocks s) h = None" "mdb_get (receive_blocks s) h = None"
      "mdb_get (change_blocks s) h = None" by simp_all
    with 3(2) assms(1) show ?thesis
      by (intro that [of "s\<lparr>open_blocks := mdb_remove (open_blocks s) h\<rparr>"])
        (clarsimp simp: block_del_defs cong: option.case_cong)+
  next
    case 4
    with tables t have "mdb_get (send_blocks s) h = None" "mdb_get (receive_blocks s) h = None"
      "mdb_get (open_blocks s) h = None" by simp_all
    with 4(2) assms(1) show ?thesis
      by (intro that [of "s\<lparr>change_blocks := mdb_remove (change_blocks s) h\<rparr>"])
        (clarsimp simp: block_del_defs cong: option.case_cong)+
  qed
qed

lemma block_del_view:
  assumes "store_ok s" and "blocks (view s) h \<noteq> None"
  obtains s' where "block_del s h = Some s'" and "store_ok s'"
    and "view s' = (view s)\<lparr>blocks := (blocks (view s))(h := None)\<rparr>"
    and "stored s' = (stored s)(h := None)"
proof -
  have ok: "blocks_ok s" using assms(1) by (simp add: store_ok_def)
  have "stored s h \<noteq> None" using assms(2) by (auto simp: view_def blocks_of_stored [OF ok])
  then obtain s' where s': "block_del s h = Some s'" "blocks_ok s'" "same_tables s s'"
    "\<And>k. block_get_raw s' k = (if k = h then ([], None) else block_get_raw s k)"
    using block_del_raw [OF ok] by blast
  moreover from this have st: "stored s' = (stored s)(h := None)"
    by (simp add: stored_def fun_eq_iff)
  moreover have "blocks_of s' = (blocks_of s)(h := None)"
    by (auto simp: blocks_of_stored ok s'(2) st)
  ultimately show ?thesis
    using same_tables_view [OF s'(3)] same_tables_ok [OF s'(3,2) assms(1)]
    by (intro that [of s']) (simp_all add: view_def)
qed

lemma block_get_view [store_simps]: "store_ok s \<Longrightarrow> block_get s h = Some (blocks (view s) h)"
  by (simp add: store_ok_def block_get_stored view_def blocks_of_def)

lemma block_exists_view [store_simps]:
  "store_ok s \<Longrightarrow> block_exists s h \<longleftrightarrow> blocks (view s) h \<noteq> None"
  by (simp add: store_ok_def block_exists_stored view_def blocks_of_stored)

lemma block_successor_view:
  "store_ok s \<Longrightarrow> block_successor s h = Some (entry_or 0 snd (stored s h))"
  by (simp add: store_ok_def block_successor_stored)

lemma stored_frame [store_simps]:
  "stored (account_put s a i) = stored s"
  "stored (frontier_put s h a) = stored s"
  "stored (pending_put s h r) = stored s"
  "stored (representation_put s a w) = stored s"
  "stored (s\<lparr>accounts := x\<rparr>) = stored s"
  "stored (s\<lparr>frontiers := x\<rparr>) = stored s"
  "stored (s\<lparr>pending := x\<rparr>) = stored s"
  "stored (s\<lparr>representation := x\<rparr>) = stored s"
  "stored (s\<lparr>checksums := y\<rparr>) = stored s"
  by (simp_all add: stored_def fun_eq_iff account_put_def frontier_put_def pending_put_def
      representation_put_def)

end
