(* ===== verification/Ledger.thy ===== *)
theory Ledger
  imports Store_View
begin

text \<open>
  The class \<open>ledger\<close> of \<open>paper/secure.cpp\<close>: the walks over stored chains, the processing of
  a new block, rolling blocks back, and the genesis. Every operation takes the store and
  returns the new one; \<open>now\<close> is the clock that \<open>store.now ()\<close> reads. A walk that does not
  end and an assertion that fails are both \<open>None\<close>.
\<close>

section \<open>The genesis account\<close>

definition paper_test_account :: account where
  "paper_test_account = 0xB0311EA55708D6A53C75CDBF88300259C6D018522FE3D4D0A242E431F9E8B6D0"

definition paper_beta_account :: account where
  "paper_beta_account = 0x9D3A5B66B478670455B241D6BAC3D3FE1CBB7E7B7EAA429FA036C2704C3DC0A4"

definition paper_live_account :: account where
  "paper_live_account = 0"

definition genesis_account :: "platform \<Rightarrow> account" where
  "genesis_account P =
     (if network P = paper_test_network then paper_test_account
      else if network P = paper_beta_network then paper_beta_account
      else paper_live_account)"

definition genesis_amount :: uint128_t where
  "genesis_amount = - 1"

section \<open>Balances and amounts\<close>

text \<open>
  \<open>balance_visitor\<close> and \<open>amount_visitor\<close> call each other. What a visitor does with one block
  is a definition of its own that takes the other visitor's \<open>compute\<close> as an argument; the
  loops are tied together in \<open>visitor_compute\<close>. The member \<open>result\<close> of a fresh
  \<open>amount_visitor\<close> is a Boost number and starts as zero.
\<close>

definition from_send :: "(block_hash \<Rightarrow> uint128_t exec) \<Rightarrow> block_store \<Rightarrow> block_hash \<Rightarrow> uint128_t exec" where
  "from_send balance_compute s h = do {
     source \<leftarrow> balance_compute h;
     source_block \<leftarrow> block_get s h;
     source_block \<leftarrow> source_block;
     source_prev \<leftarrow> balance_compute (previous source_block);
     Some 0
   }"

definition amount_visitor :: "(block_hash \<Rightarrow> uint128_t exec) \<Rightarrow> block_store \<Rightarrow> block \<Rightarrow> uint128_t exec" where
  "amount_visitor balance_compute s b =
     (case b of
        Send x \<Rightarrow> do {
          prev \<leftarrow> balance_compute (send_previous (send_hashables x));
          Some (prev - send_balance (send_hashables x))
        }
      | Receive x \<Rightarrow> from_send balance_compute s (receive_source (receive_hashables x))
      | Open x \<Rightarrow> from_send balance_compute s (open_source (open_hashables x))
      | Change x \<Rightarrow> None)"

definition balance_visitor ::
  "(block_hash \<Rightarrow> uint128_t exec) \<Rightarrow> block \<Rightarrow> uint128_t \<Rightarrow> (block_hash \<times> uint128_t) exec" where
  "balance_visitor amount_compute b result =
     (case b of
        Send x \<Rightarrow> Some (0, result + send_balance (send_hashables x))
      | Receive x \<Rightarrow> do {
          source \<leftarrow> amount_compute (receive_source (receive_hashables x));
          Some (receive_previous (receive_hashables x), result + source)
        }
      | Open x \<Rightarrow> do {
          source \<leftarrow> amount_compute (open_source (open_hashables x));
          Some (0, result + source)
        }
      | Change x \<Rightarrow> Some (change_previous (change_hashables x), result))"

lemma visitor_mono [partial_function_mono]:
  assumes "\<And>h. mono_option (\<lambda>f. g f h)"
  shows "mono_option (\<lambda>f. amount_visitor (g f) s b)"
    and "mono_option (\<lambda>f. balance_visitor (g f) b r)"
  unfolding amount_visitor_def balance_visitor_def from_send_def
  by (cases b; simp; intro partial_function_mono assms)+

datatype visit = Balance_visit block_hash uint128_t | Amount_visit block_hash

partial_function (option) visitor_compute :: "platform \<Rightarrow> block_store \<Rightarrow> visit \<Rightarrow> uint128_t exec" where
  "visitor_compute P s v =
     (case v of
        Balance_visit current result \<Rightarrow>
          if uint256_is_zero current then Some result
          else do {
            block \<leftarrow> block_get s current;
            block \<leftarrow> block;
            (current, result) \<leftarrow>
              balance_visitor (\<lambda>h. visitor_compute P s (Amount_visit h)) block result;
            visitor_compute P s (Balance_visit current result)
          }
      | Amount_visit h \<Rightarrow> do {
          block \<leftarrow> block_get s h;
          case block of
            Some block \<Rightarrow> amount_visitor (\<lambda>h. visitor_compute P s (Balance_visit h 0)) s block
          | None \<Rightarrow> if h = genesis_account P then Some genesis_amount else None
        })"

definition balance_compute :: "platform \<Rightarrow> block_store \<Rightarrow> block_hash \<Rightarrow> uint128_t exec" where
  "balance_compute P s h = visitor_compute P s (Balance_visit h 0)"

definition amount_compute :: "platform \<Rightarrow> block_store \<Rightarrow> block_hash \<Rightarrow> uint128_t exec" where
  "amount_compute P s h = visitor_compute P s (Amount_visit h)"

definition ledger_balance :: "platform \<Rightarrow> block_store \<Rightarrow> block_hash \<Rightarrow> uint128_t exec" where
  "ledger_balance P s h = balance_compute P s h"

definition ledger_amount :: "platform \<Rightarrow> block_store \<Rightarrow> block_hash \<Rightarrow> uint128_t exec" where
  "ledger_amount P s h = amount_compute P s h"

definition account_balance :: "block_store \<Rightarrow> account \<Rightarrow> uint128_t exec" where
  "account_balance s a = do {
     info \<leftarrow> account_get s a;
     Some (case info of None \<Rightarrow> 0 | Some i \<Rightarrow> info_balance i)
   }"

definition ledger_supply :: "platform \<Rightarrow> block_store \<Rightarrow> uint128_t exec" where
  "ledger_supply P s = do {
     unallocated \<leftarrow> account_balance s (genesis_account P);
     Some (genesis_amount - unallocated)
   }"

section \<open>Accounts, representatives and roots of blocks\<close>

text \<open>The account visitor keeps \<open>current\<close> and \<open>result\<close>.\<close>

definition account_visitor :: "block_store \<Rightarrow> block \<Rightarrow> block_hash \<times> account \<Rightarrow> (block_hash \<times> account) exec" where
  "account_visitor s b st =
     (case b of
        Send x \<Rightarrow> Some (send_previous (send_hashables x), snd st)
      | Receive x \<Rightarrow> do {
          block \<leftarrow> block_get s (receive_source (receive_hashables x));
          case block of
            Some (Send y) \<Rightarrow> Some (fst st, send_destination (send_hashables y))
          | _ \<Rightarrow> None
        }
      | Open x \<Rightarrow> Some (fst st, open_account (open_hashables x))
      | Change x \<Rightarrow> Some (change_previous (change_hashables x), snd st))"

partial_function (option) account_compute :: "block_store \<Rightarrow> block_hash \<Rightarrow> account \<Rightarrow> account exec" where
  "account_compute s current result =
     (if \<not> uint256_is_zero result then Some result
      else do {
        block \<leftarrow> block_get s current;
        block \<leftarrow> block;
        (current, result) \<leftarrow> account_visitor s block (current, result);
        account_compute s current result
      })"

definition ledger_account :: "block_store \<Rightarrow> block_hash \<Rightarrow> account exec" where
  "ledger_account s h = account_compute s h 0"

partial_function (option) representative_compute ::
  "platform \<Rightarrow> block_store \<Rightarrow> block_hash \<Rightarrow> account exec" where
  "representative_compute P s h = do {
     block \<leftarrow> block_get s h;
     block \<leftarrow> block;
     case block of
       Send x \<Rightarrow> representative_compute P s (previous block)
     | Receive x \<Rightarrow> representative_compute P s (previous block)
     | Open x \<Rightarrow> Some (block_hash P block)
     | Change x \<Rightarrow> Some (block_hash P block)
   }"

definition representative_calculated :: "platform \<Rightarrow> block_store \<Rightarrow> block_hash \<Rightarrow> account exec" where
  "representative_calculated P s h = representative_compute P s h"

definition ledger_representative :: "platform \<Rightarrow> block_store \<Rightarrow> block_hash \<Rightarrow> account exec" where
  "ledger_representative P s h = do {
     result \<leftarrow> representative_calculated P s h;
     assert (uint256_is_zero result \<or> block_exists s result);
     Some result
   }"

definition root_visitor :: "block_store \<Rightarrow> block \<Rightarrow> block_hash exec" where
  "root_visitor s b =
     (case b of
        Send x \<Rightarrow> Some (previous b)
      | Receive x \<Rightarrow> Some (previous b)
      | Open x \<Rightarrow> do {
          source \<leftarrow> block_get s (source b);
          Some (case source of Some (Send y) \<Rightarrow> send_destination (send_hashables y) | _ \<Rightarrow> 0)
        }
      | Change x \<Rightarrow> Some (previous b))"

section \<open>Heads, weights and the checksum\<close>

definition weight :: "block_store \<Rightarrow> account \<Rightarrow> uint128_t exec" where
  "weight s a = representation_get s a"

definition latest :: "block_store \<Rightarrow> account \<Rightarrow> block_hash exec" where
  "latest s a = do {
     info \<leftarrow> account_get s a;
     Some (case info of None \<Rightarrow> 0 | Some i \<Rightarrow> info_head i)
   }"

definition latest_root :: "block_store \<Rightarrow> account \<Rightarrow> block_hash exec" where
  "latest_root s a = do {
     info \<leftarrow> account_get s a;
     Some (case info of None \<Rightarrow> a | Some i \<Rightarrow> info_head i)
   }"

definition ledger_checksum :: "block_store \<Rightarrow> account \<Rightarrow> account \<Rightarrow> checksum exec" where
  "ledger_checksum s begin_a end_a = do {
     result \<leftarrow> checksum_get s 0 0;
     result
   }"

definition checksum_update :: "block_store \<Rightarrow> block_hash \<Rightarrow> block_store exec" where
  "checksum_update s h = do {
     value \<leftarrow> checksum_get s 0 0;
     value \<leftarrow> value;
     checksum_put s 0 0 (uint256_xor value h)
   }"

definition change_latest ::
  "uint64 \<Rightarrow> block_store \<Rightarrow> account \<Rightarrow> block_hash \<Rightarrow> block_hash \<Rightarrow> amount \<Rightarrow> block_store exec" where
  "change_latest now s a h rep_block balance = do {
     info \<leftarrow> account_get s a;
     s \<leftarrow> (case info of None \<Rightarrow> Some s | Some i \<Rightarrow> checksum_update s (info_head i));
     if \<not> uint256_is_zero h then do {
       let s = account_put s a \<lparr>info_head = h, info_rep_block = rep_block, info_balance = balance,
         info_modified = now\<rparr>;
       checksum_update s h
     } else account_del s a
   }"

definition move_representation ::
  "block_store \<Rightarrow> block_hash \<Rightarrow> block_hash \<Rightarrow> uint128_t \<Rightarrow> block_store exec" where
  "move_representation s source_a destination_a amount_a = do {
     source_block \<leftarrow> block_get s source_a;
     source_block \<leftarrow> source_block;
     let source_rep = representative source_block;
     assert (\<not> uint256_is_zero source_rep);
     destination_block \<leftarrow> block_get s destination_a;
     destination_block \<leftarrow> destination_block;
     let destination_rep = representative destination_block;
     assert (\<not> uint256_is_zero destination_rep);
     source_previous \<leftarrow> representation_get s source_rep;
     assert (amount_a \<le> source_previous);
     let s = representation_put s source_rep (source_previous - amount_a);
     destination_previous \<leftarrow> representation_get s destination_rep;
     Some (representation_put s destination_rep (destination_previous + amount_a))
   }"

definition successor :: "block_store \<Rightarrow> block_hash \<Rightarrow> block exec" where
  "successor s h = do {
     assert (block_exists s h);
     a \<leftarrow> ledger_account s h;
     l \<leftarrow> latest s a;
     assert (l \<noteq> h);
     n \<leftarrow> block_successor s h;
     assert (\<not> uint256_is_zero n);
     result \<leftarrow> block_get s n;
     result
   }"

text \<open>The hashes that \<open>dump_account_chain\<close> prints, in the order it prints them.\<close>

partial_function (option) dump_chain :: "block_store \<Rightarrow> block_hash \<Rightarrow> block_hash list exec" where
  "dump_chain s h =
     (if uint256_is_zero h then Some []
      else do {
        block \<leftarrow> block_get s h;
        block \<leftarrow> block;
        rest \<leftarrow> dump_chain s (previous block);
        Some (h # rest)
      })"

definition dump_account_chain :: "block_store \<Rightarrow> account \<Rightarrow> block_hash list exec" where
  "dump_account_chain s a = do { h \<leftarrow> latest s a; dump_chain s h }"

section \<open>Processing a block\<close>

datatype process_result =
    progress | bad_signature | old | overspend | fork | unreceivable | gap_previous | gap_source
  | not_receive_from_send | account_mismatch

text \<open>The account of a result is assigned only when the block was accepted.\<close>

record process_return =
  ret_code :: process_result
  ret_account :: "account option"

definition rejected :: "process_result \<Rightarrow> block_store \<Rightarrow> (process_return \<times> block_store) exec" where
  "rejected c s = Some (\<lparr>ret_code = c, ret_account = None\<rparr>, s)"

definition accepted :: "account \<Rightarrow> block_store \<Rightarrow> (process_return \<times> block_store) exec" where
  "accepted a s = Some (\<lparr>ret_code = progress, ret_account = Some a\<rparr>, s)"

definition process_change ::
  "platform \<Rightarrow> uint64 \<Rightarrow> block_store \<Rightarrow> change_block \<Rightarrow> (process_return \<times> block_store) exec" where
  "process_change P now s b =
     (let hash = block_hash P (Change b); previous_l = change_previous (change_hashables b) in
      if block_exists s hash then rejected old s
      else if \<not> block_exists s previous_l then rejected gap_previous s
      else do {
        account_l \<leftarrow> frontier_get s previous_l;
        if uint256_is_zero account_l then rejected fork s
        else do {
          info \<leftarrow> account_get s account_l;
          info \<leftarrow> info;
          assert (info_head info = previous_l);
          if validate_message P account_l hash (change_signature b) then rejected bad_signature s
          else do {
            s \<leftarrow> block_put P s hash (Change b);
            balance \<leftarrow> ledger_balance P s previous_l;
            s \<leftarrow> move_representation s (info_rep_block info) hash balance;
            s \<leftarrow> change_latest now s account_l hash hash (info_balance info);
            s \<leftarrow> frontier_del s previous_l;
            accepted account_l (frontier_put s hash account_l)
          }
        }
      })"

definition process_send ::
  "platform \<Rightarrow> uint64 \<Rightarrow> block_store \<Rightarrow> send_block \<Rightarrow> (process_return \<times> block_store) exec" where
  "process_send P now s b =
     (let hash = block_hash P (Send b); previous_l = send_previous (send_hashables b);
          balance = send_balance (send_hashables b) in
      if block_exists s hash then rejected old s
      else if \<not> block_exists s previous_l then rejected gap_previous s
      else do {
        account_l \<leftarrow> frontier_get s previous_l;
        if uint256_is_zero account_l then rejected fork s
        else if validate_message P account_l hash (send_signature b) then rejected bad_signature s
        else do {
          info \<leftarrow> account_get s account_l;
          info \<leftarrow> info;
          assert (info_head info = previous_l);
          if \<not> balance \<le> info_balance info then rejected overspend s
          else do {
            s \<leftarrow> block_put P s hash (Send b);
            s \<leftarrow> change_latest now s account_l hash (info_rep_block info) balance;
            let s = pending_put s hash \<lparr>rcv_source = account_l,
              rcv_amount = info_balance info - balance,
              rcv_destination = send_destination (send_hashables b)\<rparr>;
            s \<leftarrow> frontier_del s previous_l;
            accepted account_l (frontier_put s hash account_l)
          }
        }
      })"

definition process_receive ::
  "platform \<Rightarrow> uint64 \<Rightarrow> block_store \<Rightarrow> receive_block \<Rightarrow> (process_return \<times> block_store) exec" where
  "process_receive P now s b =
     (let hash = block_hash P (Receive b); previous_l = receive_previous (receive_hashables b);
          source_l = receive_source (receive_hashables b) in
      if block_exists s hash then rejected old s
      else if \<not> block_exists s source_l then rejected gap_source s
      else do {
        receivable \<leftarrow> pending_get s source_l;
        case receivable of
          None \<Rightarrow> rejected unreceivable s
        | Some receivable \<Rightarrow>
            if validate_message P (rcv_destination receivable) hash (receive_signature b)
            then rejected bad_signature s
            else do {
              info \<leftarrow> account_get s (rcv_destination receivable);
              case info of
                None \<Rightarrow> rejected gap_previous s
              | Some info \<Rightarrow>
                  if info_head info \<noteq> previous_l
                  then rejected (if block_exists s previous_l then fork else gap_previous) s
                  else do {
                    frontier \<leftarrow> frontier_get s previous_l;
                    assert (frontier = rcv_destination receivable);
                    let new_balance = info_balance info + rcv_amount receivable;
                    source_info \<leftarrow> account_get s (rcv_source receivable);
                    source_info \<leftarrow> source_info;
                    s \<leftarrow> pending_del s source_l;
                    s \<leftarrow> block_put P s hash (Receive b);
                    s \<leftarrow> change_latest now s (rcv_destination receivable) hash
                      (info_rep_block info) new_balance;
                    s \<leftarrow> move_representation s (info_rep_block source_info) (info_rep_block info)
                      (rcv_amount receivable);
                    s \<leftarrow> frontier_del s previous_l;
                    accepted (rcv_destination receivable)
                      (frontier_put s hash (rcv_destination receivable))
                  }
            }
      })"

definition process_open ::
  "platform \<Rightarrow> uint64 \<Rightarrow> block_store \<Rightarrow> open_block \<Rightarrow> (process_return \<times> block_store) exec" where
  "process_open P now s b =
     (let hash = block_hash P (Open b); source_l = open_source (open_hashables b) in
      if block_exists s hash then rejected old s
      else if \<not> block_exists s source_l then rejected gap_source s
      else do {
        receivable \<leftarrow> pending_get s source_l;
        case receivable of
          None \<Rightarrow> rejected unreceivable s
        | Some receivable \<Rightarrow>
            if rcv_destination receivable \<noteq> open_account (open_hashables b)
            then rejected account_mismatch s
            else if validate_message P (rcv_destination receivable) hash (open_signature b)
            then rejected bad_signature s
            else do {
              info \<leftarrow> account_get s (rcv_destination receivable);
              case info of
                Some info \<Rightarrow> rejected fork s
              | None \<Rightarrow> do {
                  source_info \<leftarrow> account_get s (rcv_source receivable);
                  source_info \<leftarrow> source_info;
                  s \<leftarrow> pending_del s source_l;
                  s \<leftarrow> block_put P s hash (Open b);
                  s \<leftarrow> change_latest now s (rcv_destination receivable) hash hash
                    (rcv_amount receivable);
                  s \<leftarrow> move_representation s (info_rep_block source_info) hash
                    (rcv_amount receivable);
                  accepted (rcv_destination receivable)
                    (frontier_put s hash (rcv_destination receivable))
                }
            }
      })"

definition process ::
  "platform \<Rightarrow> uint64 \<Rightarrow> block_store \<Rightarrow> block \<Rightarrow> (process_return \<times> block_store) exec" where
  "process P now s b =
     (case b of
        Send x \<Rightarrow> process_send P now s x
      | Receive x \<Rightarrow> process_receive P now s x
      | Open x \<Rightarrow> process_open P now s x
      | Change x \<Rightarrow> process_change P now s x)"

section \<open>Rolling back\<close>

text \<open>
  What \<open>rollback_visitor\<close> does with one block; \<open>account_get\<close> on an account that has no entry
  leaves the default-constructed \<open>info\<close>. A send block whose amount was received is first
  made pending again by rolling back the destination's chain, in the loop of
  \<open>rollback_compute\<close>; \<open>rollback_send\<close> is what follows that loop.
\<close>

definition info_or_default :: "account_info option \<Rightarrow> account_info" where
  "info_or_default i = (case i of None \<Rightarrow> account_info_default | Some i \<Rightarrow> i)"

definition rollback_send ::
  "platform \<Rightarrow> uint64 \<Rightarrow> block_store \<Rightarrow> send_block \<Rightarrow> receivable \<Rightarrow> block_store exec" where
  "rollback_send P now s b receivable =
     (let hash = block_hash P (Send b); previous_l = send_previous (send_hashables b) in do {
        info \<leftarrow> account_get s (rcv_source receivable);
        let info = info_or_default info;
        s \<leftarrow> pending_del s hash;
        balance \<leftarrow> ledger_balance P s previous_l;
        s \<leftarrow> change_latest now s (rcv_source receivable) previous_l (info_rep_block info) balance;
        s \<leftarrow> block_del s hash;
        s \<leftarrow> frontier_del s hash;
        Some (frontier_put s previous_l (rcv_source receivable))
      })"

definition rollback_receive ::
  "platform \<Rightarrow> uint64 \<Rightarrow> block_store \<Rightarrow> receive_block \<Rightarrow> block_store exec" where
  "rollback_receive P now s b =
     (let hash = block_hash P (Receive b); previous_l = receive_previous (receive_hashables b);
          source_l = receive_source (receive_hashables b) in do {
        representative_l \<leftarrow> ledger_representative P s source_l;
        amount_l \<leftarrow> ledger_amount P s source_l;
        destination_account \<leftarrow> ledger_account s hash;
        own \<leftarrow> ledger_representative P s hash;
        s \<leftarrow> move_representation s own representative_l amount_l;
        balance \<leftarrow> ledger_balance P s previous_l;
        s \<leftarrow> change_latest now s destination_account previous_l representative_l balance;
        s \<leftarrow> block_del s hash;
        source_account \<leftarrow> ledger_account s source_l;
        let s = pending_put s source_l \<lparr>rcv_source = source_account, rcv_amount = amount_l,
          rcv_destination = destination_account\<rparr>;
        s \<leftarrow> frontier_del s hash;
        Some (frontier_put s previous_l destination_account)
      })"

definition rollback_open ::
  "platform \<Rightarrow> uint64 \<Rightarrow> block_store \<Rightarrow> open_block \<Rightarrow> block_store exec" where
  "rollback_open P now s b =
     (let hash = block_hash P (Open b); source_l = open_source (open_hashables b) in do {
        representative_l \<leftarrow> ledger_representative P s source_l;
        amount_l \<leftarrow> ledger_amount P s source_l;
        destination_account \<leftarrow> ledger_account s hash;
        own \<leftarrow> ledger_representative P s hash;
        s \<leftarrow> move_representation s own representative_l amount_l;
        s \<leftarrow> change_latest now s destination_account 0 representative_l 0;
        s \<leftarrow> block_del s hash;
        source_account \<leftarrow> ledger_account s source_l;
        let s = pending_put s source_l \<lparr>rcv_source = source_account, rcv_amount = amount_l,
          rcv_destination = destination_account\<rparr>;
        frontier_del s hash
      })"

definition rollback_change ::
  "platform \<Rightarrow> uint64 \<Rightarrow> block_store \<Rightarrow> change_block \<Rightarrow> block_store exec" where
  "rollback_change P now s b =
     (let hash = block_hash P (Change b); previous_l = change_previous (change_hashables b) in do {
        representative_l \<leftarrow> ledger_representative P s previous_l;
        account_l \<leftarrow> ledger_account s previous_l;
        info \<leftarrow> account_get s account_l;
        let info = info_or_default info;
        balance \<leftarrow> ledger_balance P s previous_l;
        s \<leftarrow> move_representation s hash representative_l balance;
        s \<leftarrow> block_del s hash;
        s \<leftarrow> change_latest now s account_l previous_l representative_l (info_balance info);
        s \<leftarrow> frontier_del s hash;
        Some (frontier_put s previous_l account_l)
      })"

text \<open>
  \<open>Rollback h\<close> is \<open>ledger::rollback\<close>; \<open>Rollback_to a h\<close> is its loop once the account is known;
  \<open>Rollback_block b\<close> is the visitor, and \<open>Rollback_received b\<close> the loop of its
  \<open>send_block\<close>.
\<close>

datatype rollback_task =
    Rollback block_hash
  | Rollback_to account block_hash
  | Rollback_block block
  | Rollback_received send_block

partial_function (option) rollback_compute ::
  "rollback_task \<Rightarrow> platform \<Rightarrow> uint64 \<Rightarrow> block_store \<Rightarrow> block_store exec" where
  "rollback_compute task P now s =
     (case task of
        Rollback frontier_a \<Rightarrow> do {
          account_l \<leftarrow> ledger_account s frontier_a;
          rollback_compute (Rollback_to account_l frontier_a) P now s
        }
      | Rollback_to account_l frontier_a \<Rightarrow> do {
          info \<leftarrow> account_get s account_l;
          info \<leftarrow> info;
          block \<leftarrow> block_get s (info_head info);
          block \<leftarrow> block;
          s \<leftarrow> rollback_compute (Rollback_block block) P now s;
          if info_head info \<noteq> frontier_a
          then rollback_compute (Rollback_to account_l frontier_a) P now s else Some s
        }
      | Rollback_block block \<Rightarrow>
          (case block of
             Send b \<Rightarrow> rollback_compute (Rollback_received b) P now s
           | Receive b \<Rightarrow> rollback_receive P now s b
           | Open b \<Rightarrow> rollback_open P now s b
           | Change b \<Rightarrow> rollback_change P now s b)
      | Rollback_received b \<Rightarrow> do {
          receivable \<leftarrow> pending_get s (block_hash P (Send b));
          case receivable of
            None \<Rightarrow> do {
              l \<leftarrow> latest s (send_destination (send_hashables b));
              s \<leftarrow> rollback_compute (Rollback l) P now s;
              rollback_compute (Rollback_received b) P now s
            }
          | Some receivable \<Rightarrow> rollback_send P now s b receivable
        })"

definition rollback :: "platform \<Rightarrow> uint64 \<Rightarrow> block_store \<Rightarrow> block_hash \<Rightarrow> block_store exec" where
  "rollback P now s frontier_a = rollback_compute (Rollback frontier_a) P now s"

section \<open>Genesis\<close>

definition genesis_open :: "platform \<Rightarrow> open_block" where
  "genesis_open P =
     make_open_unsigned (genesis_account P) (genesis_account P) (genesis_account P)"

definition genesis_hash :: "platform \<Rightarrow> block_hash" where
  "genesis_hash P = block_hash P (Open (genesis_open P))"

definition genesis_initialize :: "platform \<Rightarrow> uint64 \<Rightarrow> block_store \<Rightarrow> block_store exec" where
  "genesis_initialize P now s =
     (let hash_l = genesis_hash P in do {
        assert (latest_begin s = latest_end);
        s \<leftarrow> block_put P s hash_l (Open (genesis_open P));
        let s = account_put s (genesis_account P) \<lparr>info_head = hash_l,
          info_rep_block = block_hash P (Open (genesis_open P)),
          info_balance = - 1, info_modified = now\<rparr>;
        let s = representation_put s (genesis_account P) (- 1);
        s \<leftarrow> checksum_put s 0 0 hash_l;
        Some (frontier_put s hash_l (genesis_account P))
      })"

end
