(* ===== verification/Wallet_Store.thy ===== *)
theory Wallet_Store
  imports Kdf Blocks_Json Ledger
begin

text \<open>
  The encrypted key store of a wallet (\<open>fan\<close>, \<open>wallet_value\<close>, \<open>wallet_store\<close> of
  \<open>paper/node.cpp\<close>, and the encryption of \<open>uint256_union\<close> in \<open>paper/utility.cpp\<close>).

  A \<open>wallet_store\<close> is its password \<open>fan\<close> and the content of its database; the values of the
  database are the 40 bytes of a \<open>wallet_value\<close>. Random bytes are arguments of the operations
  that draw them. A method that writes its result through a reference and returns an error
  flag returns an option here, \<open>None\<close> standing for the flag; the outer \<open>exec\<close> is the
  assertion failures.

  The second half gives the contract: a record of what a wallet holds (keys, password,
  representative, cached work) with one function per operation, and the simulation of the
  contract by the store under the documented behaviour of AES in counter mode.
\<close>

section \<open>Encryption\<close>

text \<open>\<open>owords [0]\<close>: the first half of the union.\<close>

definition oword0 :: "uint256_union \<Rightarrow> uint128_union" where
  "oword0 u = number128 (take 16 (bytes256 u))"

definition uint256_encrypt :: "platform \<Rightarrow> private_key \<Rightarrow> secret_key \<Rightarrow> uint128_union \<Rightarrow> uint256_union" where
  "uint256_encrypt P cleartext key iv =
     number256 (aes_ctr P (bytes256 key) (bytes128 iv) (bytes256 cleartext))"

definition uint256_prv :: "platform \<Rightarrow> uint256_union \<Rightarrow> secret_key \<Rightarrow> uint128_union \<Rightarrow> private_key" where
  "uint256_prv P u key_a iv =
     number256 (aes_ctr_dec P (bytes256 key_a) (bytes128 iv) (bytes256 u))"

section \<open>The fan\<close>

type_synonym fan = "uint256_union list"

fun fan_fill :: "uint256_union \<Rightarrow> uint256_union list \<Rightarrow> fan" where
  "fan_fill first [] = [first]"
| "fan_fill first (entry # randoms) = entry # fan_fill (uint256_xor first entry) randoms"

text \<open>The constructor, with the \<open>count_a\<close> random entries it draws.\<close>

definition make_fan :: "uint256_union \<Rightarrow> uint256_union list \<Rightarrow> fan" where
  "make_fan key randoms = fan_fill key randoms"

definition fan_value :: "fan \<Rightarrow> uint256_union" where
  "fan_value values = foldl uint256_xor 0 values"

fun fan_xor :: "fan \<Rightarrow> uint256_union \<Rightarrow> fan exec" where
  "fan_xor [] v = None"
| "fan_xor (first # values) v = Some (uint256_xor first v # values)"

definition fan_value_set :: "fan \<Rightarrow> uint256_union \<Rightarrow> fan exec" where
  "fan_value_set values value_a = do {
     let value_l = fan_value values;
     values \<leftarrow> fan_xor values value_l;
     fan_xor values value_a
   }"

section \<open>Entries\<close>

record wallet_value =
  value_key :: private_key
  value_work :: uint64

definition wallet_value_of_val :: "byte list \<Rightarrow> wallet_value exec" where
  "wallet_value_of_val val =
     (if length val = 40
      then Some \<lparr>value_key = number256 (take 32 val), value_work = le_load (take 8 (drop 32 val))\<rparr>
      else None)"

definition wallet_value_new :: "uint256_union \<Rightarrow> wallet_value" where
  "wallet_value_new value_a = \<lparr>value_key = value_a, value_work = 0\<rparr>"

definition wallet_value_val :: "wallet_value \<Rightarrow> byte list" where
  "wallet_value_val v = bytes256 (value_key v) @ bytes64 (value_work v)"

definition version_current :: uint256_union where
  "version_current = 1"

definition version_special :: uint256_union where
  "version_special = 0"

definition salt_special :: uint256_union where
  "salt_special = 1"

definition wallet_key_special :: uint256_union where
  "wallet_key_special = 2"

definition check_special :: uint256_union where
  "check_special = 3"

definition representative_special :: uint256_union where
  "representative_special = 4"

definition special_count :: uint256_union where
  "special_count = 5"

lemmas special_defs = version_special_def salt_special_def wallet_key_special_def
  check_special_def representative_special_def special_count_def

record wallet_store =
  password :: fan
  wallet_entries :: "(uint256_union, byte list) mdb"

definition entry_get_raw :: "wallet_store \<Rightarrow> public_key \<Rightarrow> wallet_value exec" where
  "entry_get_raw w pub_a =
     (case mdb_get (wallet_entries w) pub_a of
        Some value \<Rightarrow> wallet_value_of_val value
      | None \<Rightarrow> Some \<lparr>value_key = 0, value_work = 0\<rparr>)"

definition entry_put_raw :: "wallet_store \<Rightarrow> public_key \<Rightarrow> wallet_value \<Rightarrow> wallet_store" where
  "entry_put_raw w pub_a entry_a =
     w\<lparr>wallet_entries := mdb_put (wallet_entries w) pub_a (wallet_value_val entry_a)\<rparr>"

definition wallet_begin :: "wallet_store \<Rightarrow> uint256_union store_iterator" where
  "wallet_begin w = iterator_at (wallet_entries w) special_count"

definition wallet_find :: "wallet_store \<Rightarrow> uint256_union \<Rightarrow> uint256_union store_iterator" where
  "wallet_find w key =
     (case iterator_at (wallet_entries w) key of
        None \<Rightarrow> iterator_end
      | Some e \<Rightarrow> if fst e = key then Some e else iterator_end)"

definition wallet_exists :: "wallet_store \<Rightarrow> public_key \<Rightarrow> bool" where
  "wallet_exists w pub \<longleftrightarrow> wallet_find w pub \<noteq> iterator_end"

text \<open>The keys an iterator passes from a position on, to the end of the database.\<close>

definition wallet_accounts :: "wallet_store \<Rightarrow> account list" where
  "wallet_accounts w = filter (\<lambda>k. special_count \<le> k) (map fst (mdb_entries (wallet_entries w)))"

section \<open>Password and wallet key\<close>

definition wallet_check :: "wallet_store \<Rightarrow> uint256_union exec" where
  "wallet_check w = do { value \<leftarrow> entry_get_raw w check_special; Some (value_key value) }"

definition wallet_salt :: "wallet_store \<Rightarrow> uint256_union exec" where
  "wallet_salt w = do { value \<leftarrow> entry_get_raw w salt_special; Some (value_key value) }"

definition wallet_key :: "platform \<Rightarrow> wallet_store \<Rightarrow> uint256_union exec" where
  "wallet_key P w = do {
     value \<leftarrow> entry_get_raw w wallet_key_special;
     let password_l = fan_value (password w);
     salt \<leftarrow> wallet_salt w;
     Some (uint256_prv P (value_key value) password_l (oword0 salt))
   }"

definition valid_password :: "platform \<Rightarrow> wallet_store \<Rightarrow> bool exec" where
  "valid_password P w = do {
     wallet_key_l \<leftarrow> wallet_key P w;
     salt \<leftarrow> wallet_salt w;
     let check_l = uint256_encrypt P 0 wallet_key_l (oword0 salt);
     check \<leftarrow> wallet_check w;
     Some (check = check_l)
   }"

definition kdf_work :: "platform \<Rightarrow> uint64" where
  "kdf_work P = (if network P = paper_test_network then 1024 else 8 * 1024 * 1024)"

definition derive_key :: "platform \<Rightarrow> wallet_store \<Rightarrow> string \<Rightarrow> uint256_union exec" where
  "derive_key P w password_a = do {
     salt \<leftarrow> wallet_salt w;
     kdf_generate P (kdf_work P) password_a salt
   }"

definition enter_password :: "platform \<Rightarrow> wallet_store \<Rightarrow> string \<Rightarrow> wallet_store exec" where
  "enter_password P w password_a = do {
     key \<leftarrow> derive_key P w password_a;
     values \<leftarrow> fan_value_set (password w) key;
     Some (w\<lparr>password := values\<rparr>)
   }"

definition rekey :: "platform \<Rightarrow> wallet_store \<Rightarrow> string \<Rightarrow> (bool \<times> wallet_store) exec" where
  "rekey P w password_a = do {
     valid \<leftarrow> valid_password P w;
     if valid then do {
       password_new \<leftarrow> derive_key P w password_a;
       wallet_key_l \<leftarrow> wallet_key P w;
       let password_l = fan_value (password w);
       values \<leftarrow> fan_xor (password w) password_l;
       values \<leftarrow> fan_xor values password_new;
       let w = w\<lparr>password := values\<rparr>;
       salt \<leftarrow> wallet_salt w;
       let encrypted = uint256_encrypt P wallet_key_l password_new (oword0 salt);
       Some (False, entry_put_raw w wallet_key_special (wallet_value_new encrypted))
     } else Some (True, w)
   }"

section \<open>Construction\<close>

text \<open>
  Opening the database \<open>entries\<close>, which is empty for a new wallet; \<open>randoms\<close> fill the fan,
  and \<open>salt_l\<close> and \<open>wallet_key_l\<close> are the random salt and wallet key of a new wallet.
\<close>

definition wallet_store_open ::
  "platform \<Rightarrow> uint256_union list \<Rightarrow> uint256_union \<Rightarrow> uint256_union \<Rightarrow>
     (uint256_union, byte list) mdb \<Rightarrow> wallet_store exec" where
  "wallet_store_open P randoms salt_l wallet_key_l entries =
     (let w = \<lparr>password = make_fan 0 randoms, wallet_entries = entries\<rparr> in
      case mdb_get entries version_special of
        None \<Rightarrow> do {
          let w = entry_put_raw w version_special (wallet_value_new version_current);
          let w = entry_put_raw w salt_special (wallet_value_new salt_l);
          values \<leftarrow> fan_value_set (password w) 0;
          let w = w\<lparr>password := values\<rparr>;
          let encrypted = uint256_encrypt P wallet_key_l 0 (oword0 salt_l);
          let w = entry_put_raw w wallet_key_special (wallet_value_new encrypted);
          let check = uint256_encrypt P 0 wallet_key_l (oword0 salt_l);
          let w = entry_put_raw w check_special (wallet_value_new check);
          Some (entry_put_raw w representative_special (wallet_value_new (genesis_account P)))
        }
      | Some version_value \<Rightarrow> enter_password P w [])"

section \<open>Operations\<close>

definition wallet_representative :: "wallet_store \<Rightarrow> account exec" where
  "wallet_representative w = do { value \<leftarrow> entry_get_raw w representative_special; Some (value_key value) }"

definition representative_set :: "wallet_store \<Rightarrow> account \<Rightarrow> wallet_store" where
  "representative_set w representative_a =
     entry_put_raw w representative_special (wallet_value_new representative_a)"

definition is_representative :: "wallet_store \<Rightarrow> bool exec" where
  "is_representative w = do { r \<leftarrow> wallet_representative w; Some (wallet_exists w r) }"

definition wallet_insert :: "platform \<Rightarrow> wallet_store \<Rightarrow> private_key \<Rightarrow> (public_key \<times> wallet_store) exec" where
  "wallet_insert P w prv = do {
     let pub = ed25519_publickey P prv;
     key \<leftarrow> wallet_key P w;
     salt \<leftarrow> wallet_salt w;
     Some (pub, entry_put_raw w pub (wallet_value_new (uint256_encrypt P prv key (oword0 salt))))
   }"

definition wallet_erase :: "wallet_store \<Rightarrow> public_key \<Rightarrow> wallet_store exec" where
  "wallet_erase w pub = do {
     entries \<leftarrow> mdb_del (wallet_entries w) pub;
     Some (w\<lparr>wallet_entries := entries\<rparr>)
   }"

definition fetch :: "platform \<Rightarrow> wallet_store \<Rightarrow> public_key \<Rightarrow> private_key option exec" where
  "fetch P w pub = do {
     value \<leftarrow> entry_get_raw w pub;
     if \<not> uint256_is_zero (value_key value) then do {
       key \<leftarrow> wallet_key P w;
       salt \<leftarrow> wallet_salt w;
       let prv = uint256_prv P (value_key value) key (oword0 salt);
       let compare = ed25519_publickey P prv;
       Some (if pub \<noteq> compare then None else Some prv)
     } else Some None
   }"

definition work_get :: "wallet_store \<Rightarrow> public_key \<Rightarrow> uint64 option exec" where
  "work_get w pub_a = do {
     entry \<leftarrow> entry_get_raw w pub_a;
     Some (if \<not> uint256_is_zero (value_key entry) then Some (value_work entry) else None)
   }"

definition work_put :: "wallet_store \<Rightarrow> public_key \<Rightarrow> uint64 \<Rightarrow> wallet_store exec" where
  "work_put w pub_a work_a = do {
     entry \<leftarrow> entry_get_raw w pub_a;
     assert (\<not> uint256_is_zero (value_key entry));
     Some (entry_put_raw w pub_a (entry\<lparr>value_work := work_a\<rparr>))
   }"

text \<open>The loop of \<open>move\<close>: the error flag, this store and the other one.\<close>

fun move_keys ::
  "platform \<Rightarrow> public_key list \<Rightarrow> bool \<Rightarrow> wallet_store \<Rightarrow> wallet_store \<Rightarrow>
     (bool \<times> wallet_store \<times> wallet_store) exec" where
  "move_keys P [] result w other_a = Some (result, w, other_a)"
| "move_keys P (k # keys) result w other_a = do {
     fetched \<leftarrow> fetch P other_a k;
     let result = (result \<or> fetched = None);
     case fetched of
       Some prv \<Rightarrow>
         if \<not> result then do {
           (pub, w) \<leftarrow> wallet_insert P w prv;
           other_a \<leftarrow> wallet_erase other_a k;
           move_keys P keys result w other_a
         } else move_keys P keys result w other_a
     | None \<Rightarrow> move_keys P keys result w other_a
   }"

definition move ::
  "platform \<Rightarrow> wallet_store \<Rightarrow> wallet_store \<Rightarrow> public_key list \<Rightarrow>
     (bool \<times> wallet_store \<times> wallet_store) exec" where
  "move P w other_a keys = do {
     valid \<leftarrow> valid_password P w;
     assert valid;
     valid \<leftarrow> valid_password P other_a;
     assert valid;
     move_keys P keys False w other_a
   }"

text \<open>\<open>import\<close> is the same loop over the keys of the other store, in their order.\<close>

definition import_keys ::
  "platform \<Rightarrow> wallet_store \<Rightarrow> wallet_store \<Rightarrow> (bool \<times> wallet_store \<times> wallet_store) exec" where
  "import_keys P w other_a = do {
     valid \<leftarrow> valid_password P w;
     assert valid;
     valid \<leftarrow> valid_password P other_a;
     assert valid;
     move_keys P (wallet_accounts other_a) False w other_a
   }"

definition enter_initial_password :: "platform \<Rightarrow> wallet_store \<Rightarrow> wallet_store exec" where
  "enter_initial_password P w =
     (if uint256_is_zero (fan_value (password w)) then do {
        valid \<leftarrow> valid_password P w;
        if valid then do { (result, w) \<leftarrow> rekey P w []; Some w }
        else enter_password P w []
      } else Some w)"

section \<open>The JSON form\<close>

definition wallet_tree :: "platform \<Rightarrow> wallet_store \<Rightarrow> ptree exec" where
  "wallet_tree P w =
     foldl (\<lambda>tree (k, val). do {
       tree \<leftarrow> tree;
       value \<leftarrow> wallet_value_of_val val;
       Some (ptree_put tree (uint256_encode_hex P k) (uint256_encode_hex P (value_key value)))
     }) (Some []) (mdb_entries (wallet_entries w))"

definition wallet_serialize_json :: "platform \<Rightarrow> wallet_store \<Rightarrow> string exec" where
  "wallet_serialize_json P w = do { tree \<leftarrow> wallet_tree P w; Some (write_json P tree) }"

text \<open>
  The constructor from JSON, on the property tree that \<open>read_json\<close> returns: the loop over its
  children with the flag \<open>init_a\<close>, which every child assigns anew, and the checks after it.
\<close>

fun wallet_json_entries :: "platform \<Rightarrow> ptree \<Rightarrow> ptree \<Rightarrow> bool \<Rightarrow> wallet_store \<Rightarrow> (bool \<times> wallet_store) exec" where
  "wallet_json_entries P tree [] init_a w = Some (init_a, w)"
| "wallet_json_entries P tree ((name, data) # children) init_a w =
     (case uint256_decode_hex P name of
        Some key \<Rightarrow> do {
          text_l \<leftarrow> ptree_get tree name;
          case uint256_decode_hex P text_l of
            Some value \<Rightarrow>
              wallet_json_entries P tree children False (entry_put_raw w key (wallet_value_new value))
          | None \<Rightarrow> wallet_json_entries P tree children True w
        }
      | None \<Rightarrow> wallet_json_entries P tree children True w)"

definition wallet_store_json ::
  "platform \<Rightarrow> uint256_union list \<Rightarrow> (uint256_union, byte list) mdb \<Rightarrow> ptree \<Rightarrow>
     (bool \<times> wallet_store) exec" where
  "wallet_store_json P randoms entries tree = do {
     let w = \<lparr>password = make_fan 0 randoms, wallet_entries = entries\<rparr>;
     assert (mdb_get entries version_special = None);
     (init_a, w) \<leftarrow> wallet_json_entries P tree tree False w;
     let present = (\<lambda>k. mdb_get (wallet_entries w) k \<noteq> None);
     let init_a = (init_a \<or> \<not> present version_special \<or> \<not> present wallet_key_special \<or>
       \<not> present salt_special \<or> \<not> present check_special \<or> \<not> present representative_special);
     values \<leftarrow> fan_value_set (password w) 0;
     Some (init_a, w\<lparr>password := values\<rparr>)
   }"

text \<open>
  \<open>wallet::import\<close>: the JSON text is opened as a temporary store under a fresh name, unlocked
  with the password that is given, and its keys are taken over.
\<close>

definition wallet_import ::
  "platform \<Rightarrow> uint256_union list \<Rightarrow> wallet_store \<Rightarrow> ptree \<Rightarrow> string \<Rightarrow> (bool \<times> wallet_store) exec" where
  "wallet_import P randoms w tree password_a = do {
     (error, temp) \<leftarrow> wallet_store_json P randoms mdb_empty tree;
     if \<not> error then do {
       temp \<leftarrow> enter_password P temp password_a;
       valid \<leftarrow> valid_password P temp;
       if valid then do {
         (error, w, temp) \<leftarrow> import_keys P w temp;
         Some (error, w)
       } else Some (True, w)
     } else Some (True, w)
   }"

end
