(* ===== verification/Wallet_Spec.thy ===== *)
theory Wallet_Spec
  imports Wallet_Store
begin

text \<open>
  The contract of the encrypted key store and its simulation by \<open>Wallet_Store\<close>.

  A \<open>wallet_spec\<close> is what a wallet holds: the salt, the wallet key and the derived key that
  locks it, the key derived from the password that was entered last, the representative, and
  the private key and cached work of every account. \<open>spec_step\<close> has one case per operation; it
  is undefined where the operation is called outside its contract (a key inserted into a
  locked wallet, for a reserved number, or such that it encrypts to zero; an account that is
  not there erased or given work).
\<close>

section \<open>Counter mode\<close>

text \<open>
  What is documented of AES in counter mode: encryption and decryption are the exclusive or
  with a key stream that depends on the key and the initial counter only.
\<close>

definition ctr_mode :: "platform \<Rightarrow> (byte list \<Rightarrow> byte list \<Rightarrow> nat \<Rightarrow> byte list) \<Rightarrow> bool" where
  "ctr_mode P stream \<longleftrightarrow> (\<forall>key iv n. length (stream key iv n) = n) \<and>
     (\<forall>key iv m. aes_ctr P key iv m = map2 (XOR) m (stream key iv (length m)) \<and>
        aes_ctr_dec P key iv m = map2 (XOR) m (stream key iv (length m)))"

text \<open>The first 32 bytes of the key stream.\<close>

definition pad :: "platform \<Rightarrow> secret_key \<Rightarrow> uint128_union \<Rightarrow> uint256_union" where
  "pad P key iv = uint256_encrypt P 0 key iv"

lemma ctr_mode_pad:
  assumes "ctr_mode P stream"
  shows "uint256_encrypt P c key iv = c XOR pad P key iv"
    and "uint256_prv P c key iv = c XOR pad P key iv"
proof -
  let ?s = "stream (bytes256 key) (bytes128 iv) 32"
  have s: "bytes256 (number256 ?s) = ?s" using assms by (simp add: ctr_mode_def bytes_number)
  have xor: "number256 (map2 (XOR) (bytes256 x) ?s) = x XOR number256 ?s" for x
  proof -
    have "map2 (XOR) (bytes256 x) ?s = bytes256 (x XOR number256 ?s)" by (simp only: bytes_xor s)
    then show ?thesis by (simp only: number_bytes)
  qed
  have "uint256_encrypt P x key iv = x XOR number256 ?s" "uint256_prv P x key iv = x XOR number256 ?s" for x
    using assms xor [of x] by (simp_all add: uint256_encrypt_def uint256_prv_def ctr_mode_def del: bytes_zero)
  then show "uint256_encrypt P c key iv = c XOR pad P key iv"
    and "uint256_prv P c key iv = c XOR pad P key iv"
    by (simp_all add: pad_def)
qed

lemma xor_cancel [simp]: "(a XOR b) XOR b = a" "(b XOR a) XOR b = a" for a b :: "'a::len word"
  by (simp_all add: xor.assoc xor.commute xor.left_commute)

section \<open>The fan\<close>

lemma foldl_xor: "foldl uint256_xor v vs = v XOR foldl uint256_xor 0 vs"
proof (induction vs arbitrary: v)
  case (Cons a vs)
  show ?case using Cons [of "v XOR a"] Cons [of a] by (simp add: uint256_xor_eq xor.assoc)
qed simp

lemma fan_value_Cons [simp]: "fan_value (v # vs) = v XOR fan_value vs"
  using foldl_xor [of v vs] by (simp add: fan_value_def uint256_xor_eq)

lemma fan_value_Nil [simp]: "fan_value [] = 0"
  by (simp add: fan_value_def)

lemma fan_value_make [simp]: "fan_value (make_fan key randoms) = key"
  unfolding make_fan_def
proof (induction key randoms rule: fan_fill.induct)
  case (2 first entry randoms)
  then show ?case by (simp add: uint256_xor_eq xor.commute)
qed simp

lemma make_fan_not_Nil [simp]: "make_fan key randoms \<noteq> []"
  unfolding make_fan_def by (cases randoms) auto

text \<open>Clearing the first value of the old key and adding the new one.\<close>

lemma fan_replace:
  assumes "vs \<noteq> []"
  obtains us ws where "fan_xor vs (fan_value vs) = Some us" and "fan_xor us key = Some ws"
    and "ws \<noteq> []" and "fan_value ws = key"
  using assms by (cases vs) (auto simp: uint256_xor_eq xor.assoc xor.commute xor.left_commute)

lemma fan_value_set_Some:
  assumes "vs \<noteq> []"
  obtains ws where "fan_value_set vs key = Some ws" and "ws \<noteq> []" and "fan_value ws = key"
  by (rule fan_replace [OF assms, of key]) (auto simp: fan_value_set_def)

section \<open>The contract\<close>

record wallet_spec =
  spec_salt :: uint256_union
  spec_key :: uint256_union
  spec_password :: uint256_union
  spec_entered :: uint256_union
  spec_representative :: account
  spec_keys :: "account \<Rightarrow> private_key option"
  spec_work :: "account \<Rightarrow> uint64"

abbreviation spec_pad :: "platform \<Rightarrow> wallet_spec \<Rightarrow> uint256_union \<Rightarrow> uint256_union" where
  "spec_pad P a key \<equiv> pad P key (oword0 (spec_salt a))"

text \<open>The wallet key that the entered password gives; it is the true one for the right password.\<close>

definition spec_current :: "platform \<Rightarrow> wallet_spec \<Rightarrow> uint256_union" where
  "spec_current P a = (spec_key a XOR spec_pad P a (spec_password a)) XOR spec_pad P a (spec_entered a)"

definition spec_unlocked :: "platform \<Rightarrow> wallet_spec \<Rightarrow> bool" where
  "spec_unlocked P a \<longleftrightarrow> spec_pad P a (spec_current P a) = spec_pad P a (spec_key a)"

lemma spec_unlocked_password: "spec_entered a = spec_password a \<Longrightarrow> spec_unlocked P a"
  by (simp add: spec_unlocked_def spec_current_def)

definition spec_new :: "platform \<Rightarrow> uint256_union \<Rightarrow> uint256_union \<Rightarrow> wallet_spec" where
  "spec_new P salt key = \<lparr>spec_salt = salt, spec_key = key, spec_password = 0, spec_entered = 0,
     spec_representative = genesis_account P, spec_keys = (\<lambda>a. None), spec_work = (\<lambda>a. 0)\<rparr>"

datatype wallet_op = Insert private_key | Erase public_key | Rekey string | Enter string |
  Set_representative account | Put_work public_key uint64

fun spec_step :: "platform \<Rightarrow> wallet_spec \<Rightarrow> wallet_op \<Rightarrow> wallet_spec option" where
  "spec_step P a (Insert prv) =
     (let pub = ed25519_publickey P prv in
      if spec_unlocked P a \<and> special_count \<le> pub \<and> prv \<noteq> spec_pad P a (spec_key a)
      then Some (a\<lparr>spec_keys := (spec_keys a)(pub \<mapsto> prv), spec_work := (spec_work a)(pub := 0)\<rparr>)
      else None)"
| "spec_step P a (Erase pub) =
     (if spec_keys a pub \<noteq> None then Some (a\<lparr>spec_keys := (spec_keys a)(pub := None)\<rparr>) else None)"
| "spec_step P a (Rekey password_a) =
     (if spec_unlocked P a then do {
        key \<leftarrow> kdf_generate P (kdf_work P) password_a (spec_salt a);
        Some (a\<lparr>spec_key := spec_current P a, spec_password := key, spec_entered := key\<rparr>)
      } else Some a)"
| "spec_step P a (Enter password_a) = do {
     key \<leftarrow> kdf_generate P (kdf_work P) password_a (spec_salt a);
     Some (a\<lparr>spec_entered := key\<rparr>)
   }"
| "spec_step P a (Set_representative r) = Some (a\<lparr>spec_representative := r\<rparr>)"
| "spec_step P a (Put_work pub work_a) =
     (if spec_keys a pub \<noteq> None then Some (a\<lparr>spec_work := (spec_work a)(pub := work_a)\<rparr>) else None)"

fun wallet_step :: "platform \<Rightarrow> wallet_store \<Rightarrow> wallet_op \<Rightarrow> wallet_store exec" where
  "wallet_step P w (Insert prv) = do { (pub, w) \<leftarrow> wallet_insert P w prv; Some w }"
| "wallet_step P w (Erase pub) = wallet_erase w pub"
| "wallet_step P w (Rekey password_a) = do { (result, w) \<leftarrow> rekey P w password_a; Some w }"
| "wallet_step P w (Enter password_a) = enter_password P w password_a"
| "wallet_step P w (Set_representative r) = Some (representative_set w r)"
| "wallet_step P w (Put_work pub work_a) = work_put w pub work_a"

fun spec_run :: "platform \<Rightarrow> wallet_spec \<Rightarrow> wallet_op list \<Rightarrow> wallet_spec option" where
  "spec_run P a [] = Some a"
| "spec_run P a (step # steps) = do { a \<leftarrow> spec_step P a step; spec_run P a steps }"

fun wallet_run :: "platform \<Rightarrow> wallet_store \<Rightarrow> wallet_op list \<Rightarrow> wallet_store exec" where
  "wallet_run P w [] = Some w"
| "wallet_run P w (step # steps) = do { w \<leftarrow> wallet_step P w step; wallet_run P w steps }"

section \<open>The simulation\<close>

abbreviation entry_val :: "uint256_union \<Rightarrow> uint64 \<Rightarrow> byte list" where
  "entry_val key work_a \<equiv> wallet_value_val \<lparr>value_key = key, value_work = work_a\<rparr>"

text \<open>What the database of a wallet holds under each key.\<close>

definition spec_entry :: "platform \<Rightarrow> wallet_spec \<Rightarrow> uint256_union \<Rightarrow> byte list option" where
  "spec_entry P a k =
     (if k = version_special then Some (entry_val version_current 0)
      else if k = salt_special then Some (entry_val (spec_salt a) 0)
      else if k = wallet_key_special
        then Some (entry_val (spec_key a XOR spec_pad P a (spec_password a)) 0)
      else if k = check_special then Some (entry_val (spec_pad P a (spec_key a)) 0)
      else if k = representative_special then Some (entry_val (spec_representative a) 0)
      else case spec_keys a k of
          None \<Rightarrow> None
        | Some prv \<Rightarrow> Some (entry_val (prv XOR spec_pad P a (spec_key a)) (spec_work a k)))"

definition keys_ok :: "platform \<Rightarrow> wallet_spec \<Rightarrow> bool" where
  "keys_ok P a \<longleftrightarrow> (\<forall>pub prv. spec_keys a pub = Some prv \<longrightarrow>
     ed25519_publickey P prv = pub \<and> special_count \<le> pub \<and> prv \<noteq> spec_pad P a (spec_key a))"

definition wallet_is :: "platform \<Rightarrow> wallet_store \<Rightarrow> wallet_spec \<Rightarrow> bool" where
  "wallet_is P w a \<longleftrightarrow> password w \<noteq> [] \<and> fan_value (password w) = spec_entered a \<and>
     (\<forall>k. mdb_get (wallet_entries w) k = spec_entry P a k) \<and> keys_ok P a"

lemma wallet_value_roundtrip [simp]: "wallet_value_of_val (wallet_value_val v) = Some v"
  by (simp add: wallet_value_of_val_def wallet_value_val_def)

lemma specials_distinct:
  "version_special < special_count" "salt_special < special_count" "wallet_key_special < special_count"
  "check_special < special_count" "representative_special < special_count"
  "distinct [version_special, salt_special, wallet_key_special, check_special, representative_special]"
  by (simp_all add: special_defs)

lemma spec_entry_special:
  "spec_entry P a version_special = Some (entry_val version_current 0)"
  "spec_entry P a salt_special = Some (entry_val (spec_salt a) 0)"
  "spec_entry P a wallet_key_special =
     Some (entry_val (spec_key a XOR spec_pad P a (spec_password a)) 0)"
  "spec_entry P a check_special = Some (entry_val (spec_pad P a (spec_key a)) 0)"
  "spec_entry P a representative_special = Some (entry_val (spec_representative a) 0)"
  by (simp_all add: spec_entry_def special_defs)

lemma spec_entry_key:
  assumes "special_count \<le> k"
  shows "spec_entry P a k = (case spec_keys a k of None \<Rightarrow> None
    | Some prv \<Rightarrow> Some (entry_val (prv XOR spec_pad P a (spec_key a)) (spec_work a k)))"
proof -
  have "k \<noteq> x" if "x < special_count" for x using assms that by auto
  then show ?thesis by (simp add: spec_entry_def specials_distinct)
qed

lemma spec_entry_cong:
  assumes "spec_salt b = spec_salt a" "spec_key b = spec_key a" "spec_password b = spec_password a"
    "spec_representative b = spec_representative a" "spec_keys b k = spec_keys a k"
    "spec_work b k = spec_work a k"
  shows "spec_entry P b k = spec_entry P a k"
  by (simp add: spec_entry_def assms split: option.splits)

lemma wallet_is_entry:
  assumes "wallet_is P w a"
  shows "mdb_get (wallet_entries w) k = spec_entry P a k"
  using assms by (simp add: wallet_is_def)

lemma wallet_reads:
  assumes "wallet_is P w a"
  shows "wallet_salt w = Some (spec_salt a)"
    and "wallet_check w = Some (spec_pad P a (spec_key a))"
    and "wallet_representative w = Some (spec_representative a)"
    and "entry_get_raw w wallet_key_special =
      Some \<lparr>value_key = spec_key a XOR spec_pad P a (spec_password a), value_work = 0\<rparr>"
  by (simp_all add: wallet_salt_def wallet_check_def wallet_representative_def entry_get_raw_def
      wallet_is_entry [OF assms] spec_entry_special)

lemma wallet_unlocks:
  assumes "wallet_is P w a" "ctr_mode P stream"
  shows "wallet_key P w = Some (spec_current P a)"
    and "valid_password P w = Some (spec_unlocked P a)"
proof -
  show k: "wallet_key P w = Some (spec_current P a)"
    using assms(1) by (simp add: wallet_key_def wallet_reads [OF assms(1)] ctr_mode_pad [OF assms(2)]
        spec_current_def wallet_is_def)
  show "valid_password P w = Some (spec_unlocked P a)"
    by (simp add: valid_password_def k wallet_reads [OF assms(1)] spec_unlocked_def
        flip: pad_def) (rule eq_commute)
qed

lemma wallet_is_put:
  assumes "wallet_is P w a" "keys_ok P b" "spec_entered b = spec_entered a"
    and "\<And>k. spec_entry P b k = (if k = pub then Some (wallet_value_val v) else spec_entry P a k)"
  shows "wallet_is P (entry_put_raw w pub v) b"
  using assms by (simp add: wallet_is_def entry_put_raw_def)

lemma insert_simulates:
  assumes w: "wallet_is P w a" and ctr: "ctr_mode P stream" and step: "spec_step P a (Insert prv) = Some b"
  shows "\<exists>w'. wallet_insert P w prv = Some (ed25519_publickey P prv, w') \<and> wallet_is P w' b"
proof -
  let ?pub = "ed25519_publickey P prv"
  have pre: "spec_unlocked P a" "special_count \<le> ?pub" "prv \<noteq> spec_pad P a (spec_key a)"
    and b: "b = a\<lparr>spec_keys := (spec_keys a)(?pub \<mapsto> prv), spec_work := (spec_work a)(?pub := 0)\<rparr>"
    using step by (auto simp: Let_def split: if_splits)
  let ?v = "wallet_value_new (prv XOR spec_pad P a (spec_key a))"
  have "wallet_insert P w prv = Some (?pub, entry_put_raw w ?pub ?v)"
    using pre(1) by (simp add: wallet_insert_def wallet_unlocks [OF w ctr] wallet_reads [OF w]
        ctr_mode_pad [OF ctr] spec_unlocked_def Let_def)
  moreover have "wallet_is P (entry_put_raw w ?pub ?v) b"
  proof (rule wallet_is_put [OF w])
    show "keys_ok P b" using w pre by (auto simp: b keys_ok_def wallet_is_def)
    show "spec_entry P b k = (if k = ?pub then Some (wallet_value_val ?v) else spec_entry P a k)" for k
      using spec_entry_key [OF pre(2), of P b]
      by (auto simp: b wallet_value_new_def intro: spec_entry_cong)
  qed (simp add: b)
  ultimately show ?thesis by blast
qed

lemma erase_simulates:
  assumes w: "wallet_is P w a" and step: "spec_step P a (Erase pub) = Some b"
  shows "\<exists>w'. wallet_erase w pub = Some w' \<and> wallet_is P w' b"
proof -
  have pre: "spec_keys a pub \<noteq> None" and b: "b = a\<lparr>spec_keys := (spec_keys a)(pub := None)\<rparr>"
    using step by (auto split: if_splits)
  have pub: "special_count \<le> pub" using w pre by (auto simp: wallet_is_def keys_ok_def)
  have "mdb_get (wallet_entries w) pub \<noteq> None"
    using pre by (auto simp: wallet_is_entry [OF w] spec_entry_key [OF pub])
  then have "wallet_erase w pub = Some (w\<lparr>wallet_entries := mdb_remove (wallet_entries w) pub\<rparr>)"
    by (auto simp: wallet_erase_def mdb_del_def)
  moreover have "spec_entry P b k = (if k = pub then None else spec_entry P a k)" for k
    using spec_entry_key [OF pub, of P b] by (auto simp: b intro: spec_entry_cong)
  then have "wallet_is P (w\<lparr>wallet_entries := mdb_remove (wallet_entries w) pub\<rparr>) b"
    using w by (auto simp: wallet_is_def b keys_ok_def)
  ultimately show ?thesis by blast
qed

lemma enter_simulates:
  assumes w: "wallet_is P w a" and step: "spec_step P a (Enter pw) = Some b"
  shows "\<exists>w'. enter_password P w pw = Some w' \<and> wallet_is P w' b"
proof -
  obtain key where key: "kdf_generate P (kdf_work P) pw (spec_salt a) = Some key"
    and b: "b = a\<lparr>spec_entered := key\<rparr>"
    using step by (auto simp: bind_eq_Some_conv)
  have "password w \<noteq> []" using w by (simp add: wallet_is_def)
  then obtain ws where ws: "fan_value_set (password w) key = Some ws" "ws \<noteq> []" "fan_value ws = key"
    by (rule fan_value_set_Some)
  have "enter_password P w pw = Some (w\<lparr>password := ws\<rparr>)"
    by (simp add: enter_password_def derive_key_def wallet_reads [OF w] key ws)
  moreover have "wallet_is P (w\<lparr>password := ws\<rparr>) b"
    using w ws spec_entry_cong [of b a] by (simp add: wallet_is_def b keys_ok_def)
  ultimately show ?thesis by blast
qed

lemma rekey_simulates:
  assumes w: "wallet_is P w a" and ctr: "ctr_mode P stream" and step: "spec_step P a (Rekey pw) = Some b"
  shows "\<exists>w'. rekey P w pw = Some (\<not> spec_unlocked P a, w') \<and> wallet_is P w' b"
proof (cases "spec_unlocked P a")
  case False
  then show ?thesis using w step by (simp add: rekey_def wallet_unlocks [OF w ctr])
next
  case True
  then obtain key where key: "kdf_generate P (kdf_work P) pw (spec_salt a) = Some key"
    and b: "b = a\<lparr>spec_key := spec_current P a, spec_password := key, spec_entered := key\<rparr>"
    using step by (auto simp: bind_eq_Some_conv)
  have "password w \<noteq> []" using w by (simp add: wallet_is_def)
  then obtain us ws where ws: "fan_xor (password w) (fan_value (password w)) = Some us"
    "fan_xor us key = Some ws" "ws \<noteq> []" "fan_value ws = key"
    by (rule fan_replace)
  let ?v = "wallet_value_new (spec_current P a XOR spec_pad P a key)"
  have "wallet_salt (w\<lparr>password := ws\<rparr>) = wallet_salt w"
    by (simp add: wallet_salt_def entry_get_raw_def)
  then have "rekey P w pw = Some (False, entry_put_raw (w\<lparr>password := ws\<rparr>) wallet_key_special ?v)"
    using True by (simp add: rekey_def derive_key_def wallet_unlocks [OF w ctr] wallet_reads [OF w] key
        ws ctr_mode_pad [OF ctr])
  moreover have "spec_entry P b k =
      (if k = wallet_key_special then Some (wallet_value_val ?v) else spec_entry P a k)" for k
    using True by (auto simp: b spec_entry_def wallet_value_new_def spec_unlocked_def special_defs
        split: option.splits)
  then have "wallet_is P (entry_put_raw (w\<lparr>password := ws\<rparr>) wallet_key_special ?v) b"
    using w ws True by (auto simp: wallet_is_def entry_put_raw_def b keys_ok_def spec_unlocked_def)
  ultimately show ?thesis using True by auto
qed

lemma representative_simulates:
  assumes w: "wallet_is P w a"
  shows "wallet_is P (representative_set w r) (a\<lparr>spec_representative := r\<rparr>)"
  unfolding representative_set_def
proof (rule wallet_is_put [OF w])
  show "spec_entry P (a\<lparr>spec_representative := r\<rparr>) k =
      (if k = representative_special then Some (wallet_value_val (wallet_value_new r)) else spec_entry P a k)" for k
    by (auto simp: spec_entry_def wallet_value_new_def special_defs split: option.splits)
qed (use w in \<open>simp_all add: wallet_is_def keys_ok_def\<close>)

lemma key_entry:
  assumes w: "wallet_is P w a" and k: "spec_keys a pub = Some prv"
  shows "entry_get_raw w pub =
      Some \<lparr>value_key = prv XOR spec_pad P a (spec_key a), value_work = spec_work a pub\<rparr>"
    and "prv XOR spec_pad P a (spec_key a) \<noteq> 0" and "special_count \<le> pub"
    and "ed25519_publickey P prv = pub"
proof -
  have ok: "ed25519_publickey P prv = pub" "special_count \<le> pub" "prv \<noteq> spec_pad P a (spec_key a)"
    using w k by (auto simp: wallet_is_def keys_ok_def)
  then show "special_count \<le> pub" "ed25519_publickey P prv = pub" by simp_all
  show "entry_get_raw w pub =
      Some \<lparr>value_key = prv XOR spec_pad P a (spec_key a), value_work = spec_work a pub\<rparr>"
    using k by (simp add: entry_get_raw_def wallet_is_entry [OF w] spec_entry_key [OF ok(2)])
  show "prv XOR spec_pad P a (spec_key a) \<noteq> 0"
    using ok(3) by (metis xor_cancel(1) xor_self_eq)
qed

lemma work_simulates:
  assumes w: "wallet_is P w a" and step: "spec_step P a (Put_work pub work_a) = Some b"
  shows "\<exists>w'. work_put w pub work_a = Some w' \<and> wallet_is P w' b"
proof -
  obtain prv where prv: "spec_keys a pub = Some prv" and b: "b = a\<lparr>spec_work := (spec_work a)(pub := work_a)\<rparr>"
    using step by (auto split: if_splits)
  note e = key_entry [OF w prv]
  let ?v = "\<lparr>value_key = prv XOR spec_pad P a (spec_key a), value_work = work_a\<rparr>"
  have "work_put w pub work_a = Some (entry_put_raw w pub ?v)"
    using e(2) by (simp add: work_put_def e(1) uint256_is_zero_eq)
  moreover have "wallet_is P (entry_put_raw w pub ?v) b"
  proof (rule wallet_is_put [OF w])
    show "spec_entry P b k = (if k = pub then Some (wallet_value_val ?v) else spec_entry P a k)" for k
      using spec_entry_key [OF e(3), of P b] prv by (auto simp: b intro: spec_entry_cong)
  qed (use w in \<open>simp_all add: b wallet_is_def keys_ok_def\<close>)
  ultimately show ?thesis by blast
qed

lemma step_simulates:
  assumes w: "wallet_is P w a" and ctr: "ctr_mode P stream" and step: "spec_step P a act = Some b"
  shows "\<exists>w'. wallet_step P w act = Some w' \<and> wallet_is P w' b"
proof (cases act)
  case (Insert prv)
  then show ?thesis using insert_simulates [OF w ctr] step by fastforce
next
  case (Erase pub)
  then show ?thesis using erase_simulates [OF w] step by simp
next
  case (Rekey pw)
  then show ?thesis using rekey_simulates [OF w ctr] step by fastforce
next
  case (Enter pw)
  then show ?thesis using enter_simulates [OF w] step by simp
next
  case (Set_representative r)
  then show ?thesis using representative_simulates [OF w, of r] step by auto
next
  case (Put_work pub work_a)
  then show ?thesis using work_simulates [OF w] step by simp
qed

lemma run_simulates:
  assumes "wallet_is P w a" "ctr_mode P stream" "spec_run P a steps = Some b"
  shows "\<exists>w'. wallet_run P w steps = Some w' \<and> wallet_is P w' b"
  using assms
proof (induction steps arbitrary: w a)
  case (Cons act steps)
  then obtain a' where a': "spec_step P a act = Some a'" "spec_run P a' steps = Some b"
    by (auto simp: bind_eq_Some_conv)
  then obtain w' where "wallet_step P w act = Some w'" "wallet_is P w' a'"
    using step_simulates [OF Cons.prems(1,2)] by blast
  then show ?case using Cons.IH [OF _ Cons.prems(2) a'(2)] by simp
qed simp

lemma new_simulates:
  assumes ctr: "ctr_mode P stream"
  shows "\<exists>w. wallet_store_open P randoms salt key mdb_empty = Some w \<and> wallet_is P w (spec_new P salt key)"
proof -
  obtain ws where ws: "fan_value_set (make_fan 0 randoms) 0 = Some ws" "ws \<noteq> []" "fan_value ws = 0"
    by (rule fan_value_set_Some [OF make_fan_not_Nil, of 0 randoms 0])
  then show ?thesis
    by (auto simp: wallet_store_open_def entry_put_raw_def wallet_is_def spec_new_def keys_ok_def
        spec_entry_def wallet_value_new_def ctr_mode_pad [OF ctr] special_defs)
qed

lemma fetch_unlocked:
  assumes w: "wallet_is P w a" and ctr: "ctr_mode P stream" and "spec_unlocked P a" and "special_count \<le> pub"
  shows "fetch P w pub = Some (spec_keys a pub)"
proof (cases "spec_keys a pub")
  case None
  then show ?thesis
    by (simp add: fetch_def entry_get_raw_def wallet_is_entry [OF w] spec_entry_key [OF assms(4)]
        uint256_is_zero_eq)
next
  case (Some prv)
  note e = key_entry [OF w Some]
  show ?thesis
    using assms(3) e(2,4) Some by (simp add: fetch_def e(1) uint256_is_zero_eq wallet_unlocks [OF w ctr]
        wallet_reads [OF w] ctr_mode_pad [OF ctr] spec_unlocked_def)
qed

lemma fetch_total:
  assumes w: "wallet_is P w a" and ctr: "ctr_mode P stream" and "special_count \<le> pub"
  shows "\<exists>r. fetch P w pub = Some r"
proof (cases "spec_keys a pub")
  case None
  then show ?thesis
    by (simp add: fetch_def entry_get_raw_def wallet_is_entry [OF w] spec_entry_key [OF assms(3)]
        uint256_is_zero_eq)
next
  case (Some prv)
  then show ?thesis
    by (simp add: fetch_def key_entry(1) [OF w Some] wallet_unlocks [OF w ctr] wallet_reads [OF w] Let_def)
qed

lemma wallet_accounts_eq:
  assumes w: "wallet_is P w a"
  shows "wallet_accounts w = sorted_list_of_set (dom (spec_keys a))"
    and "set (wallet_accounts w) = dom (spec_keys a)" and "distinct (wallet_accounts w)"
proof -
  have ok: "keys_ok P a" using w by (simp add: wallet_is_def)
  have "set (wallet_accounts w) = {k. special_count \<le> k \<and> mdb_get (wallet_entries w) k \<noteq> None}"
    by (auto simp: wallet_accounts_def mdb_get_entries map_of_eq_None_iff)
  also have "\<dots> = dom (spec_keys a)"
    using ok by (auto simp: wallet_is_entry [OF w] spec_entry_key keys_ok_def dom_def split: option.splits)
  finally show dom: "set (wallet_accounts w) = dom (spec_keys a)" .
  have sorted: "sorted_wrt (<) (wallet_accounts w)"
    using sorted_mdb_entries [of "wallet_entries w"] by (simp add: wallet_accounts_def sorted_wrt_filter)
  then show "distinct (wallet_accounts w)" using strict_sorted_iff by blast
  show "wallet_accounts w = sorted_list_of_set (dom (spec_keys a))"
    using sorted dom by (metis sorted_list_of_set.idem_if_sorted_distinct strict_sorted_iff)
qed

lemma wallet_exists_iff:
  assumes w: "wallet_is P w a" and "special_count \<le> pub"
  shows "wallet_exists w pub \<longleftrightarrow> spec_keys a pub \<noteq> None"
proof -
  have "wallet_exists w pub \<longleftrightarrow> mdb_get (wallet_entries w) pub \<noteq> None"
    using iterator_at_key [of "wallet_entries w" pub]
    by (auto simp: wallet_exists_def wallet_find_def iterator_end_def split: option.splits)
  then show ?thesis by (simp add: wallet_is_entry [OF w] spec_entry_key [OF assms(2)] split: option.splits)
qed

lemma work_get_eq:
  assumes w: "wallet_is P w a" and "special_count \<le> pub"
  shows "work_get w pub = Some (map_option (\<lambda>_. spec_work a pub) (spec_keys a pub))"
proof (cases "spec_keys a pub")
  case None
  then show ?thesis
    by (simp add: work_get_def entry_get_raw_def wallet_is_entry [OF w] spec_entry_key [OF assms(2)]
        uint256_is_zero_eq)
next
  case (Some prv)
  then show ?thesis
    using key_entry(2) [OF w Some] by (simp add: work_get_def key_entry(1) [OF w Some] uint256_is_zero_eq)
qed

section \<open>Moving keys\<close>

lemma move_keys_flagged:
  assumes "wallet_is P v b" "ctr_mode P stream" "\<forall>k\<in>set ks. special_count \<le> k"
  shows "move_keys P ks True w v = Some (True, w, v)"
  using assms(3)
proof (induction ks)
  case (Cons k ks)
  obtain r where "fetch P v k = Some r" using fetch_total [OF assms(1,2)] Cons.prems by auto
  then show ?case using Cons by (cases r) simp_all
qed simp

lemma move_keys_moves:
  assumes "ctr_mode P stream" "wallet_is P w a" "wallet_is P v b" "spec_unlocked P b"
    and "spec_run P a (map (\<lambda>k. Insert (the (spec_keys b k))) ks) = Some a'"
    and "spec_run P b (map Erase ks) = Some b'"
    and "\<forall>k\<in>set rest. special_count \<le> k"
    and "rest = [] \<or> spec_keys b' (hd rest) = None"
  shows "\<exists>w' v'. move_keys P (ks @ rest) False w v = Some (rest \<noteq> [], w', v') \<and>
    wallet_is P w' a' \<and> wallet_is P v' b' \<and> spec_unlocked P b'"
  using assms(2-6)
proof (induction ks arbitrary: w v a b)
  case Nil
  show ?case
  proof (cases rest)
    case Nil
    then show ?thesis using "Nil.prems" by simp
  next
    case (Cons k ks)
    have "fetch P v k = Some None"
      using fetch_unlocked [OF Nil.prems(2) assms(1) Nil.prems(3), of k] assms(7,8) Cons Nil.prems(5) by simp
    then show ?thesis
      using move_keys_flagged [OF Nil.prems(2) assms(1), of ks w] assms(7) Cons Nil.prems by simp
  qed
next
  case (Cons k ks)
  obtain a1 where a1: "spec_step P a (Insert (the (spec_keys b k))) = Some a1"
    "spec_run P a1 (map (\<lambda>k. Insert (the (spec_keys b k))) ks) = Some a'"
    using Cons.prems(4) by (auto simp: bind_eq_Some_conv simp del: spec_step.simps)
  obtain b1 where b1: "spec_step P b (Erase k) = Some b1" "spec_run P b1 (map Erase ks) = Some b'"
    using Cons.prems(5) by (auto simp: bind_eq_Some_conv simp del: spec_step.simps)
  have b1_eq: "b1 = b\<lparr>spec_keys := (spec_keys b)(k := None)\<rparr>" and kb: "spec_keys b k \<noteq> None"
    using b1(1) by (auto split: if_splits)
  then obtain prv where prv: "spec_keys b k = Some prv" by auto
  note e = key_entry [OF Cons.prems(2) prv]
  have later: "spec_keys c k' \<noteq> None" if "spec_run P c (map Erase ls) = Some d" "k' \<in> set ls" for c d ls k'
    using that
  proof (induction ls arbitrary: c)
    case (Cons l ls)
    then obtain c1 where c1: "spec_step P c (Erase l) = Some c1" "spec_run P c1 (map Erase ls) = Some d"
      by (auto simp: bind_eq_Some_conv simp del: spec_step.simps)
    then have "spec_keys c l \<noteq> None" "c1 = c\<lparr>spec_keys := (spec_keys c)(l := None)\<rparr>"
      by (auto split: if_splits)
    then show ?case using Cons.IH [OF c1(2)] Cons.prems(2) by (auto split: if_splits)
  qed simp
  have "k \<notin> set ks" using later [OF b1(2), of k] by (auto simp: b1_eq)
  then have same: "map (\<lambda>k. Insert (the (spec_keys b1 k))) ks = map (\<lambda>k. Insert (the (spec_keys b k))) ks"
    by (auto simp: b1_eq)
  obtain w1 where w1: "wallet_insert P w prv = Some (ed25519_publickey P prv, w1)" "wallet_is P w1 a1"
    using insert_simulates [OF Cons.prems(1) assms(1)] a1(1) prv by auto
  obtain v1 where v1: "wallet_erase v k = Some v1" "wallet_is P v1 b1"
    using erase_simulates [OF Cons.prems(2) b1(1)] by auto
  have unl: "spec_unlocked P b1" using Cons.prems(3) by (simp add: b1_eq spec_unlocked_def spec_current_def)
  have "fetch P v k = Some (Some prv)"
    using fetch_unlocked [OF Cons.prems(2) assms(1) Cons.prems(3) e(3)] prv by simp
  then show ?case
    using Cons.IH [OF w1(2) v1(2) unl] a1(2) b1(2) w1(1) v1(1) by (simp add: same)
qed

end
