(* ===== verification/Wallet_Backup.thy ===== *)
theory Wallet_Backup
  imports Wallet_Spec
begin

text \<open>
  The JSON form of a wallet: the tree that \<open>serialize_json\<close> prints, read back by the
  constructor from JSON, holds the same entries. The cached work is not part of the form.
\<close>

lemma ptree_put_new: "k \<notin> fst ` set t \<Longrightarrow> ptree_put t k v = t @ [(k, v)]"
  by (induction t) auto

lemma uint256_hex_inj:
  assumes "number_text (mp_show P) (mp_scan P)"
  shows "uint256_encode_hex P u = uint256_encode_hex P v \<longleftrightarrow> u = v"
  by (metis decode_encode_hex(2) [OF assms] option.inject)

definition hex_entry :: "platform \<Rightarrow> uint256_union \<times> uint256_union \<Rightarrow> string \<times> string" where
  "hex_entry P = (\<lambda>(k, v). (uint256_encode_hex P k, uint256_encode_hex P v))"

lemma hex_entry_simps [simp]: "hex_entry P (k, v) = (uint256_encode_hex P k, uint256_encode_hex P v)"
  by (simp add: hex_entry_def)

text \<open>\<open>es\<close> are the keys and stored key fields of the entries, \<open>f\<close> their cached work.\<close>

lemma wallet_tree_fold:
  assumes "number_text (mp_show P) (mp_scan P)" "distinct (map fst (ds @ es))"
  shows "foldl (\<lambda>tree (k, val). do {
       tree \<leftarrow> tree;
       value \<leftarrow> wallet_value_of_val val;
       Some (ptree_put tree (uint256_encode_hex P k) (uint256_encode_hex P (value_key value)))
     }) (Some (map (hex_entry P) ds)) (map (\<lambda>(k, v). (k, entry_val v (f k))) es) =
     Some (map (hex_entry P) (ds @ es))"
  using assms(2)
proof (induction es arbitrary: ds)
  case (Cons e es)
  obtain k v where e: "e = (k, v)" by (cases e)
  have "uint256_encode_hex P k \<notin> fst ` set (map (hex_entry P) ds)"
    using Cons.prems e by (force simp: uint256_hex_inj [OF assms(1)] hex_entry_def)
  then show ?case using Cons.IH [of "ds @ [e]"] Cons.prems e by (simp add: ptree_put_new)
qed simp

lemma map_of_hex:
  assumes "number_text (mp_show P) (mp_scan P)"
  shows "map_of (map (hex_entry P) es) (uint256_encode_hex P k) = map_option (uint256_encode_hex P) (map_of es k)"
  by (induction es) (auto simp: hex_entry_def uint256_hex_inj [OF assms])

lemma wallet_json_fold:
  assumes nt: "number_text (mp_show P) (mp_scan P)" and d: "distinct (map fst all)" and "set es \<subseteq> set all"
  shows "wallet_json_entries P (map (hex_entry P) all) (map (hex_entry P) es) False w =
    Some (False, foldl (\<lambda>w (k, v). entry_put_raw w k (wallet_value_new v)) w es)"
  using assms(3)
proof (induction es arbitrary: w)
  case (Cons e es)
  obtain k v where e: "e = (k, v)" by (cases e)
  then have "map_of all k = Some v" using Cons.prems d by simp
  then show ?case
    using Cons by (simp add: e ptree_get_def map_of_hex [OF nt] decode_encode_hex [OF nt])
qed simp

lemma entries_fold_get:
  assumes "distinct (map fst es)"
  shows "mdb_get (wallet_entries (foldl (\<lambda>w (k, v). entry_put_raw w k (wallet_value_new v)) w es)) k =
    (case map_of es k of Some v \<Rightarrow> Some (entry_val v 0) | None \<Rightarrow> mdb_get (wallet_entries w) k)"
  using assms
proof (induction es arbitrary: w)
  case (Cons e es)
  obtain l v where e: "e = (l, v)" by (cases e)
  have "map_of es l = None" using Cons.prems by (auto simp: e map_of_eq_None_iff)
  then show ?case
    using Cons by (auto simp: e entry_put_raw_def wallet_value_new_def split: option.splits)
qed simp

lemma entries_fold_password:
  "password (foldl (\<lambda>w (k, v). entry_put_raw w k (wallet_value_new v)) w es) = password w"
  by (induction es arbitrary: w) (auto simp: entry_put_raw_def)

text \<open>The entries of a wallet, as keys and stored key fields.\<close>

lemma wallet_entries_form:
  assumes "wallet_is P w a"
  obtains es f where "mdb_entries (wallet_entries w) = map (\<lambda>(k, v). (k, entry_val v (f k))) es"
    and "distinct (map fst es)"
proof -
  have form: "\<exists>key work_a. val = entry_val key work_a" if "(k, val) \<in> set (mdb_entries (wallet_entries w))" for k val
  proof -
    have "spec_entry P a k = Some val"
      using that wallet_is_entry [OF assms] by (simp flip: mdb_get_iff)
    then show ?thesis by (auto simp: spec_entry_def split: if_splits option.splits)
  qed
  define g where "g = (\<lambda>val. the (wallet_value_of_val val))"
  define f where "f = (\<lambda>k. value_work (g (the (mdb_get (wallet_entries w) k))))"
  let ?es = "map (\<lambda>(k, val). (k, value_key (g val))) (mdb_entries (wallet_entries w))"
  have "entry_val (value_key (g val)) (f k) = val" if "(k, val) \<in> set (mdb_entries (wallet_entries w))" for k val
    using form [OF that] that by (auto simp: f_def g_def simp flip: mdb_get_iff)
  then have "mdb_entries (wallet_entries w) = map (\<lambda>(k, v). (k, entry_val v (f k))) ?es"
    by (auto simp: intro!: map_idI [symmetric])
  moreover have "map fst ?es = map fst (mdb_entries (wallet_entries w))" by auto
  then have "distinct (map fst ?es)" by (simp only: distinct_mdb_entries)
  ultimately show thesis by (rule that)
qed

lemma backup_restores:
  assumes w: "wallet_is P w a" and nt: "number_text (mp_show P) (mp_scan P)"
  shows "\<exists>tree v. wallet_tree P w = Some tree \<and> wallet_store_json P randoms mdb_empty tree = Some (False, v) \<and>
    wallet_is P v (a\<lparr>spec_entered := 0, spec_work := (\<lambda>_. 0)\<rparr>)"
proof -
  let ?b = "a\<lparr>spec_entered := 0, spec_work := (\<lambda>_. 0)\<rparr>"
  obtain es f where es: "mdb_entries (wallet_entries w) = map (\<lambda>(k, v). (k, entry_val v (f k))) es"
    and d: "distinct (map fst es)"
    by (rule wallet_entries_form [OF w])
  have tree: "wallet_tree P w = Some (map (hex_entry P) es)"
    using wallet_tree_fold [OF nt, of "[]" es f] d by (simp add: wallet_tree_def es)
  let ?w0 = "\<lparr>password = make_fan 0 randoms, wallet_entries = mdb_empty\<rparr>"
  define v where "v = foldl (\<lambda>w (k, v). entry_put_raw w k (wallet_value_new v)) ?w0 es"
  have json: "wallet_json_entries P (map (hex_entry P) es) (map (hex_entry P) es) False ?w0 = Some (False, v)"
    using wallet_json_fold [OF nt d subset_refl, of ?w0] by (simp add: v_def)
  have pw: "password v = make_fan 0 randoms" by (simp add: v_def entries_fold_password)
  obtain ws where ws: "fan_value_set (password v) 0 = Some ws" "ws \<noteq> []" "fan_value ws = 0"
    using fan_value_set_Some [OF make_fan_not_Nil, of 0 randoms 0] pw by metis
  have get: "mdb_get (wallet_entries v) k = spec_entry P ?b k" for k
  proof -
    have "spec_entry P a k = map_option (\<lambda>v. entry_val v (f k)) (map_of es k)"
    proof -
      have "map_of (map (\<lambda>(k, v). (k, entry_val v (f k))) es) k = map_option (\<lambda>v. entry_val v (f k)) (map_of es k)"
        by (induction es) auto
      then show ?thesis using wallet_is_entry [OF w, of k] by (simp add: mdb_get_entries es)
    qed
    moreover have "spec_entry P ?b k = map_option (\<lambda>val. entry_val (value_key (the (wallet_value_of_val val))) 0) (spec_entry P a k)"
      by (auto simp: spec_entry_def split: option.splits)
    ultimately have "spec_entry P ?b k = map_option (\<lambda>v. entry_val v 0) (map_of es k)"
      by (simp add: option.map_comp comp_def)
    then show ?thesis
      using entries_fold_get [OF d, of ?w0 k] by (simp add: v_def split: option.splits)
  qed
  have "wallet_store_json P randoms mdb_empty (map (hex_entry P) es) = Some (False, v\<lparr>password := ws\<rparr>)"
    by (simp add: wallet_store_json_def json get spec_entry_special ws Let_def)
  moreover have "wallet_is P (v\<lparr>password := ws\<rparr>) ?b"
    using w by (simp add: wallet_is_def ws get keys_ok_def)
  ultimately show ?thesis using tree by blast
qed

text \<open>
  The flag the constructor from JSON returns is assigned by every child of the tree: a child
  with an invalid name or value is dropped without notice if the child after it is valid.
\<close>

lemma wallet_json_forgets_errors:
  assumes "uint256_decode_hex P bad = None" and "uint256_decode_hex P good = Some key"
    and "ptree_get tree good = Some t" and "uint256_decode_hex P t = Some v"
  shows "wallet_json_entries P tree [(bad, x), (good, y)] init_a w =
    Some (False, entry_put_raw w key (wallet_value_new v))"
  using assms by simp

section \<open>Importing a backup\<close>

lemma erase_all:
  assumes "distinct ks" "set ks \<subseteq> dom (spec_keys b)"
  shows "\<exists>b'. spec_run P b (map Erase ks) = Some b'"
  using assms
proof (induction ks arbitrary: b)
  case (Cons k ks)
  have "set ks \<subseteq> dom (spec_keys (b\<lparr>spec_keys := (spec_keys b)(k := None)\<rparr>))" using Cons.prems by auto
  then show ?case using Cons.IH Cons.prems by auto
qed simp

lemma insert_all:
  assumes "spec_unlocked P c" "distinct ks"
    and "\<forall>k\<in>set ks. \<exists>prv. keys k = Some prv \<and> ed25519_publickey P prv = k \<and> special_count \<le> k \<and>
      prv \<noteq> spec_pad P c (spec_key c)"
  shows "\<exists>c'. spec_run P c (map (\<lambda>k. Insert (the (keys k))) ks) = Some c' \<and> spec_unlocked P c' \<and>
    spec_keys c' = (\<lambda>k. if k \<in> set ks then keys k else spec_keys c k)"
  using assms
proof (induction ks arbitrary: c)
  case (Cons k ks)
  obtain prv where prv: "keys k = Some prv" "ed25519_publickey P prv = k" "special_count \<le> k"
    "prv \<noteq> spec_pad P c (spec_key c)"
    using Cons.prems(3) by auto
  let ?c = "c\<lparr>spec_keys := (spec_keys c)(k \<mapsto> prv), spec_work := (spec_work c)(k := 0)\<rparr>"
  have step: "spec_step P c (Insert (the (keys k))) = Some ?c" using prv Cons.prems(1) by (simp add: Let_def)
  have unl: "spec_unlocked P ?c" using Cons.prems(1) by (simp add: spec_unlocked_def spec_current_def)
  obtain c' where "spec_run P ?c (map (\<lambda>k. Insert (the (keys k))) ks) = Some c'" "spec_unlocked P c'"
    "spec_keys c' = (\<lambda>l. if l \<in> set ks then keys l else spec_keys ?c l)"
    using Cons.IH [OF unl] Cons.prems(2,3) by auto
  then show ?case using step prv(1) by (intro exI [of _ c']) (auto simp del: spec_step.simps)
qed auto

lemma import_backup:
  assumes ctr: "ctr_mode P stream" and nt: "number_text (mp_show P) (mp_scan P)"
    and w: "wallet_is P w a" and pw: "kdf_generate P (kdf_work P) pw (spec_salt a) = Some (spec_password a)"
    and u: "wallet_is P u c" and unl: "spec_unlocked P c"
    and fits: "\<forall>k prv. spec_keys a k = Some prv \<longrightarrow> prv \<noteq> spec_pad P c (spec_key c)"
  shows "\<exists>tree u' c'. wallet_tree P w = Some tree \<and> wallet_import P randoms u tree pw = Some (False, u') \<and>
    wallet_is P u' c' \<and> spec_unlocked P c' \<and> spec_keys c' = spec_keys c ++ spec_keys a"
proof -
  obtain tree v where tree: "wallet_tree P w = Some tree"
    and json: "wallet_store_json P randoms mdb_empty tree = Some (False, v)"
    and v: "wallet_is P v (a\<lparr>spec_entered := 0, spec_work := (\<lambda>_. 0)\<rparr>)"
    using backup_restores [OF w nt] by blast
  let ?b = "a\<lparr>spec_entered := spec_password a, spec_work := (\<lambda>_. 0)\<rparr>"
  obtain v' where enter: "enter_password P v pw = Some v'" and v': "wallet_is P v' ?b"
    using enter_simulates [OF v, of pw ?b] pw by auto
  have unl_b: "spec_unlocked P ?b" by (rule spec_unlocked_password) simp
  let ?ks = "wallet_accounts v'"
  have dks: "distinct ?ks" "set ?ks = dom (spec_keys a)" using wallet_accounts_eq [OF v'] by simp_all
  obtain b' where b': "spec_run P ?b (map Erase ?ks) = Some b'" using erase_all [of ?ks ?b P] dks by auto
  have "keys_ok P a" using w by (simp add: wallet_is_def)
  then have "\<forall>k\<in>set ?ks. \<exists>prv. spec_keys a k = Some prv \<and> ed25519_publickey P prv = k \<and> special_count \<le> k \<and>
      prv \<noteq> spec_pad P c (spec_key c)"
    using fits by (auto simp: dks keys_ok_def)
  then obtain c' where c': "spec_run P c (map (\<lambda>k. Insert (the (spec_keys a k))) ?ks) = Some c'"
    "spec_unlocked P c'" "spec_keys c' = (\<lambda>k. if k \<in> set ?ks then spec_keys a k else spec_keys c k)"
    using insert_all [OF unl dks(1)] by blast
  obtain u' v'' where mv: "move_keys P ?ks False u v' = Some (False, u', v'')" and u': "wallet_is P u' c'"
    using move_keys_moves [OF ctr u v' unl_b _ b', where a' = c' and rest = "[]"] c'(1) by auto
  have "wallet_import P randoms u tree pw = Some (False, u')"
    using unl_b by (simp add: wallet_import_def json enter wallet_unlocks [OF v' ctr] import_keys_def
        wallet_unlocks [OF u ctr] unl mv)
  moreover have "spec_keys c' = spec_keys c ++ spec_keys a"
    by (rule HOL.ext) (auto simp: c'(3) dks map_add_def split: option.splits)
  ultimately show ?thesis using tree u' c'(2) by blast
qed

end
