(* ===== verification/Ledger_Spec.thy ===== *)
theory Ledger_Spec
  imports Ledger
begin

text \<open>
  The abstract ledger. Its state is the typed content \<open>ledger_view\<close> of a block store. What a
  chain of blocks means is given by inductive relations over the stored blocks: the balance
  after a block (\<open>balance_is\<close>), the amount of a send block (\<open>amount_is\<close>), the account a block
  belongs to (\<open>account_is\<close>) and the block that names its representative (\<open>rep_is\<close>). The step
  relation \<open>ledger_step\<close> says which blocks the ledger accepts and what they change, and
  \<open>ledger_inv\<close> is the invariant of the reachable states.
\<close>

section \<open>What chains mean\<close>

inductive balance_is and amount_is ::
  "account \<Rightarrow> (block_hash \<Rightarrow> block option) \<Rightarrow> block_hash \<Rightarrow> uint128_t \<Rightarrow> bool"
  for G :: account and m :: "block_hash \<Rightarrow> block option" where
  bal_send: "m h = Some (Send x) \<Longrightarrow> balance_is G m h (send_balance (send_hashables x))"
| bal_receive: "m h = Some (Receive x) \<Longrightarrow>
    amount_is G m (receive_source (receive_hashables x)) a \<Longrightarrow>
    balance_is G m (receive_previous (receive_hashables x)) p \<Longrightarrow> balance_is G m h (p + a)"
| bal_open: "m h = Some (Open x) \<Longrightarrow>
    amount_is G m (open_source (open_hashables x)) a \<Longrightarrow> balance_is G m h a"
| bal_change: "m h = Some (Change x) \<Longrightarrow>
    balance_is G m (change_previous (change_hashables x)) p \<Longrightarrow> balance_is G m h p"
| amt_send: "m h = Some (Send x) \<Longrightarrow>
    balance_is G m (send_previous (send_hashables x)) p \<Longrightarrow>
    amount_is G m h (p - send_balance (send_hashables x))"
| amt_genesis: "amount_is G m G genesis_amount"

inductive account_is :: "(block_hash \<Rightarrow> block option) \<Rightarrow> block_hash \<Rightarrow> account \<Rightarrow> bool"
  for m :: "block_hash \<Rightarrow> block option" where
  acc_send: "m h = Some (Send x) \<Longrightarrow>
    account_is m (send_previous (send_hashables x)) a \<Longrightarrow> account_is m h a"
| acc_receive: "m h = Some (Receive x) \<Longrightarrow>
    m (receive_source (receive_hashables x)) = Some (Send y) \<Longrightarrow>
    account_is m h (send_destination (send_hashables y))"
| acc_open: "m h = Some (Open x) \<Longrightarrow> account_is m h (open_account (open_hashables x))"
| acc_change: "m h = Some (Change x) \<Longrightarrow>
    account_is m (change_previous (change_hashables x)) a \<Longrightarrow> account_is m h a"

inductive rep_is :: "(block_hash \<Rightarrow> block option) \<Rightarrow> block_hash \<Rightarrow> block_hash \<Rightarrow> bool"
  for m :: "block_hash \<Rightarrow> block option" where
  rep_send: "m h = Some (Send x) \<Longrightarrow>
    rep_is m (send_previous (send_hashables x)) r \<Longrightarrow> rep_is m h r"
| rep_receive: "m h = Some (Receive x) \<Longrightarrow>
    rep_is m (receive_previous (receive_hashables x)) r \<Longrightarrow> rep_is m h r"
| rep_open: "m h = Some (Open x) \<Longrightarrow> rep_is m h h"
| rep_change: "m h = Some (Change x) \<Longrightarrow> rep_is m h h"

inductive_simps account_is_simps: "account_is m h a"
inductive_cases rep_isE: "rep_is m h r"
inductive_cases balance_isE: "balance_is G m h v"

lemma map_le_Some: "m \<subseteq>\<^sub>m m' \<Longrightarrow> m h = Some b \<Longrightarrow> m' h = Some b"
  by (metis domI map_le_def)

lemma balance_amount_mono:
  shows "balance_is G m h v \<Longrightarrow> m \<subseteq>\<^sub>m m' \<Longrightarrow> balance_is G m' h v"
    and "amount_is G m h v \<Longrightarrow> m \<subseteq>\<^sub>m m' \<Longrightarrow> amount_is G m' h v"
  by (induction rule: balance_is_amount_is.inducts)
    (auto dest: map_le_Some intro: balance_is_amount_is.intros)

lemma account_is_mono: "account_is m h a \<Longrightarrow> m \<subseteq>\<^sub>m m' \<Longrightarrow> account_is m' h a"
  by (induction rule: account_is.induct) (auto dest: map_le_Some intro: account_is.intros)

lemma rep_is_mono: "rep_is m h r \<Longrightarrow> m \<subseteq>\<^sub>m m' \<Longrightarrow> rep_is m' h r"
  by (induction rule: rep_is.induct) (auto dest: map_le_Some intro: rep_is.intros)

lemmas chain_mono = balance_amount_mono account_is_mono rep_is_mono

lemma account_is_fun: "account_is m h a \<Longrightarrow> account_is m h b \<Longrightarrow> a = b"
proof (induction arbitrary: b rule: account_is.induct)
  case (acc_send h x a)
  from acc_send.prems acc_send.hyps(1) acc_send.IH show ?case by cases auto
next
  case (acc_receive h x y)
  from acc_receive.prems acc_receive.hyps show ?case by cases auto
next
  case (acc_open h x)
  from acc_open.prems acc_open.hyps show ?case by cases auto
next
  case (acc_change h x a)
  from acc_change.prems acc_change.hyps(1) acc_change.IH show ?case by cases auto
qed

lemma rep_is_named: "rep_is m h r \<Longrightarrow> \<exists>b. m r = Some b \<and> (is_Open b \<or> (\<exists>x. b = Change x))"
  by (induction rule: rep_is.induct) auto

lemma chain_stored:
  "balance_is G m h v \<Longrightarrow> m h \<noteq> None"
  "account_is m h a \<Longrightarrow> m h \<noteq> None"
  "rep_is m h r \<Longrightarrow> m h \<noteq> None"
  by (auto elim: balance_is.cases account_is.cases rep_is.cases)

section \<open>Steps\<close>

text \<open>
  \<open>extend now v b a r w\<close> appends the block \<open>b\<close> to the chain of account \<open>a\<close>, whose entry then
  names \<open>r\<close> as the block of its representative and \<open>w\<close> as its balance; \<open>move_weight\<close>
  moves voting weight between two representatives.
\<close>

definition weight_of :: "(account, uint128_t) mdb \<Rightarrow> account \<Rightarrow> uint128_t" where
  "weight_of w a = entry_or 0 (\<lambda>x. x) (mdb_get w a)"

definition move_weight ::
  "account \<Rightarrow> account \<Rightarrow> uint128_t \<Rightarrow> (account, uint128_t) mdb \<Rightarrow> (account, uint128_t) mdb" where
  "move_weight src dst n w =
     (let w' = mdb_put w src (weight_of w src - n) in mdb_put w' dst (weight_of w' dst + n))"

definition set_latest ::
  "uint64 \<Rightarrow> account \<Rightarrow> block_hash \<Rightarrow> block_hash \<Rightarrow> amount \<Rightarrow> ledger_view \<Rightarrow> ledger_view" where
  "set_latest now a h r w v =
     v\<lparr>infos := mdb_put (infos v) a
         \<lparr>info_head = h, info_rep_block = r, info_balance = w, info_modified = now\<rparr>,
       check := map_option (\<lambda>c. c XOR entry_or 0 info_head (mdb_get (infos v) a) XOR h) (check v)\<rparr>"

definition extend ::
  "platform \<Rightarrow> uint64 \<Rightarrow> block \<Rightarrow> account \<Rightarrow> block_hash \<Rightarrow> amount \<Rightarrow> ledger_view \<Rightarrow> ledger_view" where
  "extend P now b a r w v =
     (set_latest now a (block_hash P b) r w v)
       \<lparr>blocks := (blocks v)(block_hash P b \<mapsto> b),
        heads := mdb_put (mdb_remove (heads v) (previous b)) (block_hash P b) a\<rparr>"

definition rep_account :: "(block_hash \<Rightarrow> block option) \<Rightarrow> block_hash \<Rightarrow> account" where
  "rep_account m r = representative (the (m r))"

inductive ledger_step :: "platform \<Rightarrow> uint64 \<Rightarrow> ledger_view \<Rightarrow> block \<Rightarrow> account \<Rightarrow> ledger_view \<Rightarrow> bool"
  for P :: platform and now :: uint64 and v :: ledger_view where
  step_send:
    "blocks v (block_hash P (Send x)) = None \<Longrightarrow>
     mdb_get (heads v) (send_previous (send_hashables x)) = Some a \<Longrightarrow> a \<noteq> 0 \<Longrightarrow>
     \<not> validate_message P a (block_hash P (Send x)) (send_signature x) \<Longrightarrow>
     mdb_get (infos v) a = Some i \<Longrightarrow>
     send_balance (send_hashables x) \<le> info_balance i \<Longrightarrow>
     ledger_step P now v (Send x) a
       ((extend P now (Send x) a (info_rep_block i) (send_balance (send_hashables x)) v)
          \<lparr>receivables := mdb_put (receivables v) (block_hash P (Send x))
             \<lparr>rcv_source = a, rcv_amount = info_balance i - send_balance (send_hashables x),
              rcv_destination = send_destination (send_hashables x)\<rparr>\<rparr>)"
| step_receive:
    "blocks v (block_hash P (Receive x)) = None \<Longrightarrow>
     mdb_get (receivables v) (receive_source (receive_hashables x)) = Some r \<Longrightarrow>
     \<not> validate_message P (rcv_destination r) (block_hash P (Receive x)) (receive_signature x) \<Longrightarrow>
     mdb_get (infos v) (rcv_destination r) = Some i \<Longrightarrow>
     info_head i = receive_previous (receive_hashables x) \<Longrightarrow>
     mdb_get (infos v) (rcv_source r) = Some j \<Longrightarrow>
     rcv_amount r \<le> weight_of (weights v) (rep_account (blocks v) (info_rep_block j)) \<Longrightarrow>
     ledger_step P now v (Receive x) (rcv_destination r)
       ((extend P now (Receive x) (rcv_destination r) (info_rep_block i)
            (info_balance i + rcv_amount r) v)
          \<lparr>receivables := mdb_remove (receivables v) (receive_source (receive_hashables x)),
           weights := move_weight (rep_account (blocks v) (info_rep_block j))
             (rep_account (blocks v) (info_rep_block i)) (rcv_amount r) (weights v)\<rparr>)"
| step_open:
    "blocks v (block_hash P (Open x)) = None \<Longrightarrow>
     mdb_get (receivables v) (open_source (open_hashables x)) = Some r \<Longrightarrow>
     rcv_destination r = open_account (open_hashables x) \<Longrightarrow>
     \<not> validate_message P (rcv_destination r) (block_hash P (Open x)) (open_signature x) \<Longrightarrow>
     mdb_get (infos v) (rcv_destination r) = None \<Longrightarrow>
     open_representative (open_hashables x) \<noteq> 0 \<Longrightarrow>
     mdb_get (infos v) (rcv_source r) = Some j \<Longrightarrow>
     rcv_amount r \<le> weight_of (weights v) (rep_account (blocks v) (info_rep_block j)) \<Longrightarrow>
     ledger_step P now v (Open x) (rcv_destination r)
       ((extend P now (Open x) (rcv_destination r) (block_hash P (Open x)) (rcv_amount r) v)
          \<lparr>receivables := mdb_remove (receivables v) (open_source (open_hashables x)),
           weights := move_weight (rep_account (blocks v) (info_rep_block j))
             (open_representative (open_hashables x)) (rcv_amount r) (weights v)\<rparr>)"
| step_change:
    "blocks v (block_hash P (Change x)) = None \<Longrightarrow>
     mdb_get (heads v) (change_previous (change_hashables x)) = Some a \<Longrightarrow> a \<noteq> 0 \<Longrightarrow>
     \<not> validate_message P a (block_hash P (Change x)) (change_signature x) \<Longrightarrow>
     mdb_get (infos v) a = Some i \<Longrightarrow>
     change_representative (change_hashables x) \<noteq> 0 \<Longrightarrow>
     info_balance i \<le> weight_of (weights v) (rep_account (blocks v) (info_rep_block i)) \<Longrightarrow>
     ledger_step P now v (Change x) a
       ((extend P now (Change x) a (block_hash P (Change x)) (info_balance i) v)
          \<lparr>weights := move_weight (rep_account (blocks v) (info_rep_block i))
             (change_representative (change_hashables x)) (info_balance i) (weights v)\<rparr>)"

section \<open>The invariant\<close>

definition chain_ok :: "platform \<Rightarrow> (block_hash \<Rightarrow> block option) \<Rightarrow> bool" where
  "chain_ok P m \<longleftrightarrow>
     (\<forall>h b. m h = Some b \<longrightarrow> block_hash P b = h \<and> h \<noteq> 0 \<and> h \<noteq> genesis_account P) \<and>
     (\<forall>h b. m h = Some b \<longrightarrow> is_Open b \<or> m (previous b) \<noteq> None) \<and>
     (\<forall>h b. m h = Some b \<longrightarrow> source b = 0 \<or> source b = genesis_account P \<or> m (source b) \<noteq> None) \<and>
     (\<forall>h x. m h = Some (Open x) \<longrightarrow> open_representative (open_hashables x) \<noteq> 0) \<and>
     (\<forall>h x. m h = Some (Change x) \<longrightarrow> change_representative (change_hashables x) \<noteq> 0)"

text \<open>No block has two successors, and no send block is received twice.\<close>

definition no_fork :: "(block_hash \<Rightarrow> block option) \<Rightarrow> bool" where
  "no_fork m \<longleftrightarrow>
     (\<forall>h b k c. m h = Some b \<longrightarrow> m k = Some c \<longrightarrow> previous b = previous c \<longrightarrow>
        previous b \<noteq> 0 \<longrightarrow> h = k) \<and>
     (\<forall>h b k c. m h = Some b \<longrightarrow> m k = Some c \<longrightarrow> source b = source c \<longrightarrow>
        source b \<noteq> 0 \<longrightarrow> h = k) \<and>
     (\<forall>h x k y. m h = Some (Open x) \<longrightarrow> m k = Some (Open y) \<longrightarrow>
        open_account (open_hashables x) = open_account (open_hashables y) \<longrightarrow> h = k)"

definition heads_ok :: "platform \<Rightarrow> ledger_view \<Rightarrow> bool" where
  "heads_ok P v \<longleftrightarrow>
     (\<forall>a i. mdb_get (infos v) a = Some i \<longrightarrow>
        mdb_get (heads v) (info_head i) = Some a \<and>
        balance_is (genesis_account P) (blocks v) (info_head i) (info_balance i) \<and>
        account_is (blocks v) (info_head i) a \<and>
        rep_is (blocks v) (info_head i) (info_rep_block i)) \<and>
     (\<forall>h a. mdb_get (heads v) h = Some a \<longrightarrow>
        (\<exists>i. mdb_get (infos v) a = Some i \<and> info_head i = h)) \<and>
     (\<forall>h a k b. mdb_get (heads v) h = Some a \<longrightarrow> blocks v k = Some b \<longrightarrow> previous b \<noteq> h) \<and>
     (\<forall>h x. blocks v h = Some (Open x) \<longrightarrow>
        mdb_get (infos v) (open_account (open_hashables x)) \<noteq> None)"

text \<open>A send block is pending exactly until it is received.\<close>

definition pending_ok :: "platform \<Rightarrow> ledger_view \<Rightarrow> bool" where
  "pending_ok P v \<longleftrightarrow>
     (\<forall>h r. mdb_get (receivables v) h = Some r \<longrightarrow>
        (\<exists>x. blocks v h = Some (Send x) \<and> send_destination (send_hashables x) = rcv_destination r) \<and>
        amount_is (genesis_account P) (blocks v) h (rcv_amount r) \<and>
        account_is (blocks v) h (rcv_source r) \<and> mdb_get (infos v) (rcv_source r) \<noteq> None) \<and>
     (\<forall>h r k b. mdb_get (receivables v) h = Some r \<longrightarrow> blocks v k = Some b \<longrightarrow> source b \<noteq> h) \<and>
     (\<forall>h x. blocks v h = Some (Send x) \<longrightarrow>
        mdb_get (receivables v) h \<noteq> None \<or> (\<exists>k b. blocks v k = Some b \<and> source b = h))"

definition total_balance :: "ledger_view \<Rightarrow> nat" where
  "total_balance v = mdb_sum (\<lambda>a i. unat (info_balance i)) (infos v)"

definition total_pending :: "ledger_view \<Rightarrow> nat" where
  "total_pending v = mdb_sum (\<lambda>h r. unat (rcv_amount r)) (receivables v)"

definition total_weight :: "ledger_view \<Rightarrow> nat" where
  "total_weight v = mdb_sum (\<lambda>a w. unat w) (weights v)"

definition totals_ok :: "ledger_view \<Rightarrow> bool" where
  "totals_ok v \<longleftrightarrow>
     total_balance v + total_pending v = unat genesis_amount \<and>
     total_weight v = unat genesis_amount"

definition check_ok :: "ledger_view \<Rightarrow> bool" where
  "check_ok v \<longleftrightarrow> check v = Some (mdb_xor (\<lambda>a i. info_head i) (infos v))"

definition signed_ok :: "platform \<Rightarrow> (block_hash \<Rightarrow> block option) \<Rightarrow> bool" where
  "signed_ok P m \<longleftrightarrow>
     (\<forall>h b. m h = Some b \<longrightarrow> h = genesis_hash P \<or>
        (\<exists>a. account_is m h a \<and> \<not> validate_message P a h (signature_of b)))"

text \<open>Every stored block has a balance, an account and a representative.\<close>

definition walks_ok :: "platform \<Rightarrow> (block_hash \<Rightarrow> block option) \<Rightarrow> bool" where
  "walks_ok P m \<longleftrightarrow>
     (\<forall>h b. m h = Some b \<longrightarrow>
        (\<exists>v. balance_is (genesis_account P) m h v) \<and> (\<exists>a. account_is m h a) \<and> (\<exists>r. rep_is m h r))"

definition ledger_inv :: "platform \<Rightarrow> ledger_view \<Rightarrow> bool" where
  "ledger_inv P v \<longleftrightarrow>
     chain_ok P (blocks v) \<and> no_fork (blocks v) \<and> heads_ok P v \<and> pending_ok P v \<and>
     totals_ok v \<and> check_ok v \<and> signed_ok P (blocks v) \<and> walks_ok P (blocks v)"

end
