(* ===== verification/Ledger_Inv.thy ===== *)
theory Ledger_Inv
  imports Ledger_Spec
begin

text \<open>
  Every step of the abstract ledger keeps its invariant. The four kinds of block append to a
  chain in the same way, so the parts of the invariant about chains, heads and signatures
  are shown once, for \<open>extend\<close>; the parts about pending amounts and totals are shown per
  kind.
\<close>

section \<open>Appending a block\<close>

definition hash_ok :: "platform \<Rightarrow> block \<Rightarrow> bool" where
  "hash_ok P b \<longleftrightarrow> block_hash P b \<noteq> 0 \<and> block_hash P b \<noteq> genesis_account P"

text \<open>The block \<open>b\<close> continues the chain of \<open>a\<close>, or opens it.\<close>

definition appends :: "platform \<Rightarrow> ledger_view \<Rightarrow> block \<Rightarrow> account \<Rightarrow> bool" where
  "appends P v b a \<longleftrightarrow>
     blocks v (block_hash P b) = None \<and> hash_ok P b \<and>
     (case b of
        Open x \<Rightarrow> mdb_get (infos v) a = None \<and> open_account (open_hashables x) = a
      | _ \<Rightarrow> \<exists>i. mdb_get (infos v) a = Some i \<and> info_head i = previous b)"

lemma map_le_new: "m h = None \<Longrightarrow> m \<subseteq>\<^sub>m m(h \<mapsto> b)"
  by (auto simp: map_le_def)

lemma heads_okD:
  assumes "heads_ok P v" and "mdb_get (infos v) a = Some i"
  shows "mdb_get (heads v) (info_head i) = Some a"
    and "balance_is (genesis_account P) (blocks v) (info_head i) (info_balance i)"
    and "account_is (blocks v) (info_head i) a"
    and "rep_is (blocks v) (info_head i) (info_rep_block i)"
    and "blocks v (info_head i) \<noteq> None"
  using assms chain_stored(1) unfolding heads_ok_def by blast+

lemma chain_okD:
  assumes "chain_ok P m" and "m h = Some b"
  shows "block_hash P b = h" and "h \<noteq> 0" and "h \<noteq> genesis_account P"
    and "is_Open b \<or> m (previous b) \<noteq> None"
    and "source b = 0 \<or> source b = genesis_account P \<or> m (source b) \<noteq> None"
  using assms unfolding chain_ok_def by blast+

lemma previous_not_new: "chain_ok P m \<Longrightarrow> m k = Some c \<Longrightarrow> m h = None \<Longrightarrow> h \<noteq> 0 \<Longrightarrow> previous c \<noteq> h"
  by (cases c) (auto dest: chain_okD(4))

lemma appends_head:
  assumes "heads_ok P v" and "appends P v b a" and "\<not> is_Open b"
  obtains i where "mdb_get (infos v) a = Some i" and "info_head i = previous b"
    and "mdb_get (heads v) (previous b) = Some a" and "blocks v (previous b) \<noteq> None"
    and "previous b \<noteq> block_hash P b"
proof -
  obtain i where i: "mdb_get (infos v) a = Some i" "info_head i = previous b"
    using assms(2,3) by (cases b) (auto simp: appends_def)
  note facts = heads_okD [OF assms(1) i(1)]
  moreover have "previous b \<noteq> block_hash P b"
    using facts(5) i(2) assms(2) by (auto simp: appends_def)
  ultimately show ?thesis using that i by simp
qed

lemma extend_chain_ok:
  assumes "chain_ok P (blocks v)" and "heads_ok P v" and "appends P v b a"
    and "source b = 0 \<or> blocks v (source b) \<noteq> None"
    and "\<And>x. b = Open x \<Longrightarrow> open_representative (open_hashables x) \<noteq> 0"
    and "\<And>x. b = Change x \<Longrightarrow> change_representative (change_hashables x) \<noteq> 0"
  shows "chain_ok P ((blocks v)(block_hash P b \<mapsto> b))"
proof -
  have "is_Open b \<or> blocks v (previous b) \<noteq> None"
    using appends_head [OF assms(2,3)] by blast
  with assms show ?thesis
    unfolding chain_ok_def appends_def hash_ok_def by (auto split: if_splits)
qed

lemma extend_no_fork:
  assumes ok: "chain_ok P (blocks v)" "no_fork (blocks v)" "heads_ok P v" "appends P v b a"
    and source: "\<And>k c. blocks v k = Some c \<Longrightarrow> source b \<noteq> 0 \<Longrightarrow> source c \<noteq> source b"
  shows "no_fork ((blocks v)(block_hash P b \<mapsto> b))"
proof -
  have prev: "previous c \<noteq> previous b" if "blocks v k = Some c" "previous b \<noteq> 0" for k c
  proof -
    have "\<not> is_Open b" using that(2) by (cases b) auto
    then have "mdb_get (heads v) (previous b) = Some a"
      using appends_head [OF ok(3,4)] by metis
    then show ?thesis using ok(3) that(1) unfolding heads_ok_def by metis
  qed
  have opened: "open_account (open_hashables y) \<noteq> open_account (open_hashables x)"
    if "blocks v k = Some (Open y)" "b = Open x" for k x y
    using ok(3,4) that unfolding heads_ok_def appends_def by force
  show ?thesis
    using ok(2) prev source opened unfolding no_fork_def by (auto split: if_splits) metis+
qed

lemma extend_heads_ok:
  assumes chain: "chain_ok P (blocks v)" and ok: "heads_ok P v" and app: "appends P v b a"
    and v': "blocks v' = (blocks v)(block_hash P b \<mapsto> b)"
      "infos v' = mdb_put (infos v) a i" "info_head i = block_hash P b"
      "heads v' = mdb_put (mdb_remove (heads v) (previous b)) (block_hash P b) a"
    and new: "balance_is (genesis_account P) (blocks v') (block_hash P b) (info_balance i)"
      "account_is (blocks v') (block_hash P b) a" "rep_is (blocks v') (block_hash P b) (info_rep_block i)"
  shows "heads_ok P v'"
proof -
  let ?h = "block_hash P b"
  have fresh: "blocks v ?h = None" and h0: "?h \<noteq> 0" using app by (auto simp: appends_def hash_ok_def)
  have le: "blocks v \<subseteq>\<^sub>m blocks v'" using fresh by (simp add: v'(1) map_le_new)
  have pb: "previous b \<noteq> ?h"
    by (cases "is_Open b") (use h0 appends_head [OF ok app] in \<open>cases b; fastforce\<close>)+
  have other: "info_head j \<noteq> previous b \<and> info_head j \<noteq> ?h"
    if "mdb_get (infos v) c = Some j" "c \<noteq> a" for c j
  proof -
    have "info_head j \<noteq> previous b" if nop: "\<not> is_Open b"
      using appends_head [OF ok app nop] heads_okD(1) [OF ok \<open>mdb_get (infos v) c = Some j\<close>] \<open>c \<noteq> a\<close>
      by (metis option.inject)
    moreover have "info_head j \<noteq> previous b" if "is_Open b"
      using that heads_okD(5) [OF ok \<open>mdb_get (infos v) c = Some j\<close>] chain
      by (cases b) (auto dest: chain_okD(2))
    ultimately show ?thesis
      using heads_okD(5) [OF ok \<open>mdb_get (infos v) c = Some j\<close>] fresh by metis
  qed
  have "mdb_get (heads v') (info_head j) = Some c \<and>
      balance_is (genesis_account P) (blocks v') (info_head j) (info_balance j) \<and>
      account_is (blocks v') (info_head j) c \<and> rep_is (blocks v') (info_head j) (info_rep_block j)"
    if "mdb_get (infos v') c = Some j" for c j
  proof (cases "c = a")
    case True
    then have "j = i" using that by (simp add: v'(2))
    then show ?thesis using True new by (simp add: v'(3,4))
  next
    case False
    then have j: "mdb_get (infos v) c = Some j" using that by (simp add: v'(2))
    then show ?thesis
      using other [OF j False] heads_okD [OF ok j] chain_mono le by (simp add: v'(4))
  qed
  moreover have "\<exists>j. mdb_get (infos v') c = Some j \<and> info_head j = k"
    if "mdb_get (heads v') k = Some c" for k c
  proof (cases "k = ?h")
    case False
    then have "mdb_get (heads v) k = Some c" "k \<noteq> previous b"
      using that by (auto simp: v'(4) split: if_splits)
    moreover from this obtain j where j: "mdb_get (infos v) c = Some j" "info_head j = k"
      using ok unfolding heads_ok_def by blast
    moreover have "c \<noteq> a"
      using calculation app unfolding appends_def by (cases b) auto
    ultimately show ?thesis by (simp add: v'(2))
  qed (use that in \<open>simp add: v'(2-4)\<close>)
  moreover have "previous c \<noteq> k" if "mdb_get (heads v') k = Some d" "blocks v' j = Some c" for k d j c
  proof (cases "k = ?h")
    case True
    then show ?thesis
      using that(2) pb previous_not_new [OF chain _ fresh h0] by (auto simp: v'(1) split: if_splits)
  next
    case False
    then have "mdb_get (heads v) k = Some d" "k \<noteq> previous b"
      using that(1) by (auto simp: v'(4) split: if_splits)
    then show ?thesis using that(2) ok unfolding heads_ok_def v'(1) by (metis fun_upd_apply option.inject)
  qed
  moreover have "mdb_get (infos v') (open_account (open_hashables x)) \<noteq> None"
    if "blocks v' k = Some (Open x)" for k x
    using that ok app unfolding heads_ok_def appends_def v'(1,2) by (auto split: if_splits)
  ultimately show ?thesis unfolding heads_ok_def by blast
qed

lemma extend_signed_ok:
  assumes "signed_ok P (blocks v)" and "appends P v b a"
    and "account_is ((blocks v)(block_hash P b \<mapsto> b)) (block_hash P b) a"
    and "\<not> validate_message P a (block_hash P b) (signature_of b)"
  shows "signed_ok P ((blocks v)(block_hash P b \<mapsto> b))"
proof -
  have "blocks v \<subseteq>\<^sub>m (blocks v)(block_hash P b \<mapsto> b)"
    using assms(2) by (simp add: appends_def map_le_new)
  with assms show ?thesis unfolding signed_ok_def
    by (auto split: if_splits intro: account_is_mono)
qed

lemma extend_walks_ok:
  assumes "walks_ok P (blocks v)" and "appends P v b a"
    and "balance_is (genesis_account P) ((blocks v)(block_hash P b \<mapsto> b)) (block_hash P b) w"
    and "account_is ((blocks v)(block_hash P b \<mapsto> b)) (block_hash P b) a"
    and "rep_is ((blocks v)(block_hash P b \<mapsto> b)) (block_hash P b) r"
  shows "walks_ok P ((blocks v)(block_hash P b \<mapsto> b))"
proof -
  have le: "blocks v \<subseteq>\<^sub>m (blocks v)(block_hash P b \<mapsto> b)"
    using assms(2) by (simp add: appends_def map_le_new)
  show ?thesis
    unfolding walks_ok_def
  proof (intro allI impI)
    fix h c
    assume "((blocks v)(block_hash P b \<mapsto> b)) h = Some c"
    then consider "h = block_hash P b" | "blocks v h = Some c" by (auto split: if_splits)
    then show "(\<exists>w. balance_is (genesis_account P) ((blocks v)(block_hash P b \<mapsto> b)) h w) \<and>
        (\<exists>a. account_is ((blocks v)(block_hash P b \<mapsto> b)) h a) \<and>
        (\<exists>r. rep_is ((blocks v)(block_hash P b \<mapsto> b)) h r)"
      using assms(1,3-5) chain_mono [OF _ le] unfolding walks_ok_def by cases metis+
  qed
qed

section \<open>Pending amounts\<close>

lemma pending_okD:
  assumes "pending_ok P v" and "mdb_get (receivables v) h = Some r"
  obtains x where "blocks v h = Some (Send x)"
    and "send_destination (send_hashables x) = rcv_destination r"
    and "amount_is (genesis_account P) (blocks v) h (rcv_amount r)"
    and "account_is (blocks v) h (rcv_source r)" and "mdb_get (infos v) (rcv_source r) \<noteq> None"
    and "\<And>k b. blocks v k = Some b \<Longrightarrow> source b \<noteq> h"
  using assms unfolding pending_ok_def by blast

lemma source_not_new:
  "chain_ok P m \<Longrightarrow> m k = Some c \<Longrightarrow> m (block_hash P b) = None \<Longrightarrow> hash_ok P b \<Longrightarrow>
   source c \<noteq> block_hash P b"
  by (auto simp: hash_ok_def dest: chain_okD(5))

lemma pending_old:
  assumes "pending_ok P v" and "appends P v b a"
    and v': "blocks v' = (blocks v)(block_hash P b \<mapsto> b)" "infos v' = mdb_put (infos v) a i"
    and "mdb_get (receivables v) h = Some r"
  shows "(\<exists>x. blocks v' h = Some (Send x) \<and> send_destination (send_hashables x) = rcv_destination r) \<and>
    amount_is (genesis_account P) (blocks v') h (rcv_amount r) \<and>
    account_is (blocks v') h (rcv_source r) \<and> mdb_get (infos v') (rcv_source r) \<noteq> None"
proof -
  have le: "blocks v \<subseteq>\<^sub>m blocks v'" using assms(2) by (simp add: v'(1) appends_def map_le_new)
  show ?thesis
    using assms(5) by (rule pending_okD [OF assms(1)])
      (use chain_mono [OF _ le] map_le_Some [OF le] in \<open>auto simp: v'(2)\<close>)
qed

lemma extend_pending_send:
  assumes ok: "pending_ok P v" "chain_ok P (blocks v)" "appends P v (Send x) a"
    and v': "blocks v' = (blocks v)(block_hash P (Send x) \<mapsto> Send x)" "infos v' = mdb_put (infos v) a i"
      "receivables v' = mdb_put (receivables v) (block_hash P (Send x)) r"
    and r: "send_destination (send_hashables x) = rcv_destination r" "rcv_source r = a"
      "amount_is (genesis_account P) (blocks v') (block_hash P (Send x)) (rcv_amount r)"
      "account_is (blocks v') (block_hash P (Send x)) a"
  shows "pending_ok P v'"
proof -
  have fresh: "blocks v (block_hash P (Send x)) = None" and h: "hash_ok P (Send x)"
    using ok(3) by (simp_all add: appends_def)
  have "source c \<noteq> h" if "mdb_get (receivables v') h = Some q" "blocks v' k = Some c" for h q k c
  proof (cases "k = block_hash P (Send x)")
    case True
    then have "c = Send x" using that(2) by (simp add: v'(1))
    moreover have "h \<noteq> 0"
      using that(1) h pending_okD [OF ok(1)] chain_okD(2) [OF ok(2)]
      by (auto simp: v'(3) hash_ok_def split: if_splits) metis
    ultimately show ?thesis by simp
  next
    case False
    then have c: "blocks v k = Some c" using that(2) by (simp add: v'(1))
    show ?thesis
      using that(1) source_not_new [OF ok(2) c fresh h] pending_okD [OF ok(1)] c
      by (cases "h = block_hash P (Send x)") (auto simp: v'(3))
  qed
  moreover have "mdb_get (receivables v') h \<noteq> None \<or> (\<exists>k b. blocks v' k = Some b \<and> source b = h)"
    if "blocks v' h = Some (Send y)" for h y
    using that ok(1) fresh unfolding pending_ok_def v'(1,3)
    by (cases "h = block_hash P (Send x)") (auto split: if_splits, metis option.distinct(1))
  moreover have "(\<exists>y. blocks v' h = Some (Send y) \<and>
        send_destination (send_hashables y) = rcv_destination q) \<and>
      amount_is (genesis_account P) (blocks v') h (rcv_amount q) \<and>
      account_is (blocks v') h (rcv_source q) \<and> mdb_get (infos v') (rcv_source q) \<noteq> None"
    if "mdb_get (receivables v') h = Some q" for h q
  proof (cases "h = block_hash P (Send x)")
    case True
    then have "q = r" using that by (simp add: v'(3))
    then show ?thesis using True r by (simp add: v'(1,2))
  next
    case False
    then have "mdb_get (receivables v) h = Some q" using that by (simp add: v'(3))
    then show ?thesis by (rule pending_old [OF ok(1,3) v'(1,2)])
  qed
  ultimately show ?thesis unfolding pending_ok_def by blast
qed

lemma extend_pending_take:
  assumes ok: "pending_ok P v" "chain_ok P (blocks v)" "appends P v b a"
    and v': "blocks v' = (blocks v)(block_hash P b \<mapsto> b)" "infos v' = mdb_put (infos v) a i"
      "receivables v' = mdb_remove (receivables v) (source b)"
    and b: "\<And>x. b \<noteq> Send x"
  shows "pending_ok P v'"
proof -
  have fresh: "blocks v (block_hash P b) = None" using ok(3) by (simp add: appends_def)
  have "source c \<noteq> h" if "mdb_get (receivables v') h = Some q" "blocks v' k = Some c" for h q k c
  proof -
    have q: "mdb_get (receivables v) h = Some q" "h \<noteq> source b"
      using that(1) by (simp_all add: v'(3) split: if_splits)
    show ?thesis
      using pending_okD [OF ok(1) q(1)] q(2) that(2) v'(1) by (metis fun_upd_apply option.inject)
  qed
  moreover have "mdb_get (receivables v') h \<noteq> None \<or> (\<exists>k b. blocks v' k = Some b \<and> source b = h)"
    if "blocks v' h = Some (Send y)" for h y
  proof -
    have old: "blocks v h = Some (Send y)" using that b by (auto simp: v'(1) split: if_splits)
    then consider "mdb_get (receivables v) h \<noteq> None"
      | k c where "blocks v k = Some c" "source c = h" "k \<noteq> block_hash P b"
      using ok(1) fresh unfolding pending_ok_def by (metis option.distinct(1))
    then show ?thesis by cases (auto simp: v')
  qed
  ultimately show ?thesis
    using pending_old [OF ok(1,3) v'(1,2)]
    unfolding pending_ok_def by (auto simp: v'(3) split: if_splits)
qed

section \<open>Totals\<close>

lemma genesis_amount_max: "unat (w :: uint128_t) \<le> unat genesis_amount"
  by (metis genesis_amount_def word_le_nat_alt word_n1_ge)

lemma unat_add_le:
  "unat x + unat y \<le> unat genesis_amount \<Longrightarrow> unat (x + y) = unat x + unat y"
  for x y :: uint128_t
proof -
  assume "unat x + unat y \<le> unat genesis_amount"
  then have "unat x + unat y < 2 ^ LENGTH(128)"
    using unsigned_less [of genesis_amount, where ?'a = nat] by simp
  then show ?thesis by (simp add: unat_word_ariths)
qed

lemma unat_diff_le: "y \<le> x \<Longrightarrow> unat (x - y) = unat x - unat y" for x y :: uint128_t
  by (rule unat_sub)

lemma weight_of_put: "weight_of (mdb_put w a x) b = (if b = a then x else weight_of w b)"
  by (simp add: weight_of_def)

lemma entry_or_weight: "entry_or 0 (\<lambda>w. unat w) (mdb_get w a) = unat (weight_of w a)"
  by (cases "mdb_get w a") (simp_all add: weight_of_def)

lemma mdb_sum_weight_put:
  "mdb_sum (\<lambda>a w. unat w) (mdb_put w a x) + unat (weight_of w a) = mdb_sum (\<lambda>a w. unat w) w + unat x"
  using mdb_sum_put [of "\<lambda>a w. unat w" w a x] by (simp add: entry_or_weight)

lemma weight_le_total: "unat (weight_of w a) \<le> mdb_sum (\<lambda>a w. unat w) w"
  by (cases "mdb_get w a") (auto simp: weight_of_def dest: mdb_sum_ge [where f = "\<lambda>a w. unat w"])

text \<open>Moving weight that the source has keeps the total, and nothing wraps around.\<close>

lemma move_weight_exact:
  assumes "mdb_sum (\<lambda>a w. unat w) w = unat genesis_amount" and "n \<le> weight_of w src"
  defines "w' \<equiv> mdb_put w src (weight_of w src - n)"
  shows "mdb_sum (\<lambda>a w. unat w) w' + unat n = unat genesis_amount"
    and "unat (weight_of w' dst + n) = unat (weight_of w' dst) + unat n"
proof -
  let ?s = "mdb_sum (\<lambda>a (w :: uint128_t). unat w)"
  have le: "unat n \<le> unat (weight_of w src)" using assms(2) by (simp add: word_le_nat_alt)
  have "?s w' + unat (weight_of w src) = ?s w + unat (weight_of w src - n)"
    unfolding w'_def by (rule mdb_sum_weight_put)
  then show one: "?s w' + unat n = unat genesis_amount"
    using unat_diff_le [OF assms(2)] le assms(1) by simp
  have "unat (weight_of w' dst) + unat n \<le> unat genesis_amount"
    using weight_le_total [of w' dst] one by simp
  then show "unat (weight_of w' dst + n) = unat (weight_of w' dst) + unat n" by (rule unat_add_le)
qed

lemma move_weight_total:
  assumes "mdb_sum (\<lambda>a w. unat w) w = unat genesis_amount" and "n \<le> weight_of w src"
  shows "mdb_sum (\<lambda>a w. unat w) (move_weight src dst n w) = unat genesis_amount"
  using move_weight_exact [OF assms]
    mdb_sum_weight_put [of "mdb_put w src (weight_of w src - n)" dst
      "weight_of (mdb_put w src (weight_of w src - n)) dst + n"]
  by (simp add: move_weight_def Let_def)

lemma move_weight_covers:
  assumes "mdb_sum (\<lambda>a w. unat w) w = unat genesis_amount" and "n \<le> weight_of w src"
  shows "n \<le> weight_of (move_weight src dst n w) dst"
  using move_weight_exact(2) [OF assms, of dst]
  by (simp add: move_weight_def Let_def weight_of_put word_le_nat_alt)

lemma weight_of_move:
  "weight_of (move_weight src dst n w) a =
     (if src = dst then weight_of w a
      else if a = src then weight_of w src - n
      else if a = dst then weight_of w dst + n else weight_of w a)"
  by (auto simp: move_weight_def weight_of_put Let_def)

lemma balance_le_total: "mdb_get (infos v) a = Some i \<Longrightarrow> unat (info_balance i) \<le> total_balance v"
  unfolding total_balance_def by (drule mdb_sum_ge [where f = "\<lambda>a i. unat (info_balance i)"]) simp

lemma amount_le_total: "mdb_get (receivables v) h = Some r \<Longrightarrow> unat (rcv_amount r) \<le> total_pending v"
  unfolding total_pending_def by (drule mdb_sum_ge [where f = "\<lambda>h r. unat (rcv_amount r)"]) simp

lemma check_ok_set_latest: "check_ok v \<Longrightarrow> check_ok (set_latest now a h r w v)"
  by (simp add: check_ok_def set_latest_def mdb_xor_put)

section \<open>Steps keep the invariant\<close>

lemma ledger_invD:
  assumes "ledger_inv P v"
  shows "chain_ok P (blocks v)" "no_fork (blocks v)" "heads_ok P v" "pending_ok P v" "totals_ok v"
    "check_ok v" "signed_ok P (blocks v)" "walks_ok P (blocks v)"
  using assms by (simp_all add: ledger_inv_def)

lemma extend_inv:
  assumes inv: "ledger_inv P v" and app: "appends P v b a"
    and src: "source b = 0 \<or> mdb_get (receivables v) (source b) \<noteq> None"
    and rep: "\<And>x. b = Open x \<Longrightarrow> open_representative (open_hashables x) \<noteq> 0"
      "\<And>x. b = Change x \<Longrightarrow> change_representative (change_hashables x) \<noteq> 0"
    and sig: "\<not> validate_message P a (block_hash P b) (signature_of b)"
    and v': "v' = (extend P now b a r w v)\<lparr>receivables := R, weights := W\<rparr>"
    and new: "balance_is (genesis_account P) (blocks v') (block_hash P b) w"
      "account_is (blocks v') (block_hash P b) a" "rep_is (blocks v') (block_hash P b) r"
    and rest: "pending_ok P v'" "totals_ok v'"
  shows "ledger_inv P v'"
proof -
  note inv = ledger_invD [OF inv]
  have blocks: "blocks v' = (blocks v)(block_hash P b \<mapsto> b)" by (simp add: v' extend_def)
  have sent: "blocks v (source b) \<noteq> None" "\<And>k c. blocks v k = Some c \<Longrightarrow> source c \<noteq> source b"
    if "source b \<noteq> 0"
    using src that pending_okD [OF inv(4)] by (metis not_None_eq)+
  have "chain_ok P (blocks v')"
    unfolding blocks using extend_chain_ok [OF inv(1,3) app] sent(1) rep by blast
  moreover have "no_fork (blocks v')"
    unfolding blocks using extend_no_fork [OF inv(1-3) app] sent(2) by blast
  moreover have "heads_ok P v'"
    by (rule extend_heads_ok [OF inv(1,3) app blocks, where i =
          "\<lparr>info_head = block_hash P b, info_rep_block = r, info_balance = w, info_modified = now\<rparr>"])
      (use new in \<open>simp_all add: v' extend_def set_latest_def\<close>)
  moreover have "check_ok v'"
    using check_ok_set_latest [OF inv(6), of now a "block_hash P b" r w]
    by (simp add: v' extend_def check_ok_def)
  moreover have "signed_ok P (blocks v')"
    using extend_signed_ok [OF inv(7) app _ sig] new(2) unfolding blocks by blast
  moreover have "walks_ok P (blocks v')"
    by (rule extend_walks_ok [OF inv(8) app new [unfolded blocks], folded blocks])
  ultimately show ?thesis using rest by (simp add: ledger_inv_def)
qed

lemma step_totals_send:
  assumes "totals_ok v" and "mdb_get (infos v) a = Some i" and "w \<le> info_balance i"
    and "mdb_get (receivables v) h = None"
    and "infos v' = mdb_put (infos v) a j" "info_balance j = w" "weights v' = weights v"
    and "receivables v' = mdb_put (receivables v) h r" "rcv_amount r = info_balance i - w"
  shows "totals_ok v'"
proof -
  have "total_balance v' + unat (info_balance i) = total_balance v + unat w"
    using mdb_sum_put [of "\<lambda>a i. unat (info_balance i)" "infos v" a j] assms
    by (simp add: total_balance_def)
  moreover have "total_pending v' = total_pending v + unat (info_balance i - w)"
    using mdb_sum_put [of "\<lambda>h r. unat (rcv_amount r)" "receivables v" h r] assms
    by (simp add: total_pending_def)
  moreover have "unat w \<le> unat (info_balance i)" using assms(3) by (simp add: word_le_nat_alt)
  ultimately have "total_balance v' + total_pending v' = total_balance v + total_pending v"
    using unat_diff_le [OF assms(3)] by linarith
  then show ?thesis using assms(1,7) by (simp add: totals_ok_def total_weight_def)
qed

lemma step_totals_take:
  assumes "totals_ok v" and r: "mdb_get (receivables v) h = Some r"
    and w: "w = entry_or 0 info_balance (mdb_get (infos v) a) + rcv_amount r"
    and v': "infos v' = mdb_put (infos v) a j" "info_balance j = w"
      "receivables v' = mdb_remove (receivables v) h"
      "weights v' = move_weight src dst n (weights v)"
    and n: "n \<le> weight_of (weights v) src"
  shows "totals_ok v'"
proof -
  let ?o = "entry_or 0 info_balance (mdb_get (infos v) a)"
  have o: "entry_or 0 (\<lambda>i. unat (info_balance i)) (mdb_get (infos v) a) = unat ?o"
    by (cases "mdb_get (infos v) a") simp_all
  have "unat ?o \<le> total_balance v"
    by (cases "mdb_get (infos v) a") (auto dest: balance_le_total)
  with amount_le_total [OF r] assms(1) have "unat w = unat ?o + unat (rcv_amount r)"
    unfolding w by (intro unat_add_le) (simp add: totals_ok_def)
  moreover have "total_balance v' + unat ?o = total_balance v + unat w"
    using mdb_sum_put [of "\<lambda>a i. unat (info_balance i)" "infos v" a j] v' o
    by (simp add: total_balance_def)
  moreover have "total_pending v' + unat (rcv_amount r) = total_pending v"
    using mdb_sum_remove [of "\<lambda>h r. unat (rcv_amount r)" "receivables v" h] v' r
    by (simp add: total_pending_def)
  moreover have "total_weight v' = unat genesis_amount"
    using move_weight_total [OF _ n, of dst] assms(1) v'
    by (simp add: totals_ok_def total_weight_def)
  ultimately show ?thesis using assms(1) by (simp add: totals_ok_def)
qed

text \<open>The block of the representative is stored and names one.\<close>

lemma info_rep_named:
  assumes "ledger_inv P v" and "mdb_get (infos v) a = Some i"
  shows "blocks v (info_rep_block i) \<noteq> None" and "rep_account (blocks v) (info_rep_block i) \<noteq> 0"
proof -
  note inv = ledger_invD [OF assms(1)]
  obtain b where b: "blocks v (info_rep_block i) = Some b" "is_Open b \<or> (\<exists>x. b = Change x)"
    using rep_is_named heads_okD(4) [OF inv(3) assms(2)] by blast
  then show "blocks v (info_rep_block i) \<noteq> None" by simp
  show "rep_account (blocks v) (info_rep_block i) \<noteq> 0"
    using b inv(1) by (cases b) (auto simp: rep_account_def chain_ok_def)
qed

lemma pending_stored: "pending_ok P v \<Longrightarrow> blocks v h = None \<Longrightarrow> mdb_get (receivables v) h = None"
  using pending_okD by (metis not_None_eq)

lemma heads_info:
  assumes "heads_ok P v" and "mdb_get (heads v) h = Some a"
  obtains i where "mdb_get (infos v) a = Some i" and "info_head i = h"
  using assms unfolding heads_ok_def by blast

lemma step_send_inv:
  assumes inv: "ledger_inv P v" and hash: "hash_ok P (Send x)"
    and "blocks v (block_hash P (Send x)) = None"
    and head: "mdb_get (heads v) (send_previous (send_hashables x)) = Some a"
    and sig: "\<not> validate_message P a (block_hash P (Send x)) (send_signature x)"
    and i: "mdb_get (infos v) a = Some i" "send_balance (send_hashables x) \<le> info_balance i"
    and v': "v' = (extend P now (Send x) a (info_rep_block i) (send_balance (send_hashables x)) v)
      \<lparr>receivables := mdb_put (receivables v) (block_hash P (Send x))
         \<lparr>rcv_source = a, rcv_amount = info_balance i - send_balance (send_hashables x),
          rcv_destination = send_destination (send_hashables x)\<rparr>\<rparr>"
  shows "ledger_inv P v'"
proof -
  note ok = ledger_invD [OF inv]
  have prev: "info_head i = send_previous (send_hashables x)"
    using heads_info [OF ok(3) head] i(1) by auto
  have app: "appends P v (Send x) a" using assms prev by (simp add: appends_def)
  have blocks: "blocks v' = (blocks v)(block_hash P (Send x) \<mapsto> Send x)" by (simp add: v' extend_def)
  have le: "blocks v \<subseteq>\<^sub>m blocks v'" unfolding blocks using assms(3) by (rule map_le_new)
  have at: "blocks v' (block_hash P (Send x)) = Some (Send x)" by (simp add: blocks)
  note old = heads_okD [OF ok(3) i(1), unfolded prev]
  note acc = acc_send [OF at account_is_mono [OF old(3) le]]
  show ?thesis
  proof (rule extend_inv [OF inv app, where now = now and W = "weights v"])
    show "pending_ok P v'"
      by (rule extend_pending_send [OF ok(4,1) app blocks, where r =
            "\<lparr>rcv_source = a, rcv_amount = info_balance i - send_balance (send_hashables x),
              rcv_destination = send_destination (send_hashables x)\<rparr>"])
        (use acc amt_send [OF at chain_mono(1) [OF old(2) le]] in
          \<open>simp_all add: v' extend_def set_latest_def\<close>)
    show "totals_ok v'"
      by (rule step_totals_send [OF ok(5) i pending_stored [OF ok(4) assms(3)]])
        (simp add: v' extend_def set_latest_def)+
    show "balance_is (genesis_account P) (blocks v') (block_hash P (Send x)) (send_balance (send_hashables x))"
      using at by (rule bal_send)
    show "rep_is (blocks v') (block_hash P (Send x)) (info_rep_block i)"
      using at chain_mono(4) [OF old(4) le] by (rule rep_send)
  qed (use sig acc in \<open>simp_all add: v' extend_def set_latest_def\<close>)
qed

lemma step_receive_inv:
  assumes inv: "ledger_inv P v" and hash: "hash_ok P (Receive x)"
    and "blocks v (block_hash P (Receive x)) = None"
    and r: "mdb_get (receivables v) (receive_source (receive_hashables x)) = Some r"
    and sig: "\<not> validate_message P (rcv_destination r) (block_hash P (Receive x)) (receive_signature x)"
    and i: "mdb_get (infos v) (rcv_destination r) = Some i"
    and prev: "info_head i = receive_previous (receive_hashables x)"
    and n: "rcv_amount r \<le> weight_of (weights v) src"
    and v': "v' = (extend P now (Receive x) (rcv_destination r) (info_rep_block i)
        (info_balance i + rcv_amount r) v)
      \<lparr>receivables := mdb_remove (receivables v) (receive_source (receive_hashables x)),
       weights := move_weight src dst (rcv_amount r) (weights v)\<rparr>"
  shows "ledger_inv P v'"
proof -
  note ok = ledger_invD [OF inv]
  have app: "appends P v (Receive x) (rcv_destination r)" using assms by (simp add: appends_def)
  have blocks: "blocks v' = (blocks v)(block_hash P (Receive x) \<mapsto> Receive x)"
    by (simp add: v' extend_def)
  have le: "blocks v \<subseteq>\<^sub>m blocks v'" unfolding blocks using assms(3) by (rule map_le_new)
  have at: "blocks v' (block_hash P (Receive x)) = Some (Receive x)" by (simp add: blocks)
  note old = heads_okD [OF ok(3) i, unfolded prev]
  obtain y where y: "blocks v (receive_source (receive_hashables x)) = Some (Send y)"
    "send_destination (send_hashables y) = rcv_destination r"
    "amount_is (genesis_account P) (blocks v) (receive_source (receive_hashables x)) (rcv_amount r)"
    by (rule pending_okD [OF ok(4) r])
  have acc: "account_is (blocks v') (block_hash P (Receive x)) (rcv_destination r)"
    using acc_receive [OF at map_le_Some [OF le y(1)]] y(2) by simp
  have bal: "balance_is (genesis_account P) (blocks v') (block_hash P (Receive x))
      (info_balance i + rcv_amount r)"
    using at chain_mono(2) [OF y(3) le] chain_mono(1) [OF old(2) le] by (rule bal_receive)
  show ?thesis
  proof (rule extend_inv [OF inv app _ _ _ _ v'])
    show "pending_ok P v'"
      by (rule extend_pending_take [OF ok(4,1) app blocks]) (simp_all add: v' extend_def set_latest_def)
    show "totals_ok v'"
      by (rule step_totals_take [OF ok(5) r _ _ _ _ _ n, where a = "rcv_destination r"
            and w = "info_balance i + rcv_amount r" and dst = dst])
        (use i in \<open>(simp add: v' extend_def set_latest_def)+\<close>)
    show "rep_is (blocks v') (block_hash P (Receive x)) (info_rep_block i)"
      using at chain_mono(4) [OF old(4) le] by (rule rep_receive)
  qed (use r sig acc bal in simp_all)
qed

lemma step_open_inv:
  assumes inv: "ledger_inv P v" and hash: "hash_ok P (Open x)"
    and "blocks v (block_hash P (Open x)) = None"
    and r: "mdb_get (receivables v) (open_source (open_hashables x)) = Some r"
    and dest: "rcv_destination r = open_account (open_hashables x)"
    and sig: "\<not> validate_message P (rcv_destination r) (block_hash P (Open x)) (open_signature x)"
    and i: "mdb_get (infos v) (rcv_destination r) = None"
    and rep: "open_representative (open_hashables x) \<noteq> 0"
    and n: "rcv_amount r \<le> weight_of (weights v) src"
    and v': "v' = (extend P now (Open x) (rcv_destination r) (block_hash P (Open x)) (rcv_amount r) v)
      \<lparr>receivables := mdb_remove (receivables v) (open_source (open_hashables x)),
       weights := move_weight src dst (rcv_amount r) (weights v)\<rparr>"
  shows "ledger_inv P v'"
proof -
  note ok = ledger_invD [OF inv]
  have app: "appends P v (Open x) (rcv_destination r)" using assms by (simp add: appends_def)
  have blocks: "blocks v' = (blocks v)(block_hash P (Open x) \<mapsto> Open x)" by (simp add: v' extend_def)
  have le: "blocks v \<subseteq>\<^sub>m blocks v'" unfolding blocks using assms(3) by (rule map_le_new)
  have at: "blocks v' (block_hash P (Open x)) = Some (Open x)" by (simp add: blocks)
  have amt: "amount_is (genesis_account P) (blocks v) (open_source (open_hashables x)) (rcv_amount r)"
    using pending_okD [OF ok(4) r] by blast
  have acc: "account_is (blocks v') (block_hash P (Open x)) (rcv_destination r)"
    using account_is.acc_open [of "blocks v'" _ x] at dest by simp
  have bal: "balance_is (genesis_account P) (blocks v') (block_hash P (Open x)) (rcv_amount r)"
    using at chain_mono(2) [OF amt le] by (rule bal_open)
  show ?thesis
  proof (rule extend_inv [OF inv app _ _ _ _ v'])
    show "pending_ok P v'"
      by (rule extend_pending_take [OF ok(4,1) app blocks]) (simp_all add: v' extend_def set_latest_def)
    show "totals_ok v'"
      by (rule step_totals_take [OF ok(5) r _ _ _ _ _ n, where a = "rcv_destination r"
            and w = "rcv_amount r" and dst = dst])
        (use i in \<open>(simp add: v' extend_def set_latest_def)+\<close>)
  qed (use r sig rep acc bal rep_is.rep_open [of "blocks v'" _ x] at in simp_all)
qed

lemma step_change_inv:
  assumes inv: "ledger_inv P v" and hash: "hash_ok P (Change x)"
    and "blocks v (block_hash P (Change x)) = None"
    and head: "mdb_get (heads v) (change_previous (change_hashables x)) = Some a"
    and sig: "\<not> validate_message P a (block_hash P (Change x)) (change_signature x)"
    and i: "mdb_get (infos v) a = Some i"
    and rep: "change_representative (change_hashables x) \<noteq> 0"
    and n: "info_balance i \<le> weight_of (weights v) src"
    and v': "v' = (extend P now (Change x) a (block_hash P (Change x)) (info_balance i) v)
      \<lparr>weights := move_weight src dst (info_balance i) (weights v)\<rparr>"
  shows "ledger_inv P v'"
proof -
  note ok = ledger_invD [OF inv]
  have prev: "info_head i = change_previous (change_hashables x)"
    using heads_info [OF ok(3) head] i(1) by auto
  have app: "appends P v (Change x) a" using assms prev by (simp add: appends_def)
  have blocks: "blocks v' = (blocks v)(block_hash P (Change x) \<mapsto> Change x)"
    by (simp add: v' extend_def)
  have le: "blocks v \<subseteq>\<^sub>m blocks v'" unfolding blocks using assms(3) by (rule map_le_new)
  have at: "blocks v' (block_hash P (Change x)) = Some (Change x)" by (simp add: blocks)
  note old = heads_okD [OF ok(3) i, unfolded prev]
  have zero: "mdb_get (receivables v) 0 = None"
    using pending_stored [OF ok(4)] chain_okD(2) [OF ok(1)] by (metis not_None_eq)
  show ?thesis
  proof (rule extend_inv [OF inv app, where now = now and R = "receivables v"])
    show "pending_ok P v'"
      by (rule extend_pending_take [OF ok(4,1) app blocks])
        (use tbl.remove_absent [OF zero] in \<open>simp_all add: v' extend_def set_latest_def\<close>)
    have "mdb_sum (\<lambda>a i. unat (info_balance i)) (infos v') =
        mdb_sum (\<lambda>a i. unat (info_balance i)) (infos v)"
      using mdb_sum_put [of "\<lambda>a i. unat (info_balance i)" "infos v" a
          "\<lparr>info_head = block_hash P (Change x), info_rep_block = block_hash P (Change x),
            info_balance = info_balance i, info_modified = now\<rparr>"] i
      by (simp add: v' extend_def set_latest_def)
    then show "totals_ok v'"
      using ok(5) move_weight_total [OF _ n, of dst]
      by (simp add: v' extend_def set_latest_def totals_ok_def total_balance_def total_pending_def
          total_weight_def)
    show "rep_is (blocks v') (block_hash P (Change x)) (block_hash P (Change x))"
      using at by (rule rep_change)
  qed (use sig rep acc_change [OF at account_is_mono [OF old(3) le]]
        bal_change [OF at chain_mono(1) [OF old(2) le]] in
      \<open>simp_all add: v' extend_def set_latest_def\<close>)
qed

theorem ledger_step_inv:
  assumes "ledger_step P now v b a v'" and "ledger_inv P v" and "hash_ok P b"
  shows "ledger_inv P v'"
  using assms
  by cases (auto intro: step_send_inv step_receive_inv step_open_inv step_change_inv)

end
