(* ===== verification/Ledger_Walks.thy ===== *)
theory Ledger_Walks
  imports Ledger_Inv
begin

text \<open>
  The walks of \<open>Ledger\<close> end, and return what the relations of \<open>Ledger_Spec\<close> say. The store
  only has to be well-formed, with no block under the hash zero or under the genesis
  account's number, which the walks give another meaning.
\<close>

definition walkable :: "platform \<Rightarrow> block_store \<Rightarrow> bool" where
  "walkable P s \<longleftrightarrow>
     store_ok s \<and> blocks (view s) 0 = None \<and> blocks (view s) (genesis_account P) = None"

lemma walkable_store_ok: "walkable P s \<Longrightarrow> store_ok s"
  by (simp add: walkable_def)

lemma chain_ok_walkable: "store_ok s \<Longrightarrow> chain_ok P (blocks (view s)) \<Longrightarrow> walkable P s"
  unfolding walkable_def chain_ok_def by (metis not_None_eq)

lemma balance_visit_zero [simp]: "visitor_compute P s (Balance_visit 0 r) = Some r"
  by (subst visitor_compute.simps) (simp add: uint256_is_zero_eq)

lemma balance_visit_block:
  "walkable P s \<Longrightarrow> blocks (view s) h = Some b \<Longrightarrow>
   visitor_compute P s (Balance_visit h r) = do {
     (current, result) \<leftarrow> balance_visitor (\<lambda>h. visitor_compute P s (Amount_visit h)) b r;
     visitor_compute P s (Balance_visit current result) }"
  by (subst visitor_compute.simps)
    (auto simp: walkable_def uint256_is_zero_eq store_simps)

lemma amount_visit_block:
  "store_ok s \<Longrightarrow> blocks (view s) h = Some b \<Longrightarrow>
   visitor_compute P s (Amount_visit h) =
     amount_visitor (\<lambda>h. visitor_compute P s (Balance_visit h 0)) s b"
  by (subst visitor_compute.simps) (simp add: store_simps)

lemma amount_visit_genesis:
  "walkable P s \<Longrightarrow> visitor_compute P s (Amount_visit (genesis_account P)) = Some genesis_amount"
  by (subst visitor_compute.simps) (simp add: walkable_def store_simps)

lemma visitor_compute_correct:
  assumes "walkable P s"
  shows "balance_is (genesis_account P) (blocks (view s)) h v \<Longrightarrow>
      visitor_compute P s (Balance_visit h r) = Some (r + v)"
    and "amount_is (genesis_account P) (blocks (view s)) h v \<Longrightarrow>
      visitor_compute P s (Amount_visit h) = Some v"
proof (induction arbitrary: r and r rule: balance_is_amount_is.inducts)
qed (simp_all add: balance_visit_block [OF assms] balance_visitor_def amount_visitor_def
    amount_visit_block [OF walkable_store_ok [OF assms]] amount_visit_genesis [OF assms] ac_simps)

lemma ledger_balance_correct:
  "walkable P s \<Longrightarrow> balance_is (genesis_account P) (blocks (view s)) h v \<Longrightarrow>
   ledger_balance P s h = Some v"
  by (simp add: ledger_balance_def balance_compute_def visitor_compute_correct(1))

lemma ledger_amount_correct:
  "walkable P s \<Longrightarrow> amount_is (genesis_account P) (blocks (view s)) h v \<Longrightarrow>
   ledger_amount P s h = Some v"
  by (simp add: ledger_amount_def amount_compute_def visitor_compute_correct(2))

lemma ledger_account_correct:
  assumes "store_ok s"
  shows "account_is (blocks (view s)) h a \<Longrightarrow> a \<noteq> 0 \<Longrightarrow> ledger_account s h = Some a"
  unfolding ledger_account_def
proof (induction rule: account_is.induct)
qed (subst account_compute.simps; simp add: uint256_is_zero_eq store_simps assms account_visitor_def
    account_compute.simps [of s _ a for a])+

text \<open>The walk takes the account zero for a result that is not known yet, and never returns.\<close>

lemma account_compute_nonzero:
  "account_compute s c r = Some y \<Longrightarrow> store_ok s \<Longrightarrow> r = 0 \<Longrightarrow> account_is (blocks (view s)) c 0 \<Longrightarrow> False"
proof (rule account_compute.raw_induct [where
      P = "\<lambda>s c r y. store_ok s \<longrightarrow> r = 0 \<longrightarrow> \<not> account_is (blocks (view s)) c 0", THEN mp, THEN mp, THEN notE])
  fix f s c r y
  assume IH: "\<And>s c r y. f s c r = Some y \<Longrightarrow> store_ok s \<longrightarrow> r = 0 \<longrightarrow> \<not> account_is (blocks (view s)) c 0"
    and "(if \<not> uint256_is_zero r then Some r else do {
        block \<leftarrow> block_get s c; block \<leftarrow> block;
        (c, r) \<leftarrow> account_visitor s block (c, r); f s c r }) = Some y"
  then show "store_ok s \<longrightarrow> r = 0 \<longrightarrow> \<not> account_is (blocks (view s)) c 0"
    by (auto simp: account_is_simps [of _ c] uint256_is_zero_eq store_simps account_visitor_def
        dest!: IH)
qed

lemma account_walk_zero:
  "store_ok s \<Longrightarrow> account_is (blocks (view s)) h 0 \<Longrightarrow> ledger_account s h = None"
  using account_compute_nonzero unfolding ledger_account_def by (metis not_None_eq)

lemma representative_correct:
  assumes "store_ok s" and "chain_ok P (blocks (view s))"
  shows "rep_is (blocks (view s)) h r \<Longrightarrow> representative_compute P s h = Some r"
proof (induction rule: rep_is.induct)
qed (subst representative_compute.simps; simp add: store_simps assms chain_okD(1) [OF assms(2)])+

lemma ledger_representative_correct:
  assumes "store_ok s" and "chain_ok P (blocks (view s))" and "rep_is (blocks (view s)) h r"
  shows "ledger_representative P s h = Some r"
  using representative_correct [OF assms] rep_is_named [OF assms(3)] assms(1)
  by (auto simp: ledger_representative_def representative_calculated_def assert_def store_simps)

text \<open>The block a representative walk ends at names an account.\<close>

lemma rep_is_nonzero:
  assumes "chain_ok P m" and "rep_is m h r"
  obtains b where "m r = Some b" and "representative b \<noteq> 0" and "rep_account m r = representative b"
proof -
  obtain b where b: "m r = Some b" "is_Open b \<or> (\<exists>x. b = Change x)"
    using rep_is_named [OF assms(2)] by blast
  moreover have "representative b \<noteq> 0" using b assms(1) unfolding chain_ok_def by (cases b) auto
  ultimately show ?thesis using that by (simp add: rep_account_def)
qed

end
