(* ===== verification/Ledger_Refine.thy ===== *)
theory Ledger_Refine
  imports Ledger_Walks
begin

text \<open>
  The code of \<open>Ledger\<close>, which works on the bytes of a block store, implements the abstract
  ledger: \<open>process\<close> rejects a block with the code that \<open>process_code\<close> gives, and otherwise
  makes exactly the step of \<open>Ledger_Spec\<close>. Its assertions hold in every state that satisfies the
  invariant, except the two of \<open>move_representation\<close> on the representatives named by the
  block and on the weight to move, which \<open>movable\<close> describes.
\<close>

section \<open>The result code of a block\<close>

definition follows_code :: "ledger_view \<Rightarrow> block_hash \<Rightarrow> (account \<Rightarrow> process_result) \<Rightarrow> process_result" where
  "follows_code v prev c =
     (if blocks v prev = None then gap_previous
      else case mdb_get (heads v) prev of
        None \<Rightarrow> fork
      | Some a \<Rightarrow> if a = 0 then fork else c a)"

definition takes_code :: "ledger_view \<Rightarrow> block_hash \<Rightarrow> (receivable \<Rightarrow> process_result) \<Rightarrow> process_result" where
  "takes_code v src c =
     (if blocks v src = None then gap_source
      else case mdb_get (receivables v) src of None \<Rightarrow> unreceivable | Some r \<Rightarrow> c r)"

definition process_code :: "platform \<Rightarrow> ledger_view \<Rightarrow> block \<Rightarrow> process_result" where
  "process_code P v b =
     (let h = block_hash P b in
      if blocks v h \<noteq> None then old
      else case b of
        Send x \<Rightarrow> follows_code v (previous b) (\<lambda>a.
          if validate_message P a h (send_signature x) then bad_signature
          else if info_balance (the (mdb_get (infos v) a)) < send_balance (send_hashables x)
          then overspend else progress)
      | Change x \<Rightarrow> follows_code v (previous b) (\<lambda>a.
          if validate_message P a h (change_signature x) then bad_signature else progress)
      | Receive x \<Rightarrow> takes_code v (source b) (\<lambda>r.
          if validate_message P (rcv_destination r) h (receive_signature x) then bad_signature
          else case mdb_get (infos v) (rcv_destination r) of
            None \<Rightarrow> gap_previous
          | Some i \<Rightarrow>
              if info_head i = previous b then progress
              else if blocks v (previous b) \<noteq> None then fork else gap_previous)
      | Open x \<Rightarrow> takes_code v (source b) (\<lambda>r.
          if rcv_destination r \<noteq> open_account (open_hashables x) then account_mismatch
          else if validate_message P (rcv_destination r) h (open_signature x) then bad_signature
          else if mdb_get (infos v) (rcv_destination r) \<noteq> None then fork else progress))"

definition sender_rep :: "ledger_view \<Rightarrow> account \<Rightarrow> account" where
  "sender_rep v a = rep_account (blocks v) (info_rep_block (the (mdb_get (infos v) a)))"

text \<open>The weight that the block moves is there, and so is the representative it names.\<close>

definition movable :: "ledger_view \<Rightarrow> block \<Rightarrow> bool" where
  "movable v b \<longleftrightarrow>
     (case b of
        Send x \<Rightarrow> True
      | Receive x \<Rightarrow> (case mdb_get (receivables v) (source b) of
          None \<Rightarrow> True
        | Some r \<Rightarrow> rcv_amount r \<le> weight_of (weights v) (sender_rep v (rcv_source r)))
      | Open x \<Rightarrow> representative b \<noteq> 0 \<and> (case mdb_get (receivables v) (source b) of
          None \<Rightarrow> True
        | Some r \<Rightarrow> rcv_amount r \<le> weight_of (weights v) (sender_rep v (rcv_source r)))
      | Change x \<Rightarrow> representative b \<noteq> 0 \<and> (case mdb_get (heads v) (previous b) of
          None \<Rightarrow> True
        | Some a \<Rightarrow>
            info_balance (the (mdb_get (infos v) a)) \<le> weight_of (weights v) (sender_rep v a)))"

section \<open>The operations of the ledger on the view\<close>

lemma checksum_update_view:
  assumes "store_ok s" and "check (view s) = Some c"
  obtains s' where "checksum_update s h = Some s'" and "store_ok s'" and "stored s' = stored s"
    and "view s' = (view s)\<lparr>check := Some (c XOR h)\<rparr>"
proof -
  obtain s' where s': "checksum_put s 0 0 (c XOR h) = Some s'" "store_ok s'"
    "view s' = (view s)\<lparr>check := Some (c XOR h)\<rparr>"
    using checksum_view(2) [of s "c XOR h"] assms(1) by blast
  moreover have "stored s' = stored s"
    using s'(1) by (auto simp: checksum_put_def store_simps)
  ultimately show ?thesis
    using that assms by (simp add: checksum_update_def checksum_view(1) uint256_xor_eq)
qed

lemma change_latest_view:
  assumes "store_ok s" and "check (view s) = Some c" and "h \<noteq> 0"
  obtains s' where "change_latest now s a h r w = Some s'" and "store_ok s'"
    and "stored s' = stored s" and "view s' = set_latest now a h r w (view s)"
proof -
  define oh where "oh = entry_or 0 info_head (mdb_get (infos (view s)) a)"
  obtain t where t: "(case mdb_get (infos (view s)) a of None \<Rightarrow> Some s
      | Some i \<Rightarrow> checksum_update s (info_head i)) = Some t" "store_ok t" "stored t = stored s"
    "view t = (view s)\<lparr>check := Some (c XOR oh)\<rparr>"
    using assms checksum_update_view [OF assms(1,2)]
    by (cases "mdb_get (infos (view s)) a") (auto simp: oh_def)
  define i where "i = \<lparr>info_head = h, info_rep_block = r, info_balance = w, info_modified = now\<rparr>"
  obtain s' where s': "checksum_update (account_put t a i) h = Some s'" "store_ok s'"
    "stored s' = stored (account_put t a i)"
    "view s' = (view (account_put t a i))\<lparr>check := Some ((c XOR oh) XOR h)\<rparr>"
    using checksum_update_view [of "account_put t a i" "c XOR oh" h] t by (auto simp: store_simps)
  show ?thesis
  proof (rule that [of s'])
    show "change_latest now s a h r w = Some s'"
      using t(1) s'(1) assms by (simp add: change_latest_def store_simps uint256_is_zero_eq i_def)
    show "view s' = set_latest now a h r w (view s)"
      using s'(4) t(4) assms(2) by (simp add: store_simps set_latest_def i_def oh_def xor.assoc)
  qed (use s' t in \<open>simp_all add: store_simps\<close>)
qed

lemma move_representation_eq:
  assumes "store_ok s" and "blocks (view s) src = Some sb" and "blocks (view s) dst = Some db"
    and "representative sb \<noteq> 0"
  shows "move_representation s src dst n =
    (let sr = representative sb; dr = representative db; w = weights (view s);
         w' = mdb_put w sr (weight_of w sr - n)
     in if dr \<noteq> 0 \<and> n \<le> weight_of w sr
        then Some (representation_put (representation_put s sr (weight_of w sr - n))
          dr (weight_of w' dr + n))
        else None)"
  using assms
  by (simp add: move_representation_def store_simps uint256_is_zero_eq weight_of_def Let_def
      assert_def)

lemma move_representation_view:
  assumes "store_ok s" and "blocks (view s) src = Some sb" and "blocks (view s) dst = Some db"
    and "representative sb \<noteq> 0" and "representative db \<noteq> 0"
    and "n \<le> weight_of (weights (view s)) (representative sb)"
  obtains s' where "move_representation s src dst n = Some s'" and "store_ok s'"
    and "stored s' = stored s"
    and "view s' = (view s)\<lparr>weights :=
        move_weight (representative sb) (representative db) n (weights (view s))\<rparr>"
  using that move_representation_eq [OF assms(1-4), of n] assms(1,5,6)
  by (simp add: Let_def store_simps move_weight_def)

lemma move_representation_None:
  assumes "store_ok s" and "blocks (view s) src = Some sb" and "blocks (view s) dst = Some db"
    and "representative sb \<noteq> 0"
    and "\<not> (representative db \<noteq> 0 \<and> n \<le> weight_of (weights (view s)) (representative sb))"
  shows "move_representation s src dst n = None"
  using move_representation_eq [OF assms(1-4), of n] assms(5) by (simp only: Let_def if_False)

section \<open>Processing\<close>

text \<open>The state in which blocks are processed.\<close>

definition ledger_ok :: "platform \<Rightarrow> block_store \<Rightarrow> bool" where
  "ledger_ok P s \<longleftrightarrow> store_ok s \<and> ledger_inv P (view s)"

lemma ledger_okD:
  assumes "ledger_ok P s"
  shows "store_ok s" and "ledger_inv P (view s)"
    and "chain_ok P (blocks (view s))" "no_fork (blocks (view s))" "heads_ok P (view s)"
      "pending_ok P (view s)" "totals_ok (view s)" "check_ok (view s)" "signed_ok P (blocks (view s))"
      "walks_ok P (blocks (view s))"
  using assms ledger_invD by (auto simp: ledger_ok_def)

definition accepts :: "platform \<Rightarrow> uint64 \<Rightarrow> block_store \<Rightarrow> block \<Rightarrow> (process_return \<times> block_store) exec \<Rightarrow> bool" where
  "accepts P now s b result \<longleftrightarrow>
     (\<exists>a s'. result = accepted a s' \<and> store_ok s' \<and> ledger_step P now (view s) b a (view s') \<and>
        stored s' = link (stored s) (block_hash P b) b)"

lemma follows_progress:
  assumes "heads_ok P v" and "follows_code v prev c = progress"
  obtains a i where "mdb_get (heads v) prev = Some a" and "a \<noteq> 0" and "c a = progress"
    and "blocks v prev \<noteq> None" and "mdb_get (infos v) a = Some i" and "info_head i = prev"
proof -
  obtain a where a: "mdb_get (heads v) prev = Some a" "a \<noteq> 0" "c a = progress" "blocks v prev \<noteq> None"
    using assms(2) by (auto simp: follows_code_def split: if_splits option.splits)
  moreover obtain i where "mdb_get (infos v) a = Some i" "info_head i = prev"
    using heads_info [OF assms(1) a(1)] .
  ultimately show ?thesis using that by blast
qed

lemma process_send_rejects:
  assumes "ledger_ok P s" and "process_code P (view s) (Send x) \<noteq> progress"
  shows "process_send P now s x = rejected (process_code P (view s) (Send x)) s"
proof (cases "mdb_get (heads (view s)) (send_previous (send_hashables x))")
  case None
  then show ?thesis
    using assms(2) ledger_okD(1) [OF assms(1)]
    by (auto simp: process_send_def process_code_def follows_code_def store_simps
        uint256_is_zero_eq Let_def)
next
  case (Some a)
  moreover obtain i where "mdb_get (infos (view s)) a = Some i"
    "info_head i = send_previous (send_hashables x)"
    using heads_info [OF ledger_okD(5) [OF assms(1)] Some] .
  ultimately show ?thesis
    using assms(2) ledger_okD(1) [OF assms(1)]
    by (auto simp: process_send_def process_code_def follows_code_def store_simps
        uint256_is_zero_eq Let_def not_le split: if_splits)
qed

lemma process_send_accepts:
  assumes ok: "ledger_ok P s" and hash: "hash_ok P (Send x)"
    and code: "process_code P (view s) (Send x) = progress"
  shows "accepts P now s (Send x) (process_send P now s x)"
proof -
  let ?h = "block_hash P (Send x)" and ?p = "send_previous (send_hashables x)"
  let ?w = "send_balance (send_hashables x)"
  note inv = ledger_okD [OF ok]
  have new: "blocks (view s) ?h = None"
    and follow: "follows_code (view s) ?p (\<lambda>a.
        if validate_message P a ?h (send_signature x) then bad_signature
        else if info_balance (the (mdb_get (infos (view s)) a)) < ?w then overspend else progress) = progress"
    using code by (simp_all add: process_code_def Let_def split: if_splits)
  obtain a i where a: "mdb_get (heads (view s)) ?p = Some a" "a \<noteq> 0" "blocks (view s) ?p \<noteq> None"
    and i: "mdb_get (infos (view s)) a = Some i" "info_head i = ?p"
    and c: "(if validate_message P a ?h (send_signature x) then bad_signature
      else if info_balance (the (mdb_get (infos (view s)) a)) < ?w then overspend else progress) = progress"
    by (rule follows_progress [OF inv(5) follow])
  have c: "\<not> validate_message P a ?h (send_signature x)" "?w \<le> info_balance i"
    using c i(1) by (auto split: if_splits)
  obtain c where check: "check (view s) = Some c" using inv(8) by (simp add: check_ok_def)
  obtain s1 where s1: "block_put P s ?h (Send x) = Some s1" "store_ok s1"
    "view s1 = (view s)\<lparr>blocks := (blocks (view s))(?h \<mapsto> Send x)\<rparr>"
    "stored s1 = link (stored s) ?h (Send x)"
    using block_put_view [OF inv(1) new refl] a(3) by auto
  obtain s2 where s2: "change_latest now s1 a ?h (info_rep_block i) ?w = Some s2" "store_ok s2"
    "stored s2 = stored s1" "view s2 = set_latest now a ?h (info_rep_block i) ?w (view s1)"
    using change_latest_view [OF s1(2), of c ?h now a "info_rep_block i" ?w] s1(3) check hash
    by (auto simp: hash_ok_def)
  define r where "r = \<lparr>rcv_source = a, rcv_amount = info_balance i - ?w,
    rcv_destination = send_destination (send_hashables x)\<rparr>"
  define s3 where "s3 = pending_put s2 ?h r"
  define s4 where "s4 = frontier_put (s3\<lparr>frontiers := mdb_remove (frontiers s3) ?p\<rparr>) ?h a"
  have v4: "view s4 = (extend P now (Send x) a (info_rep_block i) ?w (view s))
      \<lparr>receivables := mdb_put (receivables (view s)) ?h r\<rparr>"
    using s1(3) s2(4) by (simp add: s4_def s3_def store_simps extend_def set_latest_def)
  have "process_send P now s x = accepted a s4"
    using new a i c s1(1) s2 s1(2,3) inv(1)
    by (simp add: process_send_def Let_def store_simps uint256_is_zero_eq r_def s3_def s4_def
        set_latest_def)
  moreover have "ledger_step P now (view s) (Send x) a (view s4)"
    unfolding v4 r_def using new a(1,2) c(1) i(1) c(2) by (rule step_send)
  moreover have "store_ok s4" "stored s4 = link (stored s) ?h (Send x)"
    using s1 s2 by (simp_all add: s4_def s3_def store_simps)
  ultimately show ?thesis unfolding accepts_def by blast
qed

lemma process_change_rejects:
  assumes "ledger_ok P s" and "process_code P (view s) (Change x) \<noteq> progress"
  shows "process_change P now s x = rejected (process_code P (view s) (Change x)) s"
proof (cases "mdb_get (heads (view s)) (change_previous (change_hashables x))")
  case None
  then show ?thesis
    using assms(2) ledger_okD(1) [OF assms(1)]
    by (auto simp: process_change_def process_code_def follows_code_def store_simps
        uint256_is_zero_eq Let_def)
next
  case (Some a)
  moreover obtain i where "mdb_get (infos (view s)) a = Some i"
    "info_head i = change_previous (change_hashables x)"
    using heads_info [OF ledger_okD(5) [OF assms(1)] Some] .
  ultimately show ?thesis
    using assms(2) ledger_okD(1) [OF assms(1)]
    by (auto simp: process_change_def process_code_def follows_code_def store_simps
        uint256_is_zero_eq Let_def split: if_splits)
qed

text \<open>
  What \<open>process_change\<close> does to a block that passes its checks: the block is stored, and then
  the weight is moved, if it can be.
\<close>

lemma process_change_steps:
  assumes ok: "ledger_ok P s" and hash: "hash_ok P (Change x)"
    and code: "process_code P (view s) (Change x) = progress"
  obtains a i s1 where "mdb_get (heads (view s)) (change_previous (change_hashables x)) = Some a"
    and "a \<noteq> 0" and "mdb_get (infos (view s)) a = Some i"
    and "\<not> validate_message P a (block_hash P (Change x)) (change_signature x)"
    and "blocks (view s) (block_hash P (Change x)) = None"
    and "store_ok s1" and "stored s1 = link (stored s) (block_hash P (Change x)) (Change x)"
    and "view s1 = (view s)\<lparr>blocks := (blocks (view s))(block_hash P (Change x) \<mapsto> Change x)\<rparr>"
    and "process_change P now s x = do {
      s \<leftarrow> move_representation s1 (info_rep_block i) (block_hash P (Change x)) (info_balance i);
      s \<leftarrow> change_latest now s a (block_hash P (Change x)) (block_hash P (Change x)) (info_balance i);
      s \<leftarrow> frontier_del s (change_previous (change_hashables x));
      accepted a (frontier_put s (block_hash P (Change x)) a) }"
proof -
  let ?h = "block_hash P (Change x)" and ?p = "change_previous (change_hashables x)"
  note inv = ledger_okD [OF ok]
  have new: "blocks (view s) ?h = None"
    and follow: "follows_code (view s) ?p (\<lambda>a.
        if validate_message P a ?h (change_signature x) then bad_signature else progress) = progress"
    using code by (simp_all add: process_code_def Let_def split: if_splits)
  obtain a i where a: "mdb_get (heads (view s)) ?p = Some a" "a \<noteq> 0" "blocks (view s) ?p \<noteq> None"
    and i: "mdb_get (infos (view s)) a = Some i" "info_head i = ?p"
    and c: "(if validate_message P a ?h (change_signature x) then bad_signature else progress) = progress"
    by (rule follows_progress [OF inv(5) follow])
  have c: "\<not> validate_message P a ?h (change_signature x)" using c by (auto split: if_splits)
  obtain s1 where s1: "block_put P s ?h (Change x) = Some s1" "store_ok s1"
    "view s1 = (view s)\<lparr>blocks := (blocks (view s))(?h \<mapsto> Change x)\<rparr>"
    "stored s1 = link (stored s) ?h (Change x)"
    using block_put_view [OF inv(1) new refl] a(3) by auto
  have "walkable P s1"
    using s1 hash chain_ok_walkable [OF inv(1,3)] by (auto simp: walkable_def hash_ok_def)
  moreover have "balance_is (genesis_account P) (blocks (view s1)) ?p (info_balance i)"
    using heads_okD(2) [OF inv(5) i(1)] chain_mono(1) map_le_new [of "blocks (view s)" ?h] new i(2)
    by (simp add: s1(3))
  ultimately have "ledger_balance P s1 ?p = Some (info_balance i)"
    by (rule ledger_balance_correct)
  then show ?thesis
    using that [OF a(1,2) i(1) c new s1(2,4,3)] new a i c s1(1) inv(1)
    by (simp add: process_change_def Let_def store_simps uint256_is_zero_eq)
qed

lemma process_change_accepts:
  assumes ok: "ledger_ok P s" and hash: "hash_ok P (Change x)"
    and code: "process_code P (view s) (Change x) = progress"
  shows "if movable (view s) (Change x) then accepts P now s (Change x) (process_change P now s x)
    else process_change P now s x = None"
proof -
  let ?h = "block_hash P (Change x)" and ?p = "change_previous (change_hashables x)"
  let ?rep = "change_representative (change_hashables x)"
  note inv = ledger_okD [OF ok]
  obtain a i s1 where a: "mdb_get (heads (view s)) ?p = Some a" "a \<noteq> 0"
    and i: "mdb_get (infos (view s)) a = Some i"
    and sig: "\<not> validate_message P a ?h (change_signature x)" and new: "blocks (view s) ?h = None"
    and s1: "store_ok s1" "stored s1 = link (stored s) ?h (Change x)"
      "view s1 = (view s)\<lparr>blocks := (blocks (view s))(?h \<mapsto> Change x)\<rparr>"
    and process: "process_change P now s x = do {
      s \<leftarrow> move_representation s1 (info_rep_block i) ?h (info_balance i);
      s \<leftarrow> change_latest now s a ?h ?h (info_balance i);
      s \<leftarrow> frontier_del s ?p;
      accepted a (frontier_put s ?h a) }"
    by (rule process_change_steps [OF ok hash code])
  obtain rb where rb: "blocks (view s) (info_rep_block i) = Some rb" "representative rb \<noteq> 0"
    using info_rep_named [OF inv(2) i] by (auto simp: rep_account_def)
  have src: "blocks (view s1) (info_rep_block i) = Some rb" and dst: "blocks (view s1) ?h = Some (Change x)"
    using rb new by (auto simp: s1(3))
  let ?ok = "?rep \<noteq> 0 \<and> info_balance i \<le> weight_of (weights (view s)) (representative rb)"
  have mov: "movable (view s) (Change x) \<longleftrightarrow> ?ok"
    using a(1) i rb by (simp add: movable_def sender_rep_def rep_account_def)
  show ?thesis
  proof (cases ?ok)
    case False
    then have "move_representation s1 (info_rep_block i) ?h (info_balance i) = None"
      using move_representation_None [OF s1(1) src dst rb(2)] by (simp add: s1(3))
    then show ?thesis using False mov process by auto
  next
    case True
    obtain s2 where s2: "move_representation s1 (info_rep_block i) ?h (info_balance i) = Some s2"
      "store_ok s2" "stored s2 = stored s1" "view s2 = (view s1)\<lparr>weights :=
        move_weight (representative rb) ?rep (info_balance i) (weights (view s))\<rparr>"
      using move_representation_view [OF s1(1) src dst rb(2)] True by (auto simp: s1(3))
    obtain c where check: "check (view s) = Some c" using inv(8) by (simp add: check_ok_def)
    obtain s3 where s3: "change_latest now s2 a ?h ?h (info_balance i) = Some s3" "store_ok s3"
      "stored s3 = stored s2" "view s3 = set_latest now a ?h ?h (info_balance i) (view s2)"
      using change_latest_view [OF s2(2), of c ?h now a ?h "info_balance i"] check hash s2(4) s1(3)
      by (auto simp: hash_ok_def)
    define s4 where "s4 = frontier_put (s3\<lparr>frontiers := mdb_remove (frontiers s3) ?p\<rparr>) ?h a"
    have v4: "view s4 = (extend P now (Change x) a ?h (info_balance i) (view s))
        \<lparr>weights := move_weight (rep_account (blocks (view s)) (info_rep_block i)) ?rep
          (info_balance i) (weights (view s))\<rparr>"
      using s1(3) s2(4) s3(4) rb(1)
      by (simp add: s4_def store_simps extend_def set_latest_def rep_account_def)
    have "process_change P now s x = accepted a s4"
      using process s2(1) s3 a(1) s2(4) s1(3) by (simp add: store_simps s4_def set_latest_def)
    moreover have "ledger_step P now (view s) (Change x) a (view s4)"
      unfolding v4 using True rb(1) by (intro step_change [OF new a sig i]) (simp_all add: rep_account_def)
    moreover have "store_ok s4" "stored s4 = link (stored s) ?h (Change x)"
      using s1 s2 s3 by (simp_all add: s4_def store_simps)
    ultimately show ?thesis using True mov unfolding accepts_def by auto
  qed
qed

lemma takes_progress:
  assumes "pending_ok P v" and "takes_code v src c = progress"
  obtains r j where "mdb_get (receivables v) src = Some r" and "c r = progress"
    and "blocks v src \<noteq> None" and "mdb_get (infos v) (rcv_source r) = Some j"
proof -
  obtain r where r: "mdb_get (receivables v) src = Some r" "c r = progress" "blocks v src \<noteq> None"
    using assms(2) by (auto simp: takes_code_def split: if_splits option.splits)
  moreover obtain j where "mdb_get (infos v) (rcv_source r) = Some j"
    using pending_okD [OF assms(1) r(1)] by (metis not_None_eq)
  ultimately show ?thesis using that by blast
qed

lemma process_receive_rejects:
  assumes "ledger_ok P s" and "process_code P (view s) (Receive x) \<noteq> progress"
  shows "process_receive P now s x = rejected (process_code P (view s) (Receive x)) s"
proof (cases "mdb_get (receivables (view s)) (receive_source (receive_hashables x))")
  case (Some r)
  then show ?thesis
    using assms(2) ledger_okD(1) [OF assms(1)]
    by (cases "mdb_get (infos (view s)) (rcv_destination r)")
      (auto simp: process_receive_def process_code_def takes_code_def store_simps Let_def split: if_splits)
qed (use ledger_okD(1) [OF assms(1)] in
    \<open>simp add: process_receive_def process_code_def takes_code_def store_simps Let_def\<close>)

lemma process_open_rejects:
  assumes "ledger_ok P s" and "process_code P (view s) (Open x) \<noteq> progress"
  shows "process_open P now s x = rejected (process_code P (view s) (Open x)) s"
proof (cases "mdb_get (receivables (view s)) (open_source (open_hashables x))")
  case (Some r)
  then show ?thesis
    using assms(2) ledger_okD(1) [OF assms(1)]
    by (cases "mdb_get (infos (view s)) (rcv_destination r)")
      (auto simp: process_open_def process_code_def takes_code_def store_simps Let_def split: if_splits)
qed (use ledger_okD(1) [OF assms(1)] in
    \<open>simp add: process_open_def process_code_def takes_code_def store_simps Let_def\<close>)

text \<open>
  Taking up a pending amount, shared by receive and open blocks: the pending entry goes, the
  block is stored, and the account's entry is set.
\<close>

lemma take_steps:
  assumes ok: "ledger_ok P s" and hash: "hash_ok P b"
    and new: "blocks (view s) (block_hash P b) = None"
    and prev: "is_Open b \<or> blocks (view s) (previous b) \<noteq> None"
    and r: "mdb_get (receivables (view s)) src = Some r"
  obtains s1 s2 s3 where "pending_del s src = Some s1" and "block_put P s1 (block_hash P b) b = Some s2"
    and "change_latest now s2 a (block_hash P b) rep w = Some s3"
    and "store_ok s3" and "stored s3 = link (stored s) (block_hash P b) b"
    and "view s3 = (set_latest now a (block_hash P b) rep w (view s))
      \<lparr>blocks := (blocks (view s))(block_hash P b \<mapsto> b),
       receivables := mdb_remove (receivables (view s)) src\<rparr>"
proof -
  let ?h = "block_hash P b"
  note inv = ledger_okD [OF ok]
  define s1 where "s1 = s\<lparr>pending := mdb_remove (pending s) src\<rparr>"
  have s1: "pending_del s src = Some s1" "store_ok s1" "stored s1 = stored s"
    "view s1 = (view s)\<lparr>receivables := mdb_remove (receivables (view s)) src\<rparr>"
    using r inv(1) by (simp_all add: s1_def store_simps)
  obtain s2 where s2: "block_put P s1 ?h b = Some s2" "store_ok s2"
    "view s2 = (view s1)\<lparr>blocks := (blocks (view s1))(?h \<mapsto> b)\<rparr>"
    "stored s2 = link (stored s1) ?h b"
    using block_put_view [OF s1(2), of ?h P b] new prev by (auto simp: s1(4))
  obtain c where check: "check (view s) = Some c" using inv(8) by (simp add: check_ok_def)
  obtain s3 where s3: "change_latest now s2 a ?h rep w = Some s3" "store_ok s3"
    "stored s3 = stored s2" "view s3 = set_latest now a ?h rep w (view s2)"
    using change_latest_view [OF s2(2), of c ?h now a rep w] check hash s1(4) s2(3)
    by (auto simp: hash_ok_def)
  show ?thesis
    using that [OF s1(1) s2(1) s3(1,2)] s3(3,4) s2(3,4) s1(3,4) by (simp add: set_latest_def)
qed

lemma process_receive_accepts:
  assumes ok: "ledger_ok P s" and hash: "hash_ok P (Receive x)"
    and code: "process_code P (view s) (Receive x) = progress"
  shows "if movable (view s) (Receive x) then accepts P now s (Receive x) (process_receive P now s x)
    else process_receive P now s x = None"
proof -
  let ?h = "block_hash P (Receive x)" and ?p = "receive_previous (receive_hashables x)"
  let ?s = "receive_source (receive_hashables x)"
  note inv = ledger_okD [OF ok]
  have new: "blocks (view s) ?h = None"
    using code by (auto simp: process_code_def Let_def split: if_splits)
  then have take: "takes_code (view s) ?s (\<lambda>r.
        if validate_message P (rcv_destination r) ?h (receive_signature x) then bad_signature
        else case mdb_get (infos (view s)) (rcv_destination r) of None \<Rightarrow> gap_previous
        | Some i \<Rightarrow> if info_head i = ?p then progress
            else if blocks (view s) ?p \<noteq> None then fork else gap_previous) = progress"
    using code by (simp only: process_code_def Let_def block.case previous.simps source.simps
        simp_thms if_False)
  obtain r j where r: "mdb_get (receivables (view s)) ?s = Some r" "blocks (view s) ?s \<noteq> None"
    and j: "mdb_get (infos (view s)) (rcv_source r) = Some j"
    and c: "(if validate_message P (rcv_destination r) ?h (receive_signature x) then bad_signature
        else case mdb_get (infos (view s)) (rcv_destination r) of None \<Rightarrow> gap_previous
        | Some i \<Rightarrow> if info_head i = ?p then progress
            else if blocks (view s) ?p \<noteq> None then fork else gap_previous) = progress"
    by (rule takes_progress [OF inv(6) take])
  let ?d = "rcv_destination r"
  obtain i where sig: "\<not> validate_message P ?d ?h (receive_signature x)"
    and i: "mdb_get (infos (view s)) ?d = Some i" "info_head i = ?p"
    using c by (auto split: if_splits option.splits)
  note hd = heads_okD [OF inv(5) i(1), unfolded i(2)]
  let ?w = "info_balance i + rcv_amount r"
  obtain s1 s2 s3 where s: "pending_del s ?s = Some s1" "block_put P s1 ?h (Receive x) = Some s2"
    "change_latest now s2 ?d ?h (info_rep_block i) ?w = Some s3"
    and s3: "store_ok s3" "stored s3 = link (stored s) ?h (Receive x)"
    "view s3 = (set_latest now ?d ?h (info_rep_block i) ?w (view s))
      \<lparr>blocks := (blocks (view s))(?h \<mapsto> Receive x),
       receivables := mdb_remove (receivables (view s)) ?s\<rparr>"
    by (rule take_steps [OF ok hash new _ r(1)]) (use hd(5) in simp)
  have process: "process_receive P now s x = do {
      s \<leftarrow> move_representation s3 (info_rep_block j) (info_rep_block i) (rcv_amount r);
      s \<leftarrow> frontier_del s ?p;
      accepted ?d (frontier_put s ?h ?d) }"
    using new r sig i j hd(1) s inv(1)
    by (simp add: process_receive_def Let_def account_get_view pending_get_view frontier_get_view
        block_exists_view)
  obtain jb ib where jb: "blocks (view s) (info_rep_block j) = Some jb" "representative jb \<noteq> 0"
    and ib: "blocks (view s) (info_rep_block i) = Some ib" "representative ib \<noteq> 0"
    using info_rep_named [OF inv(2) j] info_rep_named [OF inv(2) i(1)] by (auto simp: rep_account_def)
  have src: "blocks (view s3) (info_rep_block j) = Some jb"
    and dst: "blocks (view s3) (info_rep_block i) = Some ib"
    using jb ib new by (auto simp: s3(3))
  have w3: "weights (view s3) = weights (view s)" by (simp add: s3(3) set_latest_def)
  have mov: "movable (view s) (Receive x) \<longleftrightarrow>
      rcv_amount r \<le> weight_of (weights (view s)) (representative jb)"
    using r(1) j jb by (simp add: movable_def sender_rep_def rep_account_def)
  show ?thesis
  proof (cases "movable (view s) (Receive x)")
    case False
    then show ?thesis
      using move_representation_None [OF s3(1) src dst jb(2)] process mov w3 by simp
  next
    case True
    obtain s4 where s4: "move_representation s3 (info_rep_block j) (info_rep_block i) (rcv_amount r) = Some s4"
      "store_ok s4" "stored s4 = stored s3" "view s4 = (view s3)\<lparr>weights :=
        move_weight (representative jb) (representative ib) (rcv_amount r) (weights (view s))\<rparr>"
      using move_representation_view [OF s3(1) src dst jb(2) ib(2)] True by (auto simp: mov w3)
    define s5 where "s5 = frontier_put (s4\<lparr>frontiers := mdb_remove (frontiers s4) ?p\<rparr>) ?h ?d"
    have v5: "view s5 = (extend P now (Receive x) ?d (info_rep_block i) ?w (view s))
        \<lparr>receivables := mdb_remove (receivables (view s)) ?s,
         weights := move_weight (rep_account (blocks (view s)) (info_rep_block j))
           (rep_account (blocks (view s)) (info_rep_block i)) (rcv_amount r) (weights (view s))\<rparr>"
      using s3(3) s4(4) jb(1) ib(1)
      by (simp add: s5_def store_simps extend_def set_latest_def rep_account_def)
    have "process_receive P now s x = accepted ?d s5"
      using process s4 s3(3) hd(1) by (simp add: store_simps s5_def set_latest_def)
    moreover have "ledger_step P now (view s) (Receive x) ?d (view s5)"
      unfolding v5 using True mov jb(1)
      by (intro step_receive [OF new r(1) sig i j]) (simp add: rep_account_def)
    moreover have "store_ok s5" "stored s5 = link (stored s) ?h (Receive x)"
      using s3 s4 by (simp_all add: s5_def store_simps)
    ultimately show ?thesis using True unfolding accepts_def by auto
  qed
qed

lemma process_open_accepts:
  assumes ok: "ledger_ok P s" and hash: "hash_ok P (Open x)"
    and code: "process_code P (view s) (Open x) = progress"
  shows "if movable (view s) (Open x) then accepts P now s (Open x) (process_open P now s x)
    else process_open P now s x = None"
proof -
  let ?h = "block_hash P (Open x)" and ?s = "open_source (open_hashables x)"
  let ?rep = "open_representative (open_hashables x)"
  note inv = ledger_okD [OF ok]
  have new: "blocks (view s) ?h = None"
    and take: "takes_code (view s) ?s (\<lambda>r.
        if rcv_destination r \<noteq> open_account (open_hashables x) then account_mismatch
        else if validate_message P (rcv_destination r) ?h (open_signature x) then bad_signature
        else if mdb_get (infos (view s)) (rcv_destination r) \<noteq> None then fork else progress) = progress"
    using code by (simp_all add: process_code_def Let_def split: if_splits)
  obtain r j where r: "mdb_get (receivables (view s)) ?s = Some r" "blocks (view s) ?s \<noteq> None"
    and j: "mdb_get (infos (view s)) (rcv_source r) = Some j"
    and c: "(if rcv_destination r \<noteq> open_account (open_hashables x) then account_mismatch
        else if validate_message P (rcv_destination r) ?h (open_signature x) then bad_signature
        else if mdb_get (infos (view s)) (rcv_destination r) \<noteq> None then fork else progress) = progress"
    by (rule takes_progress [OF inv(6) take])
  let ?d = "rcv_destination r"
  have dest: "?d = open_account (open_hashables x)"
    and sig: "\<not> validate_message P ?d ?h (open_signature x)"
    and i: "mdb_get (infos (view s)) ?d = None"
    using c by (auto split: if_splits)
  obtain s1 s2 s3 where s: "pending_del s ?s = Some s1" "block_put P s1 ?h (Open x) = Some s2"
    "change_latest now s2 ?d ?h ?h (rcv_amount r) = Some s3"
    and s3: "store_ok s3" "stored s3 = link (stored s) ?h (Open x)"
    "view s3 = (set_latest now ?d ?h ?h (rcv_amount r) (view s))
      \<lparr>blocks := (blocks (view s))(?h \<mapsto> Open x),
       receivables := mdb_remove (receivables (view s)) ?s\<rparr>"
    by (rule take_steps [OF ok hash new _ r(1)]) simp
  have process: "process_open P now s x = do {
      s \<leftarrow> move_representation s3 (info_rep_block j) ?h (rcv_amount r);
      accepted ?d (frontier_put s ?h ?d) }"
    using new r sig i j s inv(1) dest
    by (simp add: process_open_def Let_def account_get_view pending_get_view block_exists_view)
  obtain jb where jb: "blocks (view s) (info_rep_block j) = Some jb" "representative jb \<noteq> 0"
    using info_rep_named [OF inv(2) j] by (auto simp: rep_account_def)
  have src: "blocks (view s3) (info_rep_block j) = Some jb" and dst: "blocks (view s3) ?h = Some (Open x)"
    using jb new by (auto simp: s3(3))
  have w3: "weights (view s3) = weights (view s)" by (simp add: s3(3) set_latest_def)
  have mov: "movable (view s) (Open x) \<longleftrightarrow>
      ?rep \<noteq> 0 \<and> rcv_amount r \<le> weight_of (weights (view s)) (representative jb)"
    using r(1) j jb by (simp add: movable_def sender_rep_def rep_account_def)
  show ?thesis
  proof (cases "movable (view s) (Open x)")
    case False
    then show ?thesis
      using move_representation_None [OF s3(1) src dst jb(2)] process mov w3 by auto
  next
    case True
    obtain s4 where s4: "move_representation s3 (info_rep_block j) ?h (rcv_amount r) = Some s4"
      "store_ok s4" "stored s4 = stored s3" "view s4 = (view s3)\<lparr>weights :=
        move_weight (representative jb) ?rep (rcv_amount r) (weights (view s))\<rparr>"
      using move_representation_view [OF s3(1) src dst jb(2)] True by (auto simp: mov w3)
    define s5 where "s5 = frontier_put s4 ?h ?d"
    have no0: "mdb_get (heads (view s)) 0 = None"
      using heads_info [OF inv(5), of 0] heads_okD(5) [OF inv(5)] chain_okD(2) [OF inv(3)]
      by (metis not_None_eq)
    have v5: "view s5 = (extend P now (Open x) ?d ?h (rcv_amount r) (view s))
        \<lparr>receivables := mdb_remove (receivables (view s)) ?s,
         weights := move_weight (rep_account (blocks (view s)) (info_rep_block j)) ?rep
           (rcv_amount r) (weights (view s))\<rparr>"
      using s3(3) s4(4) jb(1) tbl.remove_absent [OF no0]
      by (simp add: s5_def store_simps extend_def set_latest_def rep_account_def)
    have "process_open P now s x = accepted ?d s5" using process s4 by (simp add: s5_def)
    moreover have "ledger_step P now (view s) (Open x) ?d (view s5)"
      unfolding v5 using True mov jb(1)
      by (intro step_open [OF new r(1) dest sig i _ j]) (simp_all add: rep_account_def)
    moreover have "store_ok s5" "stored s5 = link (stored s) ?h (Open x)"
      using s3 s4 by (simp_all add: s5_def store_simps)
    ultimately show ?thesis using True unfolding accepts_def by auto
  qed
qed

lemma process_rejects:
  "ledger_ok P s \<Longrightarrow> process_code P (view s) b \<noteq> progress \<Longrightarrow>
   process P now s b = rejected (process_code P (view s) b) s"
  by (cases b) (simp_all add: process_def process_send_rejects process_receive_rejects
      process_open_rejects process_change_rejects)

lemma process_accepts:
  assumes "ledger_ok P s" and "hash_ok P b" and "process_code P (view s) b = progress"
  shows "if movable (view s) b then accepts P now s b (process P now s b) else process P now s b = None"
  using assms process_send_accepts process_receive_accepts process_open_accepts process_change_accepts
  by (cases b) (auto simp: process_def movable_def)

end
