(* ===== verification/Ledger_History.thy ===== *)
theory Ledger_History
  imports Ledger_Refine
begin

text \<open>
  Ledgers as the program builds them: a new store, the genesis, then any blocks in any order
  at any times. \<open>ledger_history\<close> is the store after such a sequence. The interface
  \<open>block_processor\<close> is what a client of \<open>ledger::process\<close> relies on; every state of a history
  satisfies the invariant by its one lemma about sequences.
\<close>

section \<open>Sequences of blocks\<close>

fun process_all :: "('t \<Rightarrow> 's \<Rightarrow> 'b \<Rightarrow> ('r \<times> 's) exec) \<Rightarrow> 's \<Rightarrow> ('t \<times> 'b) list \<Rightarrow> 's exec" where
  "process_all f s [] = Some s"
| "process_all f s ((t, b) # es) = do { (r, s) \<leftarrow> f t s b; process_all f s es }"

locale block_processor =
  fixes proc :: "'t \<Rightarrow> 's \<Rightarrow> 'b \<Rightarrow> ('r \<times> 's) exec"
    and ok :: "'s \<Rightarrow> bool"
    and admissible :: "'b \<Rightarrow> bool"
  assumes keeps: "ok s \<Longrightarrow> admissible b \<Longrightarrow> proc t s b = Some (r, s') \<Longrightarrow> ok s'"
begin

lemma process_all_ok:
  "ok s \<Longrightarrow> list_all (\<lambda>e. admissible (snd e)) es \<Longrightarrow> process_all proc s es = Some s' \<Longrightarrow> ok s'"
proof (induction es arbitrary: s)
  case (Cons e es)
  then show ?case by (cases e) (auto simp: bind_eq_Some_conv intro: keeps)
qed simp

end

section \<open>Processing one block\<close>

text \<open>The successor recorded with a block is the block that follows it, zero while none does.\<close>

definition successors_ok :: "(block_hash \<Rightarrow> block option) \<Rightarrow> (block_hash \<Rightarrow> (block \<times> block_hash) option) \<Rightarrow> bool" where
  "successors_ok m st \<longleftrightarrow>
     (\<forall>h b n. st h = Some (b, n) \<longrightarrow>
        (if n = 0 then \<forall>k c. m k = Some c \<longrightarrow> previous c \<noteq> h
         else \<exists>c. m n = Some c \<and> previous c = h))"

text \<open>
  \<open>chain_is m h hs\<close>: the walk from \<open>h\<close> along \<open>previous\<close> visits the blocks \<open>hs\<close> and ends at an
  open block. Every stored block has such a chain, all of one account, and is the head of
  an account or has a block after it.
\<close>

inductive chain_is :: "(block_hash \<Rightarrow> block option) \<Rightarrow> block_hash \<Rightarrow> block_hash list \<Rightarrow> bool"
  for m :: "block_hash \<Rightarrow> block option" where
  chain_open: "m h = Some (Open x) \<Longrightarrow> chain_is m h [h]"
| chain_next: "m h = Some b \<Longrightarrow> \<not> is_Open b \<Longrightarrow> chain_is m (previous b) hs \<Longrightarrow> chain_is m h (h # hs)"

inductive_cases chain_isE: "chain_is m h hs"

lemma chain_is_mono: "chain_is m h hs \<Longrightarrow> m \<subseteq>\<^sub>m m' \<Longrightarrow> chain_is m' h hs"
  by (induction rule: chain_is.induct) (auto dest: map_le_Some intro: chain_is.intros)

lemma chain_is_stored: "chain_is m h hs \<Longrightarrow> h \<in> set hs \<and> (\<forall>k \<in> set hs. m k \<noteq> None)"
  by (induction rule: chain_is.induct) auto

definition chains_ok :: "ledger_view \<Rightarrow> bool" where
  "chains_ok v \<longleftrightarrow>
     (\<forall>h b. blocks v h = Some b \<longrightarrow>
        (\<exists>hs a. chain_is (blocks v) h hs \<and> (\<forall>k \<in> set hs. account_is (blocks v) k a)) \<and>
        (mdb_get (heads v) h \<noteq> None \<or> (\<exists>k c. blocks v k = Some c \<and> previous c = h))) \<and>
     (\<forall>h r. mdb_get (receivables v) h = Some r \<longrightarrow> rcv_source r \<noteq> 0)"

definition node_ok :: "platform \<Rightarrow> block_store \<Rightarrow> bool" where
  "node_ok P s \<longleftrightarrow>
     ledger_ok P s \<and> successors_ok (blocks (view s)) (stored s) \<and> chains_ok (view s)"

lemma accepts_ledger_ok:
  assumes "ledger_ok P s" and "hash_ok P b" and "accepts P now s b result"
  obtains a s' where "result = accepted a s'" and "ledger_ok P s'"
    and "ledger_step P now (view s) b a (view s')"
    and "stored s' = link (stored s) (block_hash P b) b"
  using assms ledger_step_inv unfolding accepts_def ledger_ok_def by blast

lemma blocks_stored: "store_ok s \<Longrightarrow> blocks (view s) h = map_option fst (stored s h)"
  by (simp add: view_def blocks_of_stored store_ok_def)

lemma step_stored_previous:
  assumes "ledger_ok P s" and "ledger_step P now (view s) b a v'"
  shows "blocks (view s) (block_hash P b) = None"
    and "is_Open b \<or> (blocks (view s) (previous b) \<noteq> None \<and> mdb_get (heads (view s)) (previous b) = Some a)"
  using assms(2) heads_okD [OF ledger_okD(5) [OF assms(1)]] heads_info [OF ledger_okD(5) [OF assms(1)]]
  by (cases; simp; metis)+

lemma step_view:
  assumes "ledger_step P now v b a v'"
  shows "blocks v' = (blocks v)(block_hash P b \<mapsto> b)"
    and "heads v' = mdb_put (mdb_remove (heads v) (previous b)) (block_hash P b) a"
  using assms by (cases; simp add: extend_def set_latest_def)+

lemma step_chains_ok:
  assumes ok: "chains_ok v" and heads: "heads_ok P v"
    and step: "ledger_step P now v b a v'" and new: "blocks v (block_hash P b) = None"
    and prev: "is_Open b \<or> (blocks v (previous b) \<noteq> None \<and> mdb_get (heads v) (previous b) = Some a)"
    and heads': "heads_ok P v'"
  shows "chains_ok v'"
proof -
  let ?h = "block_hash P b" and ?m = "blocks v" and ?m' = "blocks v'"
  have "mdb_get (heads v') ?h = Some a" by (simp add: step_view(2) [OF step])
  then obtain j where j: "mdb_get (infos v') a = Some j" "info_head j = ?h"
    by (rule heads_info [OF heads'])
  have acc: "account_is ?m' ?h a" using heads_okD(3) [OF heads' j(1)] j(2) by simp
  have m': "?m' = ?m(?h \<mapsto> b)" by (rule step_view(1) [OF step])
  have le: "?m \<subseteq>\<^sub>m ?m'" unfolding m' using new by (rule map_le_new)
  have old: "\<exists>hs c. chain_is ?m' k hs \<and> (\<forall>j \<in> set hs. account_is ?m' j c)" if "?m k \<noteq> None" for k
  proof -
    obtain hs c where "chain_is ?m k hs" "\<forall>j \<in> set hs. account_is ?m j c"
      using ok \<open>?m k \<noteq> None\<close> unfolding chains_ok_def by blast
    then show ?thesis using chain_is_mono [OF _ le] account_is_mono [OF _ le] by blast
  qed
  have "\<exists>hs c. chain_is ?m' ?h hs \<and> (\<forall>j \<in> set hs. account_is ?m' j c)"
  proof (cases "is_Open b")
    case True
    then obtain x where "?m' ?h = Some (Open x)" by (cases b) (simp_all add: m')
    then have "chain_is ?m' ?h [?h]" by (rule chain_open)
    moreover have "\<forall>j \<in> set [?h]. account_is ?m' j a" using acc by simp
    ultimately show ?thesis by blast
  next
    case False
    then obtain hs c where hs: "chain_is ?m' (previous b) hs" "\<forall>j \<in> set hs. account_is ?m' j c"
      using old prev by blast
    have "mdb_get (heads v) (previous b) = Some a" using prev False by simp
    then obtain i where i: "mdb_get (infos v) a = Some i" "info_head i = previous b"
      by (rule heads_info [OF heads])
    have "account_is ?m' (previous b) a"
      using account_is_mono [OF heads_okD(3) [OF heads i(1)] le] i(2) by simp
    then have "c = a" using hs(2) chain_is_stored [OF hs(1)] account_is_fun by blast
    then have "\<forall>j \<in> set (?h # hs). account_is ?m' j a" using hs(2) acc by simp
    moreover have "chain_is ?m' ?h (?h # hs)" using hs(1) False by (intro chain_next) (simp_all add: m')
    ultimately show ?thesis by blast
  qed
  then have chain: "\<exists>hs c. chain_is ?m' k hs \<and> (\<forall>j \<in> set hs. account_is ?m' j c)" if "?m' k \<noteq> None" for k
    using old that by (cases "k = ?h") (simp_all add: m')
  have tip: "mdb_get (heads v') k \<noteq> None \<or> (\<exists>j c. ?m' j = Some c \<and> previous c = k)"
    if k: "?m' k \<noteq> None" for k
  proof (cases "k = ?h \<or> k = previous b")
    case True
    then show ?thesis using step_view(2) [OF step] m' by auto
  next
    case False
    then have "mdb_get (heads v) k \<noteq> None \<or> (\<exists>j c. ?m j = Some c \<and> previous c = k)"
      using ok k unfolding chains_ok_def m' by auto
    moreover have "mdb_get (heads v') k = mdb_get (heads v) k"
      using False by (simp add: step_view(2) [OF step])
    ultimately show ?thesis using map_le_Some [OF le] by metis
  qed
  have senders: "\<forall>k r. mdb_get (receivables v') k = Some r \<longrightarrow> rcv_source r \<noteq> 0"
    using step ok unfolding chains_ok_def by cases (auto simp: extend_def set_latest_def split: if_splits)
  show ?thesis unfolding chains_ok_def using chain tip senders by (intro allI impI conjI) simp_all
qed

lemma link_cases:
  assumes "link st h b k = Some (c, n)"
  obtains "k = previous b" "n = h" "\<not> is_Open b" | "k = h" "n = 0" | "k \<noteq> h" "st k = Some (c, n)"
    "is_Open b \<or> k \<noteq> previous b"
  using assms that by (auto simp: link_def split: if_splits)

lemma link_successors_ok:
  assumes ok: "successors_ok m st" and h: "h \<noteq> 0" and new: "m h = None"
    and refs: "\<And>k c. m k = Some c \<Longrightarrow> previous c \<noteq> h" "previous b \<noteq> h"
    and open0: "is_Open b \<Longrightarrow> st 0 = None"
  shows "successors_ok (m(h \<mapsto> b)) (link st h b)"
  unfolding successors_ok_def
proof (intro allI impI)
  fix k c n
  assume "link st h b k = Some (c, n)"
  then show "if n = 0 then \<forall>j d. (m(h \<mapsto> b)) j = Some d \<longrightarrow> previous d \<noteq> k
      else \<exists>d. (m(h \<mapsto> b)) n = Some d \<and> previous d = k"
  proof (cases rule: link_cases)
    case 3
    have "previous b \<noteq> k"
      using 3(2,3) open0 by (cases b) auto
    moreover have "if n = 0 then \<forall>k' c. m k' = Some c \<longrightarrow> previous c \<noteq> k
        else \<exists>c. m n = Some c \<and> previous c = k"
      using ok 3(2) unfolding successors_ok_def by blast
    ultimately show ?thesis using new by (auto split: if_splits)
  qed (use h refs in auto)
qed

text \<open>One block keeps everything that holds of the node's store.\<close>

lemma accepts_node_ok:
  assumes ok: "node_ok P s" and hash: "hash_ok P b" and acc: "accepts P now s b (accepted a s')"
  shows "node_ok P s'"
proof -
  have lok: "ledger_ok P s" and suc: "successors_ok (blocks (view s)) (stored s)"
    and chains: "chains_ok (view s)"
    using ok by (simp_all add: node_ok_def)
  note inv = ledger_okD [OF lok]
  obtain a' where step: "ledger_step P now (view s) b a' (view s')" and lok': "ledger_ok P s'"
    and st: "stored s' = link (stored s) (block_hash P b) b"
    using accepts_ledger_ok [OF lok hash acc] by (auto simp: accepted_def)
  have new: "blocks (view s) (block_hash P b) = None" by (rule step_stored_previous(1) [OF lok step])
  have h0: "block_hash P b \<noteq> 0" using hash by (simp add: hash_ok_def)
  have "previous b \<noteq> block_hash P b"
    using step_stored_previous(2) [OF lok step] new h0 by (cases b) auto
  moreover have "stored s 0 = None"
    using chain_okD(2) [OF inv(3)] blocks_stored [OF inv(1), of 0] by (cases "stored s 0") auto
  moreover have "blocks (view s') = (blocks (view s))(block_hash P b \<mapsto> b)"
    by (rule step_view(1) [OF step])
  ultimately have "successors_ok (blocks (view s')) (stored s')"
    unfolding st using link_successors_ok [OF suc h0 new] previous_not_new [OF inv(3) _ new h0] by metis
  moreover have "chains_ok (view s')"
    by (rule step_chains_ok [OF chains inv(5) step new step_stored_previous(2) [OF lok step]
        ledger_okD(5) [OF lok']])
  ultimately show ?thesis using lok' by (simp add: node_ok_def)
qed

lemma process_node_ok:
  assumes "node_ok P s" and "hash_ok P b" and "process P now s b = Some (r, s')"
  shows "node_ok P s'"
proof (cases "process_code P (view s) b = progress")
  case True
  then have "accepts P now s b (Some (r, s'))"
    using process_accepts [OF _ assms(2) True, where now = now] assms by (auto simp: node_ok_def split: if_splits)
  then show ?thesis
    using accepts_node_ok [OF assms(1,2)] unfolding accepts_def accepted_def by (metis option.inject prod.inject)
next
  case False
  then have "s' = s"
    using process_rejects [OF _ False, where now = now] assms by (simp add: node_ok_def rejected_def)
  then show ?thesis using assms(1) by simp
qed

interpretation processor: block_processor "process P" "node_ok P" "hash_ok P"
  by unfold_locales (rule process_node_ok)

section \<open>The genesis\<close>

definition empty_view :: ledger_view where
  "empty_view = \<lparr>blocks = (\<lambda>h. None), infos = mdb_empty, heads = mdb_empty,
     receivables = mdb_empty, weights = mdb_empty, check = Some 0\<rparr>"

lemma block_get_raw_empty: "block_get_raw empty_store h = ([], None)"
  by (simp add: block_get_raw_def empty_store_def)

lemma empty_store_view:
  obtains s where "block_store_open empty_store = Some s" and "store_ok s" and "view s = empty_view"
    and "stored s = (\<lambda>h. None)" and "latest_begin s = latest_end"
proof -
  obtain s where s: "block_store_open empty_store = Some s"
    "view s = (view empty_store)\<lparr>check := Some 0\<rparr>" "store_ok empty_store \<longrightarrow> store_ok s"
    using checksum_view(2) [of empty_store 0] by (auto simp: block_store_open_def)
  have "store_ok empty_store"
    by (simp add: store_ok_def blocks_ok_def empty_store_def disjoint_keys_iff)
  moreover have "view empty_store = empty_view\<lparr>check := None\<rparr>"
    by (simp add: view_def empty_view_def blocks_of_def block_get_def block_get_raw_empty check_of_def
        fun_eq_iff) (simp add: empty_store_def)
  moreover have "stored s = stored empty_store"
    using s(1) by (auto simp: block_store_open_def checksum_put_def store_simps)
  then have "stored s = (\<lambda>h. None)" by (simp add: stored_def block_get_raw_empty fun_eq_iff)
  moreover have "latest_begin s = latest_end"
    using s(1) by (auto simp: block_store_open_def checksum_put_def empty_store_def
        latest_begin_def latest_end_def iterator_begin_def iterator_end_def mdb_first_def)
  ultimately show ?thesis using that s by (simp add: empty_view_def)
qed

definition genesis_view :: "platform \<Rightarrow> uint64 \<Rightarrow> ledger_view" where
  "genesis_view P now =
     (let G = genesis_account P; h = genesis_hash P in
      \<lparr>blocks = (\<lambda>k. None)(h \<mapsto> Open (genesis_open P)),
       infos = mdb_put mdb_empty G
         \<lparr>info_head = h, info_rep_block = h, info_balance = genesis_amount, info_modified = now\<rparr>,
       heads = mdb_put mdb_empty h G, receivables = mdb_empty,
       weights = mdb_put mdb_empty G genesis_amount, check = Some h\<rparr>)"

lemma genesis_open_simps [simp]:
  "open_source (open_hashables (genesis_open P)) = genesis_account P"
  "open_account (open_hashables (genesis_open P)) = genesis_account P"
  "open_representative (open_hashables (genesis_open P)) = genesis_account P"
  by (simp_all add: genesis_open_def make_open_unsigned_def)

lemma mdb_single:
  "mdb_sum f (mdb_put mdb_empty k v) = f k v"
  "mdb_xor g (mdb_put mdb_empty k v) = g k v"
  by (simp_all add: mdb_sum_def mdb_xor_def)

lemma genesis_inv:
  assumes "genesis_account P \<noteq> 0" and "hash_ok P (Open (genesis_open P))"
  shows "ledger_inv P (genesis_view P now)"
proof -
  let ?v = "genesis_view P now" and ?G = "genesis_account P" and ?h = "genesis_hash P"
  have h: "?h \<noteq> 0" "?h \<noteq> ?G" using assms(2) by (simp_all add: hash_ok_def genesis_hash_def)
  have at: "blocks ?v ?h = Some (Open (genesis_open P))" by (simp add: genesis_view_def Let_def)
  have only: "blocks ?v k = Some b \<longleftrightarrow> k = ?h \<and> b = Open (genesis_open P)" for k b
    by (auto simp: genesis_view_def Let_def)
  have bal: "balance_is ?G (blocks ?v) ?h genesis_amount"
    using at amt_genesis [of ?G "blocks ?v"]
    by (intro balance_is_amount_is.bal_open [of _ _ "genesis_open P"]) simp_all
  have acc: "account_is (blocks ?v) ?h ?G"
    using account_is.acc_open [of "blocks ?v" ?h "genesis_open P"] at by simp
  have rep: "rep_is (blocks ?v) ?h ?h" using at by (rule rep_is.rep_open)
  have "chain_ok P (blocks ?v)"
    unfolding chain_ok_def only using h assms(1) by (auto simp: genesis_hash_def)
  moreover have "no_fork (blocks ?v)" "signed_ok P (blocks ?v)"
    unfolding no_fork_def signed_ok_def only by auto
  moreover have "walks_ok P (blocks ?v)"
    unfolding walks_ok_def only using bal acc rep by auto
  moreover have "heads_ok P ?v"
    unfolding heads_ok_def only using bal acc rep h by (auto simp: genesis_view_def Let_def split: if_splits)
  moreover have "pending_ok P ?v"
    unfolding pending_ok_def only by (auto simp: genesis_view_def Let_def)
  moreover have "totals_ok ?v" "check_ok ?v"
    by (simp_all add: totals_ok_def total_balance_def total_pending_def total_weight_def check_ok_def
        genesis_view_def Let_def mdb_single)
  ultimately show ?thesis by (simp add: ledger_inv_def)
qed

lemma genesis_chains_ok: "chains_ok (genesis_view P now)"
proof -
  let ?m = "blocks (genesis_view P now)" and ?h = "genesis_hash P"
  have at: "?m ?h = Some (Open (genesis_open P))" by (simp add: genesis_view_def Let_def)
  have "chain_is ?m ?h [?h]" using at by (rule chain_open)
  moreover have "account_is ?m ?h (genesis_account P)"
    using acc_open [of ?m ?h "genesis_open P"] at by simp
  moreover have "mdb_get (heads (genesis_view P now)) ?h \<noteq> None" by (simp add: genesis_view_def Let_def)
  moreover have "h = ?h" if "?m h = Some b" for h b
    using that by (simp add: genesis_view_def Let_def split: if_splits)
  moreover have "receivables (genesis_view P now) = mdb_empty" by (simp add: genesis_view_def Let_def)
  ultimately show ?thesis unfolding chains_ok_def by fastforce
qed

lemma genesis_initialize_ok:
  assumes "genesis_account P \<noteq> 0" and "hash_ok P (Open (genesis_open P))"
  obtains s0 s where "block_store_open empty_store = Some s0"
    and "genesis_initialize P now s0 = Some s" and "node_ok P s" and "view s = genesis_view P now"
proof -
  let ?h = "genesis_hash P" and ?G = "genesis_account P" and ?b = "Open (genesis_open P)"
  obtain s0 where s0: "block_store_open empty_store = Some s0" "store_ok s0" "view s0 = empty_view"
    "stored s0 = (\<lambda>h. None)" "latest_begin s0 = latest_end"
    using empty_store_view .
  obtain s1 where s1: "block_put P s0 ?h ?b = Some s1" "store_ok s1"
    "view s1 = (view s0)\<lparr>blocks := (blocks (view s0))(?h \<mapsto> ?b)\<rparr>"
    "stored s1 = link (stored s0) ?h ?b"
    by (rule block_put_view [OF s0(2), of ?h P ?b]) (simp_all add: s0(3) empty_view_def genesis_hash_def)
  define i where "i = \<lparr>info_head = ?h, info_rep_block = ?h, info_balance = - 1, info_modified = now\<rparr>"
  define s2 where "s2 = representation_put (account_put s1 ?G i) ?G (- 1)"
  obtain s3 where s3: "checksum_put s2 0 0 ?h = Some s3" "view s3 = (view s2)\<lparr>check := Some ?h\<rparr>"
    "store_ok s2 \<longrightarrow> store_ok s3"
    using checksum_view(2) [of s2 ?h] by blast
  define s4 where "s4 = frontier_put s3 ?h ?G"
  have init: "genesis_initialize P now s0 = Some s4"
    using s0(5) s1(1) s3(1)
    by (simp add: genesis_initialize_def Let_def genesis_hash_def [symmetric] s4_def s2_def i_def)
  have v4: "view s4 = genesis_view P now"
    using s1(3) s3(2) s0(3)
    by (simp add: s4_def s2_def i_def store_simps genesis_view_def empty_view_def Let_def
        genesis_amount_def)
  have st: "stored s4 = (\<lambda>h. None)(?h \<mapsto> (?b, 0))"
  proof -
    have "stored s3 = stored s2" using s3(1) by (auto simp: checksum_put_def store_simps)
    then show ?thesis using s1(4) s0(4) by (simp add: s4_def s2_def store_simps link_def)
  qed
  have "?h \<noteq> 0" using assms(2) by (simp add: hash_ok_def genesis_hash_def)
  then have "successors_ok (blocks (view s4)) (stored s4)"
    by (simp add: st v4 successors_ok_def genesis_view_def Let_def)
  moreover have "store_ok s4" using s1(2) s3(3) by (simp add: s4_def s2_def store_simps)
  moreover have "chains_ok (view s4)" unfolding v4 by (rule genesis_chains_ok)
  ultimately show ?thesis
    using that s0(1) init v4 genesis_inv [OF assms] by (simp add: node_ok_def ledger_ok_def)
qed

section \<open>Histories\<close>

definition ledger_history ::
  "platform \<Rightarrow> uint64 \<Rightarrow> (uint64 \<times> block) list \<Rightarrow> block_store exec" where
  "ledger_history P now es = do {
     s \<leftarrow> block_store_open empty_store;
     s \<leftarrow> genesis_initialize P now s;
     process_all (process P) s es
   }"

text \<open>
  The network has a genesis account (the live network's key is a placeholder), and no block
  hashes to zero or to the genesis account's number.
\<close>

definition history_ok :: "platform \<Rightarrow> (uint64 \<times> block) list \<Rightarrow> bool" where
  "history_ok P es \<longleftrightarrow>
     genesis_account P \<noteq> 0 \<and> hash_ok P (Open (genesis_open P)) \<and> list_all (\<lambda>e. hash_ok P (snd e)) es"

lemma ledger_history_ok:
  assumes "history_ok P es" and "ledger_history P now es = Some s"
  shows "node_ok P s"
proof -
  obtain s0 s1 where "block_store_open empty_store = Some s0" "genesis_initialize P now s0 = Some s1"
    and ok: "node_ok P s1"
    using genesis_initialize_ok assms(1) unfolding history_ok_def by metis
  then have "process_all (process P) s1 es = Some s" using assms(2) by (simp add: ledger_history_def)
  then show ?thesis
    using processor.process_all_ok [OF ok, of es] assms(1) by (simp add: history_ok_def)
qed

lemma ledger_history_inv:
  assumes "history_ok P es" and "ledger_history P now es = Some s"
  shows "store_ok s" and "ledger_inv P (view s)" and "ledger_ok P s"
    and "successors_ok (blocks (view s)) (stored s)" and "chains_ok (view s)"
  using ledger_history_ok [OF assms] by (simp_all add: node_ok_def ledger_ok_def)

lemma process_all_append:
  "process_all f s (es @ es') = do { s \<leftarrow> process_all f s es; process_all f s es' }"
  by (induction f s es rule: process_all.induct) (auto split: Option.bind_splits)

text \<open>A history goes on with any block that passes the checks and whose weight can be moved.\<close>

lemma history_extend:
  assumes "history_ok P es" and "ledger_history P now es = Some s" and "hash_ok P b"
    and "process_code P (view s) b = progress" and "movable (view s) b"
  obtains s' a where "ledger_history P now (es @ [(t, b)]) = Some s'"
    and "history_ok P (es @ [(t, b)])" and "ledger_step P t (view s) b a (view s')"
proof -
  have "accepts P t s b (process P t s b)"
    using process_accepts [OF ledger_history_inv(3) [OF assms(1,2)] assms(3,4), of t] assms(5) by simp
  then obtain s' a where s': "process P t s b = accepted a s'" "ledger_step P t (view s) b a (view s')"
    unfolding accepts_def by blast
  moreover have "ledger_history P now (es @ [(t, b)]) = Some s'"
    using assms(2) s'(1)
    by (auto simp: ledger_history_def process_all_append bind_eq_Some_conv accepted_def)
  ultimately show ?thesis using that assms(1,3) by (simp add: history_ok_def)
qed

lemma history_begin:
  assumes "history_ok P []"
  obtains s where "ledger_history P now [] = Some s" and "view s = genesis_view P now"
proof -
  obtain s0 s where "block_store_open empty_store = Some s0" "genesis_initialize P now s0 = Some s"
    "view s = genesis_view P now"
    by (rule genesis_initialize_ok [of P now]) (use assms in \<open>simp_all add: history_ok_def\<close>)
  then show ?thesis using that by (simp add: ledger_history_def)
qed

end
