(* ===== verification/Sample.thy ===== *)
theory Sample
  imports Ledger_History
begin

text \<open>
  A platform with a small hash and a small signature scheme, and a short history on it, on
  which the hypotheses of the theorems about ledgers hold. Its eight-byte digests, which are
  used for work only, always meet the threshold.
\<close>

section \<open>The platform\<close>

definition sample_hash :: "nat \<Rightarrow> byte list \<Rightarrow> byte list" where
  "sample_hash n m =
     (if n = 8 then bytes64 (- 1)
      else be_store n (of_nat (length m) + 0x100 * ucast (hd m) + 0x10000 * ucast (last m) :: 256 word) [])"

definition sample_platform :: platform where
  "sample_platform =
     \<lparr>network = paper_test_network, blake2b = sample_hash,
      ed25519_publickey = id, ed25519_sign = (\<lambda>m prv pub. ucast pub),
      ed25519_sign_open = (\<lambda>m pub sig. if sig = ucast pub then 0 else 1),
      mp_show = std_show, mp_scan = std_scan,
      aes_ctr = (\<lambda>key iv m. m), aes_ctr_dec = (\<lambda>key iv m. m), write_json = concat \<circ> map fst\<rparr>"

lemma sample_block_hash:
  "block_hash sample_platform b =
     of_nat (length (hashables_hash b)) + 0x100 * ucast (hd (hashables_hash b)) +
     0x10000 * ucast (last (hashables_hash b))"
  by (simp add: block_hash_def sample_platform_def sample_hash_def number256_def be_load_store)

lemma le_store_not_Nil: "0 < k \<Longrightarrow> le_store k w \<noteq> []"
  by (cases k) simp_all

lemma hd_bytes256: "hd (bytes256 w) = ucast (drop_bit 248 w)"
  using nth_le_store [of 31 32 w] le_store_not_Nil [of 32 w]
  by (simp add: bytes256_def be_store_eq hd_rev last_conv_nth)

lemma last_bytes: "last (bytes256 w) = ucast w" "last (bytes128 v) = ucast v"
  using nth_le_store [of 0 32 w] nth_le_store [of 0 16 v] le_store_not_Nil [of 32 w]
    le_store_not_Nil [of 16 v]
  by (simp_all add: bytes256_def bytes128_def be_store_eq last_rev hd_conv_nth)

lemma bytes128_not_Nil [simp]: "bytes128 n \<noteq> []"
  by (metis u128.enc_length list.size(3) zero_neq_numeral)

lemmas sample_hash_simps = sample_block_hash hd_bytes256 last_bytes send_hashables_hash_def
  receive_hashables_hash_def open_hashables_hash_def change_hashables_hash_def

lemma sample_validate:
  "validate_message sample_platform pub h sig \<longleftrightarrow> sig \<noteq> ucast pub"
  by (simp add: validate_message_def sample_platform_def)

lemma sample_genesis_account [simp]: "genesis_account sample_platform = paper_test_account"
  by (simp add: genesis_account_def sample_platform_def)

lemma sample_genesis_hash: "genesis_hash sample_platform = 0xD0B060"
  by (simp add: genesis_hash_def sample_hash_simps paper_test_account_def)

section \<open>A history\<close>

text \<open>
  The genesis account sends all but one unit to account 5, and then changes its
  representative to account 7. Account 5 has yet to open its chain.
\<close>

definition sample_send_block :: send_block where
  "sample_send_block = make_send sample_platform 0xD0B060 5 1 paper_test_account paper_test_account 0"

definition sample_change_block :: change_block where
  "sample_change_block = make_change sample_platform 0x10050 7 paper_test_account paper_test_account 0"

definition sample_open_block :: open_block where
  "sample_open_block =
     \<lparr>open_hashables = \<lparr>open_source = 0x10050, open_representative = 5, open_account = 5\<rparr>,
      open_signature = 5, open_work = 0\<rparr>"

text \<open>A second send to the account that was opened, and its receive block.\<close>

definition sample_rest_block :: send_block where
  "sample_rest_block = make_send sample_platform 0x10050 5 0 paper_test_account paper_test_account 0"

definition sample_receive_block :: receive_block where
  "sample_receive_block = make_receive sample_platform 0x50060 0x50 5 5 0"

text \<open>A change to the representative zero, and an amount sent to and taken up by the account zero.\<close>

definition sample_mute_block :: change_block where
  "sample_mute_block = make_change sample_platform 0xD0B060 0 paper_test_account paper_test_account 0"

definition sample_burn_block :: send_block where
  "sample_burn_block = make_send sample_platform 0xD0B060 0 1 paper_test_account paper_test_account 0"

definition sample_ash_block :: open_block where
  "sample_ash_block =
     \<lparr>open_hashables = \<lparr>open_source = 0x10050, open_representative = 5, open_account = 0\<rparr>,
      open_signature = 0, open_work = 0\<rparr>"

abbreviation sample_send :: block where
  "sample_send \<equiv> Send sample_send_block"

abbreviation sample_change :: block where
  "sample_change \<equiv> Change sample_change_block"

abbreviation sample_open :: block where
  "sample_open \<equiv> Open sample_open_block"

abbreviation sample_rest :: block where
  "sample_rest \<equiv> Send sample_rest_block"

abbreviation sample_receive :: block where
  "sample_receive \<equiv> Receive sample_receive_block"

abbreviation sample_mute :: block where
  "sample_mute \<equiv> Change sample_mute_block"

abbreviation sample_burn :: block where
  "sample_burn \<equiv> Send sample_burn_block"

abbreviation sample_ash :: block where
  "sample_ash \<equiv> Open sample_ash_block"

lemma sample_blocks [simp]:
  "send_hashables sample_send_block =
     \<lparr>send_previous = 0xD0B060, send_destination = 5, send_balance = 1\<rparr>"
  "send_signature sample_send_block = ucast paper_test_account"
  "change_hashables sample_change_block =
     \<lparr>change_previous = 0x10050, change_representative = 7\<rparr>"
  "change_signature sample_change_block = ucast paper_test_account"
  "open_hashables sample_open_block =
     \<lparr>open_source = 0x10050, open_representative = 5, open_account = 5\<rparr>"
  "open_signature sample_open_block = 5"
  "change_hashables sample_mute_block =
     \<lparr>change_previous = 0xD0B060, change_representative = 0\<rparr>"
  "change_signature sample_mute_block = ucast paper_test_account"
  "send_hashables sample_burn_block =
     \<lparr>send_previous = 0xD0B060, send_destination = 0, send_balance = 1\<rparr>"
  "send_signature sample_burn_block = ucast paper_test_account"
  "open_hashables sample_ash_block =
     \<lparr>open_source = 0x10050, open_representative = 5, open_account = 0\<rparr>"
  "open_signature sample_ash_block = 0"
  "send_hashables sample_rest_block =
     \<lparr>send_previous = 0x10050, send_destination = 5, send_balance = 0\<rparr>"
  "send_signature sample_rest_block = ucast paper_test_account"
  "receive_hashables sample_receive_block =
     \<lparr>receive_previous = 0x50060, receive_source = 0x50\<rparr>"
  "receive_signature sample_receive_block = 5"
  by (simp_all add: sample_send_block_def sample_change_block_def sample_open_block_def
      sample_mute_block_def sample_burn_block_def sample_ash_block_def
      sample_rest_block_def sample_receive_block_def make_send_def make_change_def make_receive_def sign_message_def sample_platform_def Let_def)

lemma sample_hashes:
  "block_hash sample_platform sample_send = 0x10050"
  "block_hash sample_platform sample_change = 0x70040"
  "block_hash sample_platform sample_open = 0x50060"
  "block_hash sample_platform sample_mute = 0x40"
  "block_hash sample_platform sample_burn = 0x10050"
  "block_hash sample_platform sample_ash = 0x60"
  "block_hash sample_platform sample_rest = 0x50"
  "block_hash sample_platform sample_receive = 0x500040"
  by (simp_all add: sample_hash_simps)

lemma sample_history_ok:
  "history_ok sample_platform []"
  "hash_ok sample_platform sample_send" "hash_ok sample_platform sample_change"
  "hash_ok sample_platform sample_open" "hash_ok sample_platform sample_mute"
  "hash_ok sample_platform sample_burn" "hash_ok sample_platform sample_ash"
  "hash_ok sample_platform sample_rest" "hash_ok sample_platform sample_receive"
  using sample_genesis_hash
  by (simp_all add: history_ok_def hash_ok_def sample_hashes genesis_hash_def paper_test_account_def)

definition sample_sent :: ledger_view where
  "sample_sent =
     (extend sample_platform 1 sample_send paper_test_account 0xD0B060 1 (genesis_view sample_platform 0))
       \<lparr>receivables := mdb_put mdb_empty 0x10050
          \<lparr>rcv_source = paper_test_account, rcv_amount = genesis_amount - 1, rcv_destination = 5\<rparr>\<rparr>"

definition sample_changed :: ledger_view where
  "sample_changed =
     (extend sample_platform 2 sample_change paper_test_account 0x70040 1 sample_sent)
       \<lparr>weights := move_weight paper_test_account 7 1 (weights sample_sent)\<rparr>"

lemmas sample_defs = genesis_view_def sample_genesis_hash extend_def set_latest_def Let_def
  sample_hashes sample_validate process_code_def follows_code_def takes_code_def movable_def
  sender_rep_def rep_account_def weight_of_def paper_test_account_def

lemma sample_genesis_history:
  obtains s where "ledger_history sample_platform 0 [] = Some s"
    and "history_ok sample_platform []" and "view s = genesis_view sample_platform 0"
  by (rule history_begin [OF sample_history_ok(1)]) (use sample_history_ok(1) in simp)

lemma sample_sent_history:
  obtains s where "ledger_history sample_platform 0 [(1, sample_send)] = Some s"
    and "history_ok sample_platform [(1, sample_send)]" and "view s = sample_sent"
proof -
  obtain s where s: "ledger_history sample_platform 0 [] = Some s"
    "view s = genesis_view sample_platform 0"
    by (rule history_begin [OF sample_history_ok(1)])
  have code: "process_code sample_platform (view s) sample_send = progress"
    by (simp add: s(2) sample_defs genesis_amount_def)
  obtain s' a where s': "ledger_history sample_platform 0 ([] @ [(1, sample_send)]) = Some s'"
    "history_ok sample_platform ([] @ [(1, sample_send)])"
    "ledger_step sample_platform 1 (view s) sample_send a (view s')"
    by (rule history_extend [OF sample_history_ok(1) s(1) sample_history_ok(2) code])
      (simp add: movable_def)
  have "view s' = sample_sent"
    using s'(3) by cases (auto simp: sample_sent_def s(2) sample_defs)
  then show ?thesis using that s' by simp
qed

lemma sample_changed_history:
  obtains s where "ledger_history sample_platform 0 [(1, sample_send), (2, sample_change)] = Some s"
    and "history_ok sample_platform [(1, sample_send), (2, sample_change)]" and "view s = sample_changed"
proof -
  obtain s where s: "ledger_history sample_platform 0 [(1, sample_send)] = Some s"
    "history_ok sample_platform [(1, sample_send)]" "view s = sample_sent"
    by (rule sample_sent_history)
  have code: "process_code sample_platform (view s) sample_change = progress"
    by (simp add: s(3) sample_sent_def sample_defs)
  obtain s' a where s':
    "ledger_history sample_platform 0 ([(1, sample_send)] @ [(2, sample_change)]) = Some s'"
    "history_ok sample_platform ([(1, sample_send)] @ [(2, sample_change)])"
    "ledger_step sample_platform 2 (view s) sample_change a (view s')"
    by (rule history_extend [OF s(2,1) sample_history_ok(3) code])
      (simp add: s(3) sample_sent_def sample_defs genesis_amount_def)
  have "view s' = sample_changed"
    using s'(3) by cases (auto simp: sample_changed_def sample_sent_def s(3) sample_defs)
  then show ?thesis using that s' by simp
qed

lemma sample_burnt_history:
  obtains s where "ledger_history sample_platform 0 [(1, sample_burn), (2, sample_ash)] = Some s"
    and "history_ok sample_platform [(1, sample_burn), (2, sample_ash)]"
    and "blocks (view s) 0x60 = Some sample_ash"
proof -
  obtain s where s: "ledger_history sample_platform 0 [] = Some s"
    "history_ok sample_platform []" "view s = genesis_view sample_platform 0"
    by (rule sample_genesis_history)
  have code: "process_code sample_platform (view s) sample_burn = progress"
    by (simp add: s(3) sample_defs genesis_amount_def)
  obtain s' a where s': "ledger_history sample_platform 0 ([] @ [(1, sample_burn)]) = Some s'"
    "history_ok sample_platform ([] @ [(1, sample_burn)])"
    "ledger_step sample_platform 1 (view s) sample_burn a (view s')"
    by (rule history_extend [OF s(2,1) sample_history_ok(6) code]) (simp add: movable_def)
  have view: "view s' =
     (extend sample_platform 1 sample_burn paper_test_account 0xD0B060 1 (genesis_view sample_platform 0))
       \<lparr>receivables := mdb_put mdb_empty 0x10050
          \<lparr>rcv_source = paper_test_account, rcv_amount = genesis_amount - 1, rcv_destination = 0\<rparr>\<rparr>"
    using s'(3) by cases (auto simp: s(3) sample_defs)
  have code': "process_code sample_platform (view s') sample_ash = progress"
    by (simp add: view sample_defs)
  obtain t b where t: "ledger_history sample_platform 0 (([] @ [(1, sample_burn)]) @ [(2, sample_ash)]) = Some t"
    "history_ok sample_platform (([] @ [(1, sample_burn)]) @ [(2, sample_ash)])"
    "ledger_step sample_platform 2 (view s') sample_ash b (view t)"
    by (rule history_extend [OF s'(2,1) sample_history_ok(7) code'])
      (simp add: view sample_defs genesis_amount_def)
  show ?thesis using that t step_view(1) [OF t(3)] by (simp add: sample_hashes)
qed

definition sample_opened :: ledger_view where
  "sample_opened =
     (extend sample_platform 2 sample_open 5 0x50060 (genesis_amount - 1) sample_sent)
       \<lparr>receivables := mdb_empty,
        weights := move_weight paper_test_account 5 (genesis_amount - 1) (weights sample_sent)\<rparr>"

definition sample_paid :: ledger_view where
  "sample_paid =
     (extend sample_platform 3 sample_rest paper_test_account 0xD0B060 0 sample_opened)
       \<lparr>receivables := mdb_put mdb_empty 0x50
          \<lparr>rcv_source = paper_test_account, rcv_amount = 1, rcv_destination = 5\<rparr>\<rparr>"

lemma sample_opened_history:
  obtains s where "ledger_history sample_platform 0 [(1, sample_send), (2, sample_open)] = Some s"
    and "history_ok sample_platform [(1, sample_send), (2, sample_open)]" and "view s = sample_opened"
proof -
  obtain s where s: "ledger_history sample_platform 0 [(1, sample_send)] = Some s"
    "history_ok sample_platform [(1, sample_send)]" "view s = sample_sent"
    by (rule sample_sent_history)
  have code: "process_code sample_platform (view s) sample_open = progress"
    by (simp add: s(3) sample_sent_def sample_defs)
  obtain s' a where s':
    "ledger_history sample_platform 0 ([(1, sample_send)] @ [(2, sample_open)]) = Some s'"
    "history_ok sample_platform ([(1, sample_send)] @ [(2, sample_open)])"
    "ledger_step sample_platform 2 (view s) sample_open a (view s')"
    by (rule history_extend [OF s(2,1) sample_history_ok(4) code])
      (simp add: s(3) sample_sent_def sample_defs genesis_amount_def)
  have "view s' = sample_opened"
    using s'(3) by cases (auto simp: sample_opened_def sample_sent_def s(3) sample_defs tbl.remove_put)
  then show ?thesis using that s' by simp
qed

lemma sample_paid_history:
  obtains s where
    "ledger_history sample_platform 0 [(1, sample_send), (2, sample_open), (3, sample_rest)] = Some s"
    and "history_ok sample_platform [(1, sample_send), (2, sample_open), (3, sample_rest)]"
    and "view s = sample_paid"
proof -
  let ?es = "[(1, sample_send), (2, sample_open)]"
  obtain s where s: "ledger_history sample_platform 0 ?es = Some s"
    "history_ok sample_platform ?es" "view s = sample_opened"
    by (rule sample_opened_history)
  have code: "process_code sample_platform (view s) sample_rest = progress"
    by (simp add: s(3) sample_opened_def sample_sent_def sample_defs)
  obtain s' a where s': "ledger_history sample_platform 0 (?es @ [(3, sample_rest)]) = Some s'"
    "history_ok sample_platform (?es @ [(3, sample_rest)])"
    "ledger_step sample_platform 3 (view s) sample_rest a (view s')"
    by (rule history_extend [OF s(2,1) sample_history_ok(8) code]) (simp add: movable_def)
  have "view s' = sample_paid"
    using s'(3) by cases (auto simp: sample_paid_def sample_opened_def sample_sent_def s(3) sample_defs)
  then show ?thesis using that s' by simp
qed

end
