(* ===== verification/Wallet_Props.thy ===== *)
theory Wallet_Props
  imports Wallet_Backup Sample
begin

text \<open>
  The properties of key derivation and of the encrypted key store, with their witnesses on a
  platform whose key stream is the key itself.
\<close>

section \<open>A platform with a key stream\<close>

definition sample_stream :: "byte list \<Rightarrow> byte list \<Rightarrow> nat \<Rightarrow> byte list" where
  "sample_stream key iv n = take n (key @ replicate n 0)"

definition wallet_platform :: platform where
  "wallet_platform = sample_platform
     \<lparr>aes_ctr := (\<lambda>key iv m. map2 (XOR) m (sample_stream key iv (length m))),
      aes_ctr_dec := (\<lambda>key iv m. map2 (XOR) m (sample_stream key iv (length m)))\<rparr>"

lemma wallet_platform_ctr: "ctr_mode wallet_platform sample_stream"
  by (simp add: ctr_mode_def wallet_platform_def sample_stream_def min_def)

lemma wallet_platform_text: "number_text (mp_show wallet_platform) (mp_scan wallet_platform)"
  using std_text.number_text_axioms by (simp add: wallet_platform_def sample_platform_def)

lemma map2_xor_zeros: "length bs \<le> n \<Longrightarrow> map2 (XOR) (replicate n 0) bs = bs" for bs :: "byte list"
proof (induction bs arbitrary: n)
  case (Cons b bs)
  then show ?case by (cases n) simp_all
qed simp

lemma wallet_platform_pad: "pad wallet_platform key iv = key"
proof -
  have "map2 (XOR) (replicate 32 0) (sample_stream (bytes256 key) (bytes128 iv) 32) = bytes256 key"
    by (simp add: sample_stream_def map2_xor_zeros)
  then show ?thesis by (simp add: pad_def uint256_encrypt_def wallet_platform_def)
qed

lemma wallet_platform_key [simp]: "ed25519_publickey wallet_platform prv = prv"
  by (simp add: wallet_platform_def sample_platform_def)

lemmas wallet_sample_simps = spec_new_def spec_unlocked_def spec_current_def wallet_platform_pad
  special_count_def Let_def

text \<open>A wallet with the key 7 before and the key 9 after the password was set; 7 is erased.\<close>

definition sample_steps :: "wallet_op list" where
  "sample_steps = [Insert 7, Rekey ''pw'', Insert 9, Put_work 9 4, Erase 7]"

definition sample_wallet :: "uint256_union \<Rightarrow> wallet_spec" where
  "sample_wallet key = \<lparr>spec_salt = 1, spec_key = 2, spec_password = key, spec_entered = key,
     spec_representative = genesis_account wallet_platform, spec_keys = [9 \<mapsto> 9],
     spec_work = (\<lambda>_. 0)(9 := 4)\<rparr>"

lemma kdf_work_returns: "\<exists>key. kdf_generate P (kdf_work P) pw salt = Some key"
  by (rule kdf_returns) (simp add: kdf_work_def)

lemma sample_wallet_run:
  assumes "kdf_generate wallet_platform (kdf_work wallet_platform) ''pw'' 1 = Some key"
  shows "spec_run wallet_platform (spec_new wallet_platform 1 2) sample_steps = Some (sample_wallet key)"
  using assms by (auto simp: sample_steps_def wallet_sample_simps sample_wallet_def fun_upd_def fun_eq_iff)

section \<open>Key derivation\<close>

text \<open>
  C38. Key derivation returns a key for every number of entries the constructor accepts: no
  index leaves the buffer. The key is the digest of the buffer's entries in some order, each
  read exactly once. The buffer holds the first \<open>n\<close> values of the generator, in which the
  loop that is meant to write at random positions has overwritten one single entry, with the
  last of its \<open>n\<close> values: the variable \<open>previous\<close> that the index comes from is never
  assigned inside the loop.
\<close>

theorem kdf_hashes_permuted_fill:
  assumes "entries_l AND 15 = 0" and "unat entries_l = n" and "xs = rng_values (2 * n + 1) (kdf_seed P pw salt)"
  shows "\<exists>vs. kdf_generate P entries_l pw salt = Some (number256 (blake2b P 32 (concat (map bytes64 vs)))) \<and>
    mset vs = mset (if n = 0 then []
      else (take n xs)[unat (xs ! n AND (entries_l - 1)) := xs ! (2 * n)])"
  using assms by (rule kdf_generate_eq)

lemma kdf_hashes_permuted_fill_witness:
  "\<exists>vs. kdf_generate wallet_platform 16 ''pw'' 1 =
      Some (number256 (blake2b wallet_platform 32 (concat (map bytes64 vs)))) \<and>
    (let xs = rng_values 33 (kdf_seed wallet_platform ''pw'' 1)
     in mset vs = mset ((take 16 xs)[unat (xs ! 16 AND 15) := xs ! 32]))"
  using kdf_hashes_permuted_fill [of 16 16 _ wallet_platform "''pw''" 1, OF _ _ refl]
  by (simp add: Let_def)

section \<open>The key store\<close>

text \<open>An account that is not in the wallet can not be erased or given work.\<close>

lemma absent_aborts:
  assumes "wallet_is P w a" and "special_count \<le> pub" and "spec_keys a pub = None"
  shows "wallet_erase w pub = None" and "work_put w pub x = None"
  using assms(3)
  by (simp_all add: wallet_erase_def mdb_del_def work_put_def entry_get_raw_def wallet_is_entry [OF assms(1)]
      spec_entry_key [OF assms(2)] uint256_is_zero_eq assert_def)

text \<open>
  C10. A new wallet and any sequence of its operations inside the contract (passwords are
  changed and entered and the representative is set at any time; a key is inserted only while
  the wallet is unlocked, for an account that is not one of the reserved numbers, and not if
  it encrypts to zero; keys are erased and work is cached only for accounts of the wallet) run
  without a failed assertion. Erasing an account that is not there, or caching work for it,
  fails an assertion. The wallet does what the contract says: it is unlocked exactly when the contract
  says so, and always after the password that was set last is entered; unlocked, \<open>fetch\<close>
  returns the private key that was inserted for an account and an error for every other
  account; \<open>accounts\<close> lists the accounts in order, \<open>exists\<close>, \<open>work_get\<close> and
  \<open>representative\<close> agree.
\<close>

theorem wallet_refines:
  assumes "ctr_mode P stream" and "spec_run P (spec_new P salt key) steps = Some a"
  shows "\<exists>w0 w. wallet_store_open P randoms salt key mdb_empty = Some w0 \<and> wallet_run P w0 steps = Some w \<and>
    valid_password P w = Some (spec_unlocked P a) \<and>
    (spec_entered a = spec_password a \<longrightarrow> spec_unlocked P a) \<and>
    wallet_accounts w = sorted_list_of_set (dom (spec_keys a)) \<and>
    wallet_representative w = Some (spec_representative a) \<and>
    (\<forall>pub\<ge>special_count.
      (spec_unlocked P a \<longrightarrow> fetch P w pub = Some (spec_keys a pub)) \<and>
      wallet_exists w pub = (spec_keys a pub \<noteq> None) \<and>
      work_get w pub = Some (map_option (\<lambda>_. spec_work a pub) (spec_keys a pub)) \<and>
      (spec_keys a pub = None \<longrightarrow> wallet_erase w pub = None \<and> (\<forall>x. work_put w pub x = None)))"
proof -
  obtain w0 where w0: "wallet_store_open P randoms salt key mdb_empty = Some w0"
    "wallet_is P w0 (spec_new P salt key)"
    using new_simulates [OF assms(1)] by blast
  obtain w where w: "wallet_run P w0 steps = Some w" "wallet_is P w a"
    using run_simulates [OF w0(2) assms] by blast
  show ?thesis
    using w0(1) w(1) wallet_unlocks(2) [OF w(2) assms(1)] spec_unlocked_password [of a P]
      wallet_accounts_eq(1) [OF w(2)] wallet_reads(3) [OF w(2)] fetch_unlocked [OF w(2) assms(1)]
      wallet_exists_iff [OF w(2)] work_get_eq [OF w(2)]
      absent_aborts [OF w(2)]
    by (intro exI [of _ w0] exI [of _ w]) simp
qed

lemma wallet_refines_witness:
  "\<exists>w0 w. wallet_store_open wallet_platform [3, 4] 1 2 mdb_empty = Some w0 \<and>
    wallet_run wallet_platform w0 sample_steps = Some w \<and> valid_password wallet_platform w = Some True \<and>
    wallet_accounts w = [9] \<and> fetch wallet_platform w 9 = Some (Some 9) \<and>
    fetch wallet_platform w 7 = Some None \<and> work_get w 9 = Some (Some 4)"
proof -
  obtain key where key: "kdf_generate wallet_platform (kdf_work wallet_platform) ''pw'' 1 = Some key"
    using kdf_work_returns by blast
  have unl: "spec_unlocked wallet_platform (sample_wallet key)"
    by (rule spec_unlocked_password) (simp add: sample_wallet_def)
  have range: "special_count \<le> 9" "special_count \<le> 7" by (simp_all add: special_count_def)
  show ?thesis
    using wallet_refines [OF wallet_platform_ctr sample_wallet_run [OF key], of "[3, 4]"] unl range
    by (fastforce simp: sample_wallet_def)
qed

text \<open>
  C39. The wallet file gives away every key it holds: the entry \<open>check\<close> is the key stream
  itself, since it is the encryption of zero, and every private key is encrypted with the
  same key and initial counter. The exclusive or of the two stored values is the private key,
  whether or not a password was entered.
\<close>

theorem wallet_check_reveals_keys:
  assumes "ctr_mode P stream" and "spec_run P (spec_new P salt key) steps = Some a"
    and "spec_keys a pub = Some prv"
  shows "\<exists>w0 w value check. wallet_store_open P randoms salt key mdb_empty = Some w0 \<and>
    wallet_run P w0 steps = Some w \<and> entry_get_raw w pub = Some value \<and> wallet_check w = Some check \<and>
    uint256_xor (value_key value) check = prv"
proof -
  obtain w0 where w0: "wallet_store_open P randoms salt key mdb_empty = Some w0"
    "wallet_is P w0 (spec_new P salt key)"
    using new_simulates [OF assms(1)] by blast
  obtain w where w: "wallet_run P w0 steps = Some w" "wallet_is P w a"
    using run_simulates [OF w0(2) assms(1,2)] by blast
  show ?thesis
    using w0(1) w(1) key_entry(1) [OF w(2) assms(3)] wallet_reads(2) [OF w(2)]
    by (simp add: uint256_xor_eq)
qed

lemma wallet_check_reveals_keys_witness:
  "\<exists>w0 w value check. wallet_store_open wallet_platform [3, 4] 1 2 mdb_empty = Some w0 \<and>
    wallet_run wallet_platform w0 sample_steps = Some w \<and> entry_get_raw w 9 = Some value \<and>
    wallet_check w = Some check \<and> uint256_xor (value_key value) check = 9"
proof -
  obtain key where key: "kdf_generate wallet_platform (kdf_work wallet_platform) ''pw'' 1 = Some key"
    using kdf_work_returns by blast
  show ?thesis
    by (rule wallet_check_reveals_keys [OF wallet_platform_ctr sample_wallet_run [OF key], of 9 9 "[3, 4]"])
      (simp add: sample_wallet_def)
qed

text \<open>
  C37. \<open>move\<close> transfers keys from one unlocked wallet to another up to the first account the
  other wallet does not have: each key before it is inserted here and erased there; from that
  account on nothing is moved and the result is an error.
\<close>

theorem move_moves_prefix:
  assumes "ctr_mode P stream" and "wallet_is P w a" and "wallet_is P v b"
    and "spec_unlocked P a" and "spec_unlocked P b"
    and "spec_run P a (map (\<lambda>k. Insert (the (spec_keys b k))) ks) = Some a'"
    and "spec_run P b (map Erase ks) = Some b'"
    and "\<forall>k\<in>set rest. special_count \<le> k"
    and "rest = [] \<or> spec_keys b' (hd rest) = None"
  shows "\<exists>w' v'. move P w v (ks @ rest) = Some (rest \<noteq> [], w', v') \<and>
    wallet_is P w' a' \<and> wallet_is P v' b'"
  using move_keys_moves [OF assms(1-3,5-9)] assms(4,5)
  by (auto simp: move_def wallet_unlocks [OF assms(2,1)] wallet_unlocks [OF assms(3,1)])

lemma move_moves_prefix_witness:
  "\<exists>w v w' v'. wallet_store_open wallet_platform [3] 1 2 mdb_empty = Some w \<and>
    wallet_run wallet_platform w [Insert 7, Insert 9] = Some v \<and>
    move wallet_platform w v [9, 8, 7] = Some (True, w', v') \<and>
    fetch wallet_platform w' 9 = Some (Some 9) \<and> fetch wallet_platform w' 7 = Some None"
proof -
  let ?P = wallet_platform
  let ?a = "spec_new ?P 1 2"
  let ?b = "?a\<lparr>spec_keys := [7 \<mapsto> 7, 9 \<mapsto> 9], spec_work := (\<lambda>_. 0)(7 := 0, 9 := 0)\<rparr>"
  let ?a' = "?a\<lparr>spec_keys := [9 \<mapsto> 9], spec_work := (\<lambda>_. 0)(9 := 0)\<rparr>"
  let ?b' = "?b\<lparr>spec_keys := [7 \<mapsto> 7, 9 \<mapsto> 9](9 := None)\<rparr>"
  obtain w where w: "wallet_store_open ?P [3] 1 2 mdb_empty = Some w" "wallet_is ?P w ?a"
    using new_simulates [OF wallet_platform_ctr] by blast
  have run: "spec_run ?P ?a [Insert 7, Insert 9] = Some ?b" by (simp add: wallet_sample_simps)
  obtain v where v: "wallet_run ?P w [Insert 7, Insert 9] = Some v" "wallet_is ?P v ?b"
    using run_simulates [OF w(2) wallet_platform_ctr run] by blast
  have unl: "spec_unlocked ?P ?a" "spec_unlocked ?P ?b" "spec_unlocked ?P ?a'"
    by (simp_all add: wallet_sample_simps)
  have "\<exists>w' v'. move ?P w v ([9] @ [8, 7]) = Some ([8, 7 :: uint256_union] \<noteq> [], w', v') \<and>
      wallet_is ?P w' ?a' \<and> wallet_is ?P v' ?b'"
    by (rule move_moves_prefix [OF wallet_platform_ctr w(2) v(2) unl(1,2)])
      (simp_all add: wallet_sample_simps)
  then obtain w' v' where m: "move ?P w v [9, 8, 7] = Some (True, w', v')" "wallet_is ?P w' ?a'" by auto
  have "fetch ?P w' 9 = Some (Some 9)" "fetch ?P w' 7 = Some None"
    using fetch_unlocked [OF m(2) wallet_platform_ctr unl(3), of 9]
      fetch_unlocked [OF m(2) wallet_platform_ctr unl(3), of 7]
    by (simp_all add: special_count_def)
  then show ?thesis using w(1) v(1) m(1) by blast
qed

text \<open>
  C12. A backup can be restored: the JSON form of a wallet, imported into any unlocked wallet
  with the password that was set last, is accepted, and gives that wallet every key of the
  backup on top of its own.
\<close>

theorem import_restores_backup:
  assumes "ctr_mode P stream" and "number_text (mp_show P) (mp_scan P)"
    and "wallet_is P w a" and "kdf_generate P (kdf_work P) pw (spec_salt a) = Some (spec_password a)"
    and "wallet_is P u c" and "spec_unlocked P c"
    and "\<forall>k prv. spec_keys a k = Some prv \<longrightarrow> prv \<noteq> spec_pad P c (spec_key c)"
  shows "\<exists>tree u'. wallet_tree P w = Some tree \<and> wallet_import P randoms u tree pw = Some (False, u') \<and>
    valid_password P u' = Some True \<and>
    (\<forall>pub\<ge>special_count. fetch P u' pub = Some ((spec_keys c ++ spec_keys a) pub))"
proof -
  obtain tree u' c' where r: "wallet_tree P w = Some tree" "wallet_import P randoms u tree pw = Some (False, u')"
    "wallet_is P u' c'" "spec_unlocked P c'" "spec_keys c' = spec_keys c ++ spec_keys a"
    using import_backup [OF assms, of randoms] by blast
  then show ?thesis
    using wallet_unlocks(2) [OF r(3) assms(1)] fetch_unlocked [OF r(3) assms(1) r(4)]
    by (intro exI [of _ tree] exI [of _ u']) simp
qed

lemma import_restores_backup_witness:
  "\<exists>w0 w u tree u'. wallet_store_open wallet_platform [3] 1 2 mdb_empty = Some w0 \<and>
    wallet_run wallet_platform w0 sample_steps = Some w \<and> wallet_tree wallet_platform w = Some tree \<and>
    wallet_store_open wallet_platform [3] 5 6 mdb_empty = Some u \<and>
    wallet_import wallet_platform [8] u tree ''pw'' = Some (False, u') \<and>
    fetch wallet_platform u' 9 = Some (Some 9)"
proof -
  let ?P = wallet_platform
  obtain key where key: "kdf_generate ?P (kdf_work ?P) ''pw'' 1 = Some key" using kdf_work_returns by blast
  obtain w0 where w0: "wallet_store_open ?P [3] 1 2 mdb_empty = Some w0" "wallet_is ?P w0 (spec_new ?P 1 2)"
    using new_simulates [OF wallet_platform_ctr] by blast
  obtain w where w: "wallet_run ?P w0 sample_steps = Some w" "wallet_is ?P w (sample_wallet key)"
    using run_simulates [OF w0(2) wallet_platform_ctr sample_wallet_run [OF key]] by blast
  obtain u where u: "wallet_store_open ?P [3] 5 6 mdb_empty = Some u" "wallet_is ?P u (spec_new ?P 5 6)"
    using new_simulates [OF wallet_platform_ctr] by blast
  have pw: "kdf_generate ?P (kdf_work ?P) ''pw'' (spec_salt (sample_wallet key)) =
      Some (spec_password (sample_wallet key))"
    using key by (simp add: sample_wallet_def)
  have unl: "spec_unlocked ?P (spec_new ?P 5 6)" by (simp add: wallet_sample_simps)
  have fits: "\<forall>k prv. spec_keys (sample_wallet key) k = Some prv \<longrightarrow>
      prv \<noteq> spec_pad ?P (spec_new ?P 5 6) (spec_key (spec_new ?P 5 6))"
    by (auto simp: sample_wallet_def wallet_sample_simps split: if_splits)
  have "special_count \<le> 9" by (simp add: special_count_def)
  then show ?thesis
    using import_restores_backup [OF wallet_platform_ctr wallet_platform_text w(2) pw u(2) unl fits, of "[8]"]
      w0(1) w(1) u(1)
    by (fastforce simp: sample_wallet_def spec_new_def)
qed

end
