(* ===== verification/Votes.thy ===== *)
theory Votes
  imports Sample "HOL-Library.AList"
begin

text \<open>
  Votes on a fork: the classes \<open>vote\<close> and \<open>votes\<close> of \<open>paper/secure.cpp\<close> and the tally of
  \<open>ledger\<close>. The code keeps votes in hash maps, whose order of iteration it does not
  control: a list of entries stands for such a map together with some order, the theorems
  hold for every order, and the order in which the map of totals is traversed is an
  argument of \<open>tally\<close>.
\<close>

section \<open>A vote\<close>

record vote =
  vote_sequence :: uint64
  vote_block :: block
  vote_account :: account
  vote_signature :: signature

definition vote_hash :: "platform \<Rightarrow> uint64 \<Rightarrow> block \<Rightarrow> uint256_union" where
  "vote_hash P sequence_a block_a =
     number256 (blake2b P 32 (bytes256 (block_hash P block_a) @ bytes64 sequence_a))"

definition make_vote :: "platform \<Rightarrow> account \<Rightarrow> private_key \<Rightarrow> uint64 \<Rightarrow> block \<Rightarrow> vote" where
  "make_vote P account_a prv_a sequence_a block_a =
     \<lparr>vote_sequence = sequence_a, vote_block = block_a, vote_account = account_a,
      vote_signature = sign_message P prv_a account_a (vote_hash P sequence_a block_a)\<rparr>"

definition vote_read :: "byte list \<Rightarrow> block_type option \<Rightarrow> (vote \<times> byte list) option" where
  "vote_read s t = do {
     (account_a, s) \<leftarrow> read_uint256 s;
     (signature_a, s) \<leftarrow> read_uint512 s;
     (sequence_a, s) \<leftarrow> read_uint64 s;
     (block_a, s) \<leftarrow> deserialize_block_typed s t;
     Some (\<lparr>vote_sequence = sequence_a, vote_block = block_a, vote_account = account_a,
       vote_signature = signature_a\<rparr>, s)
   }"

lemma vote_read_Some [codec_simps]:
  "vote_read s t = Some (v, r) \<longleftrightarrow>
     t = Some (type_of (vote_block v)) \<and>
     s = bytes256 (vote_account v) @ bytes512 (vote_signature v) @ bytes64 (vote_sequence v) @
       serialize (vote_block v) @ r"
  by (cases v) (auto simp: vote_read_def bind_eq_Some_conv codec_simps deserialize_block_typed_Some)

section \<open>Recording votes\<close>

record votes =
  votes_sequence :: uint64
  votes_id :: block_hash
  rep_votes :: "(account \<times> uint64 \<times> block) list"

definition make_votes :: "block_hash \<Rightarrow> votes" where
  "make_votes id_a = \<lparr>votes_sequence = 1, votes_id = id_a, rep_votes = []\<rparr>"

definition votes_vote :: "platform \<Rightarrow> votes \<Rightarrow> vote \<Rightarrow> bool \<times> votes" where
  "votes_vote P vs v =
     (if \<not> validate_message P (vote_account v) (vote_hash P (vote_sequence v) (vote_block v))
            (vote_signature v)
      then case map_of (rep_votes vs) (vote_account v) of
          None \<Rightarrow>
            (True, vs\<lparr>rep_votes := (vote_account v, vote_sequence v, vote_block v) # rep_votes vs\<rparr>)
        | Some (q, b) \<Rightarrow>
            if q < vote_sequence v
            then let result = (\<not> block_equal b (vote_block v)) in
              (result,
               if result
               then vs\<lparr>rep_votes := AList.update (vote_account v) (q, vote_block v) (rep_votes vs)\<rparr>
               else vs)
            else (False, vs)
      else (False, vs))"

section \<open>Counting votes\<close>

fun totals_add :: "block \<Rightarrow> uint128_t \<Rightarrow> (block \<times> uint128_t) list \<Rightarrow> (block \<times> uint128_t) list" where
  "totals_add b w [] = [(b, 0 + w)]"
| "totals_add b w ((c, t) # ts) =
     (if block_equal c b then (c, t + w) # ts else (c, t) # totals_add b w ts)"

fun tally_totals ::
  "block_store \<Rightarrow> (account \<times> uint64 \<times> block) list \<Rightarrow> (block \<times> uint128_t) list \<Rightarrow>
     (block \<times> uint128_t) list exec" where
  "tally_totals s [] totals = Some totals"
| "tally_totals s ((a, q, b) # es) totals = do {
     weight_l \<leftarrow> weight s a;
     tally_totals s es (totals_add b weight_l totals)
   }"

definition tally ::
  "((block \<times> uint128_t) list \<Rightarrow> (block \<times> uint128_t) list) \<Rightarrow> block_store \<Rightarrow> votes \<Rightarrow>
     (uint128_t, block) mdb exec" where
  "tally order s vs = do {
     totals \<leftarrow> tally_totals s (rep_votes vs) [];
     Some (fold (\<lambda>(b, t) result. mdb_put result t b) (order totals) mdb_empty)
   }"

text \<open>The map of totals is ordered by \<open>std::greater\<close>: its first entry is the largest.\<close>

definition winner ::
  "((block \<times> uint128_t) list \<Rightarrow> (block \<times> uint128_t) list) \<Rightarrow> block_store \<Rightarrow> votes \<Rightarrow>
     (uint128_t \<times> block) exec" where
  "winner order s vs = do {
     tally_l \<leftarrow> tally order s vs;
     case rev (mdb_entries tally_l) of [] \<Rightarrow> None | existing # _ \<Rightarrow> Some existing
   }"

section \<open>What is recorded\<close>

text \<open>The votes of an account that carry its signature, in the order they came.\<close>

definition signed_votes :: "platform \<Rightarrow> account \<Rightarrow> vote list \<Rightarrow> vote list" where
  "signed_votes P a xs =
     filter (\<lambda>v. vote_account v = a \<and>
       \<not> validate_message P a (vote_hash P (vote_sequence v) (vote_block v)) (vote_signature v)) xs"

definition recorded_vote :: "vote list \<Rightarrow> (uint64 \<times> block) option" where
  "recorded_vote xs =
     (case xs of
        [] \<Rightarrow> None
      | x # ys \<Rightarrow> Some (vote_sequence x,
          vote_block (last (x # filter (\<lambda>y. vote_sequence x < vote_sequence y) ys))))"

lemma recorded_vote_snoc:
  "recorded_vote (xs @ [v]) =
     (case recorded_vote xs of
        None \<Rightarrow> Some (vote_sequence v, vote_block v)
      | Some (q, b) \<Rightarrow> Some (q, if q < vote_sequence v then vote_block v else b))"
  by (cases xs) (auto simp: recorded_vote_def)

lemma signed_votes_snoc:
  "signed_votes P a (xs @ [v]) =
     (if vote_account v = a \<and>
         \<not> validate_message P a (vote_hash P (vote_sequence v) (vote_block v)) (vote_signature v)
      then signed_votes P a xs @ [v] else signed_votes P a xs)"
  by (simp add: signed_votes_def)

lemma votes_vote_lookup:
  "map_of (rep_votes (snd (votes_vote P vs v))) a =
     (if vote_account v = a \<and>
         \<not> validate_message P a (vote_hash P (vote_sequence v) (vote_block v)) (vote_signature v)
      then (case map_of (rep_votes vs) a of
              None \<Rightarrow> Some (vote_sequence v, vote_block v)
            | Some (q, b) \<Rightarrow> Some (q, if q < vote_sequence v then vote_block v else b))
      else map_of (rep_votes vs) a)"
  by (auto simp: votes_vote_def block_equal_eq Let_def update_conv' split: option.splits)

lemma votes_vote_distinct:
  "distinct (map fst (rep_votes vs)) \<Longrightarrow> distinct (map fst (rep_votes (snd (votes_vote P vs v))))"
  by (auto simp: votes_vote_def Let_def distinct_update map_of_eq_None_iff split: option.splits)

text \<open>
  C24. What a fork has on record for an account after any sequence of votes is the sequence
  number of the \<^emph>\<open>first\<close> vote that carried its signature, and the block of the last signed
  vote with a larger number than that first one. Unsigned votes never count. The recorded
  number is not raised by later votes, so a vote older than the last one still replaces it,
  although the comment in the code says that only increasing numbers are accepted.
\<close>

theorem votes_on_record:
  "map_of (rep_votes (fold (\<lambda>v vs. snd (votes_vote P vs v)) xs (make_votes root_a))) a =
     recorded_vote (signed_votes P a xs)"
proof (induction xs rule: rev_induct)
  case Nil
  show ?case by (simp add: make_votes_def signed_votes_def recorded_vote_def)
next
  case (snoc v xs)
  then show ?case by (simp add: votes_vote_lookup signed_votes_snoc recorded_vote_snoc)
qed

section \<open>The winner\<close>

definition votes_for :: "block_store \<Rightarrow> votes \<Rightarrow> block \<Rightarrow> nat" where
  "votes_for s vs b =
     sum_list (map (\<lambda>(a, q, c). if c = b then unat (weight_of (weights (view s)) a) else 0) (rep_votes vs))"

definition entries_for :: "ledger_view \<Rightarrow> (account \<times> uint64 \<times> block) list \<Rightarrow> block \<Rightarrow> uint128_t" where
  "entries_for v es b = sum_list (map (\<lambda>(a, q, c). if c = b then weight_of (weights v) a else 0) es)"

lemma totals_add_keys: "set (map fst (totals_add b w ts)) = insert b (set (map fst ts))"
  by (induction b w ts rule: totals_add.induct) (auto simp: block_equal_eq)

lemma totals_add_distinct: "distinct (map fst ts) \<Longrightarrow> distinct (map fst (totals_add b w ts))"
proof (induction b w ts rule: totals_add.induct)
  case (2 b w c t ts)
  then show ?case using totals_add_keys [of b w ts] by (auto simp: block_equal_eq)
qed simp

lemma totals_add_lookup:
  "entry_or 0 (\<lambda>x. x) (map_of (totals_add b w ts) c) =
     entry_or 0 (\<lambda>x. x) (map_of ts c) + (if c = b then w else 0)"
  by (induction b w ts rule: totals_add.induct) (auto simp: block_equal_eq)

lemma tally_totals_props:
  assumes "store_ok s" and "distinct (map fst ts)"
  shows "\<exists>us. tally_totals s es ts = Some us \<and> distinct (map fst us) \<and>
    set (map fst us) = set (map fst ts) \<union> (snd \<circ> snd) ` set es \<and>
    (\<forall>c. entry_or 0 (\<lambda>x. x) (map_of us c) = entry_or 0 (\<lambda>x. x) (map_of ts c) + entries_for (view s) es c)"
  using assms(2)
proof (induction es arbitrary: ts)
  case Nil
  then show ?case by (simp add: entries_for_def)
next
  case (Cons e es)
  obtain a q b where e: "e = (a, q, b)" by (cases e)
  have w: "weight s a = Some (weight_of (weights (view s)) a)"
    using assms(1) by (simp add: weight_def store_simps weight_of_def)
  show ?case
    using Cons.IH [OF totals_add_distinct [OF Cons.prems], of b "weight_of (weights (view s)) a"]
      totals_add_keys [of b "weight_of (weights (view s)) a" ts]
    by (auto simp: e w entries_for_def totals_add_lookup ac_simps)
qed

lemma mdb_sum_keys:
  "distinct ks \<Longrightarrow> sum_list (map (\<lambda>k. entry_or 0 (f k) (mdb_get db k)) ks) \<le> mdb_sum f db"
proof (induction ks arbitrary: f)
  case (Cons k ks)
  let ?g = "\<lambda>j v. if j = k then 0 else f j v"
  have eq: "map (\<lambda>j. entry_or 0 (?g j) (mdb_get db j)) ks = map (\<lambda>j. entry_or 0 (f j) (mdb_get db j)) ks"
    using Cons.prems by (auto simp: entry_or_def split: option.splits)
  have "sum_list (map (\<lambda>j. entry_or 0 (f j) (mdb_get db j)) ks) \<le> mdb_sum ?g db"
    using Cons.IH [of ?g] Cons.prems unfolding eq by simp
  then show ?case using mdb_sum_except [of f db k] by simp
qed simp

lemma fold_put_get:
  "mdb_get (fold (\<lambda>(b, t) result. mdb_put result t b) ts m) t =
     (case map_of (rev (map prod.swap ts)) t of None \<Rightarrow> mdb_get m t | Some b \<Rightarrow> Some b)"
  by (induction ts arbitrary: m) (auto simp: map_add_def split: option.splits)

lemma last_sorted: "sorted_wrt (<) (xs :: 'a::linorder list) \<Longrightarrow> x \<in> set xs \<Longrightarrow> x \<le> last xs"
  by (induction xs) (auto intro: less_imp_le)

lemma votes_for_entries:
  assumes "ledger_ok P s" and "distinct (map fst (rep_votes vs))"
  shows "unat (entries_for (view s) (rep_votes vs) b) = votes_for s vs b"
proof -
  let ?w = "weights (view s)"
  have "sum_list (map (\<lambda>(a, q, c). if c = b then unat (weight_of ?w a) else 0) es) \<le>
      sum_list (map (\<lambda>a. unat (weight_of ?w a)) (map fst es))" for es :: "(account \<times> uint64 \<times> block) list"
    by (induction es) auto
  then have "votes_for s vs b \<le> sum_list (map (\<lambda>a. unat (weight_of ?w a)) (map fst (rep_votes vs)))"
    unfolding votes_for_def .
  also have "\<dots> \<le> mdb_sum (\<lambda>a w. unat w) ?w"
    using mdb_sum_keys [OF assms(2), of "\<lambda>a w. unat w" ?w] by (simp add: entry_or_weight)
  also have "\<dots> \<le> 2 ^ 128 - 1"
    using ledger_okD(7) [OF assms(1)]
    by (simp add: totals_ok_def total_weight_def genesis_amount_def unsigned_minus_1_eq_mask
        mask_eq_exp_minus_1)
  finally have "votes_for s vs b < 2 ^ LENGTH(128)" by simp
  moreover have "entries_for (view s) es b =
      of_nat (sum_list (map (\<lambda>(a, q, c). if c = b then unat (weight_of ?w a) else 0) es))" for es
    by (induction es) (auto simp: entries_for_def)
  ultimately show ?thesis by (simp add: votes_for_def unsigned_of_nat take_bit_nat_eq_self)
qed

text \<open>The tally has an entry for the weight of every block voted for, and no other entry.\<close>

lemma tally_entries:
  assumes ok: "ledger_ok P s" and "distinct (map fst (rep_votes vs))" and "\<forall>ts. set (order ts) = set ts"
  obtains m where "tally order s vs = Some m"
    and "\<And>t b. mdb_get m t = Some b \<Longrightarrow> b \<in> (snd \<circ> snd) ` set (rep_votes vs) \<and> unat t = votes_for s vs b"
    and "\<And>c. c \<in> (snd \<circ> snd) ` set (rep_votes vs) \<Longrightarrow> \<exists>t b. mdb_get m t = Some b \<and> unat t = votes_for s vs c"
    and "\<And>c. c \<notin> (snd \<circ> snd) ` set (rep_votes vs) \<Longrightarrow> votes_for s vs c = 0"
proof -
  let ?voted = "(snd \<circ> snd) ` set (rep_votes vs)"
  note sum = votes_for_entries [OF ok assms(2)]
  obtain us where us: "tally_totals s (rep_votes vs) [] = Some us" "distinct (map fst us)"
    "set (map fst us) = ?voted"
    "\<And>c. entry_or 0 (\<lambda>x. x) (map_of us c) = entries_for (view s) (rep_votes vs) c"
    using tally_totals_props [OF ledger_okD(1) [OF ok], of "[]" "rep_votes vs"] by force
  have total: "unat t = votes_for s vs b" if "(b, t) \<in> set us" for b t
    using us(4) [of b] map_of_is_SomeI [OF us(2) that] sum [of b] by simp
  define m where "m = fold (\<lambda>(b, t) result. mdb_put result t b) (order us) mdb_empty"
  have tally: "tally order s vs = Some m" by (simp add: tally_def us(1) m_def)
  have get: "mdb_get m t = map_of (rev (map prod.swap (order us))) t" for t
    by (simp add: m_def fold_put_get split: option.splits)
  have present: "mdb_get m t \<noteq> None" if "(b, t) \<in> set us" for b t
    unfolding get map_of_eq_None_iff using that assms(3) by (force simp: image_iff)
  have "(b, t) \<in> set us" if "mdb_get m t = Some b" for b t
    using that map_of_SomeD [of _ t b] assms(3) by (fastforce simp: get)
  then have "b \<in> ?voted \<and> unat t = votes_for s vs b" if "mdb_get m t = Some b" for b t
    using that total unfolding us(3) [symmetric] by force
  moreover have "\<exists>t b. mdb_get m t = Some b \<and> unat t = votes_for s vs c" if "c \<in> ?voted" for c
  proof -
    have "c \<in> set (map fst us)" using that us(3) by blast
    then obtain t where "(c, t) \<in> set us" by auto
    then show ?thesis using present [of c t] total [of c t] by blast
  qed
  moreover have "votes_for s vs c = 0" if "c \<notin> ?voted" for c
  proof -
    have "map_of us c = None" using that us(3) by (simp add: map_of_eq_None_iff)
    then show ?thesis using us(4) [of c] sum [of c] by simp
  qed
  ultimately show thesis by (rule that [OF tally])
qed

lemma tally_most_weight:
  assumes ok: "ledger_ok P s"
    and "distinct (map fst (rep_votes vs))" and "rep_votes vs \<noteq> []"
    and "\<forall>ts. set (order ts) = set ts"
  shows "\<exists>m rest w b. tally order s vs = Some m \<and> rev (mdb_entries m) = (w, b) # rest \<and> b \<in> (snd \<circ> snd) ` set (rep_votes vs) \<and>
    unat w = votes_for s vs b \<and> (\<forall>c. votes_for s vs c \<le> unat w) \<and>
    (length (mdb_entries m) = 1 \<longleftrightarrow> (\<forall>c \<in> (snd \<circ> snd) ` set (rep_votes vs). votes_for s vs c = unat w))"
proof -
  let ?voted = "(snd \<circ> snd) ` set (rep_votes vs)"
  obtain m where m: "tally order s vs = Some m"
    "\<And>t b. mdb_get m t = Some b \<Longrightarrow> b \<in> ?voted \<and> unat t = votes_for s vs b"
    "\<And>c. c \<in> ?voted \<Longrightarrow> \<exists>t b. mdb_get m t = Some b \<and> unat t = votes_for s vs c"
    "\<And>c. c \<notin> ?voted \<Longrightarrow> votes_for s vs c = 0"
    by (rule tally_entries [OF ok assms(2,4)]) blast
  obtain c where "c \<in> ?voted" using assms(3) by (cases "rep_votes vs") auto
  from m(3) [OF this] have "mdb_entries m \<noteq> []" by (auto simp: mdb_get_entries)
  then obtain w b rest where win: "rev (mdb_entries m) = (w, b) # rest" by (cases "rev (mdb_entries m)") auto
  then have entries: "mdb_entries m = rev rest @ [(w, b)]" by (simp add: rev_swap)
  have wb: "b \<in> ?voted" "unat w = votes_for s vs b" using m(2) [of w b] by (simp_all add: mdb_get_iff entries)
  have most: "votes_for s vs c \<le> unat w" for c
  proof (cases "c \<in> ?voted")
    case True
    then obtain t d where t: "(t, d) \<in> set (mdb_entries m)" "unat t = votes_for s vs c"
      using m(3) [OF True] by (auto simp: mdb_get_iff)
    then have "t \<le> w" using sorted_mdb_entries [of m] by (auto simp: entries sorted_wrt_append)
    then show ?thesis using t(2) by (simp add: word_le_nat_alt)
  qed (simp add: m(4))
  have "length (mdb_entries m) = 1 \<longleftrightarrow> (\<forall>t d. (t, d) \<in> set (mdb_entries m) \<longrightarrow> t = w)"
    using distinct_mdb_entries [of m] by (cases rest) (auto simp: entries, blast)
  also have "\<dots> \<longleftrightarrow> (\<forall>c \<in> ?voted. votes_for s vs c = unat w)"
  proof
    assume all: "\<forall>t d. (t, d) \<in> set (mdb_entries m) \<longrightarrow> t = w"
    show "\<forall>c \<in> ?voted. votes_for s vs c = unat w"
    proof
      fix c assume "c \<in> ?voted"
      from m(3) [OF this] show "votes_for s vs c = unat w" using all by (auto simp: mdb_get_iff)
    qed
  next
    assume all: "\<forall>c \<in> ?voted. votes_for s vs c = unat w"
    show "\<forall>t d. (t, d) \<in> set (mdb_entries m) \<longrightarrow> t = w"
    proof (intro allI impI)
      fix t d assume "(t, d) \<in> set (mdb_entries m)"
      then have "d \<in> ?voted" "unat t = votes_for s vs d" using m(2) [of t d] by (simp_all add: mdb_get_iff)
      then show "t = w" using all by (simp add: word_unat_eq_iff)
    qed
  qed
  finally show ?thesis using m(1) win wb most by (intro exI conjI allI)
qed

text \<open>
  C23. \<open>ledger::winner\<close> returns a block that was voted for, together with the whole weight of
  the representatives that voted for it, and no block has more: in every reachable store
  the sums of weights do not overflow. This holds whatever order the hash maps iterate in.
\<close>

theorem winner_has_most_weight:
  assumes "history_ok P es" and "ledger_history P t0 es = Some s"
    and "distinct (map fst (rep_votes vs))" and "rep_votes vs \<noteq> []"
    and "\<forall>ts. set (order ts) = set ts"
  shows "\<exists>w b. winner order s vs = Some (w, b) \<and> b \<in> (snd \<circ> snd) ` set (rep_votes vs) \<and>
    unat w = votes_for s vs b \<and> (\<forall>c. votes_for s vs c \<le> unat w)"
proof -
  obtain m rest w b where "tally order s vs = Some m" "rev (mdb_entries m) = (w, b) # rest"
    and r: "b \<in> (snd \<circ> snd) ` set (rep_votes vs)" "unat w = votes_for s vs b" "\<forall>c. votes_for s vs c \<le> unat w"
    using tally_most_weight [OF ledger_history_inv(3) [OF assms(1,2)] assms(3-5)] by blast
  then have "winner order s vs = Some (w, b)" by (simp add: winner_def)
  then show ?thesis using r by blast
qed

theorem winner_has_most_weight_witness:
  "\<exists>s w b. ledger_history sample_platform 0 [(1, sample_send)] = Some s \<and>
     winner rev s \<lparr>votes_sequence = 1, votes_id = 0xD0B060,
       rep_votes = [(paper_test_account, 2, sample_send), (7, 3, sample_mute)]\<rparr> = Some (w, b) \<and>
     b \<in> {sample_send, sample_mute}"
proof -
  obtain s where s: "ledger_history sample_platform 0 [(1, sample_send)] = Some s"
    "history_ok sample_platform [(1, sample_send)]" "view s = sample_sent"
    by (rule sample_sent_history)
  let ?vs = "\<lparr>votes_sequence = 1, votes_id = 0xD0B060,
    rep_votes = [(paper_test_account, 2, sample_send), (7, 3, sample_mute)]\<rparr>"
  have "distinct (map fst (rep_votes ?vs))" by (simp add: paper_test_account_def)
  from winner_has_most_weight [OF s(2,1) this, of rev] show ?thesis using s(1) by auto
qed

end
