(* ===== verification/Gap_Cache.thy ===== *)
theory Gap_Cache
  imports Votes "HOL-Library.Multiset"
begin

text \<open>
  The gap cache of \<open>paper/node.cpp\<close>: blocks that arrived before a block they depend on, kept
  under the hash they wait for, at most 128 of them.

  The container has unique indices on \<open>required\<close> and \<open>hash\<close> and one ordered by \<open>arrival\<close>. It is
  the list of its elements; inserting an element that collides in a unique index does
  nothing, and the element \<open>get <1> ().begin ()\<close> is the first one with the least arrival.
\<close>

record gap_information =
  gap_arrival :: nat
  gap_required :: block_hash
  gap_hash :: block_hash
  gap_votes :: votes
  gap_block :: block

type_synonym gap_cache = "gap_information list"

definition gap_max :: nat where
  "gap_max = 128"

definition gap_find :: "gap_cache \<Rightarrow> block_hash \<Rightarrow> gap_information option" where
  "gap_find gs needed_a = find (\<lambda>g. gap_required g = needed_a) gs"

definition gap_insert :: "gap_cache \<Rightarrow> gap_information \<Rightarrow> gap_cache" where
  "gap_insert gs g =
     (if gap_required g \<in> gap_required ` set gs \<or> gap_hash g \<in> gap_hash ` set gs then gs else gs @ [g])"

fun erase_first :: "nat \<Rightarrow> gap_cache \<Rightarrow> gap_cache" where
  "erase_first t [] = []"
| "erase_first t (g # gs) = (if gap_arrival g = t then gs else g # erase_first t gs)"

definition gap_erase_oldest :: "gap_cache \<Rightarrow> gap_cache" where
  "gap_erase_oldest gs = erase_first (Min (set (map gap_arrival gs))) gs"

definition gap_cache_add :: "platform \<Rightarrow> nat \<Rightarrow> gap_cache \<Rightarrow> block \<Rightarrow> block_hash \<Rightarrow> gap_cache" where
  "gap_cache_add P now gs block_a needed_a =
     (case gap_find gs needed_a of
        Some existing \<Rightarrow>
          map (\<lambda>g. if gap_required g = needed_a then g\<lparr>gap_arrival := now\<rparr> else g) gs
      | None \<Rightarrow>
          let hash = block_hash P block_a;
              gs = gap_insert gs \<lparr>gap_arrival = now, gap_required = needed_a, gap_hash = hash,
                gap_votes = make_votes hash, gap_block = block_a\<rparr>
          in if gap_max < length gs then gap_erase_oldest gs else gs)"

definition gap_cache_get :: "gap_cache \<Rightarrow> block_hash \<Rightarrow> block option \<times> gap_cache" where
  "gap_cache_get gs hash_a =
     (case gap_find gs hash_a of
        Some existing \<Rightarrow> (Some (gap_block existing), filter (\<lambda>g. gap_required g \<noteq> hash_a) gs)
      | None \<Rightarrow> (None, gs))"

definition bootstrap_threshold :: "platform \<Rightarrow> block_store \<Rightarrow> uint128_t \<Rightarrow> uint128_t exec" where
  "bootstrap_threshold P s numerator = do {
     supply_l \<leftarrow> ledger_supply P s;
     Some (supply_l div 256 * numerator)
   }"

text \<open>The second component says whether a bootstrap is initiated.\<close>

definition gap_cache_vote ::
  "platform \<Rightarrow> ((block \<times> uint128_t) list \<Rightarrow> (block \<times> uint128_t) list) \<Rightarrow> block_store \<Rightarrow> uint128_t \<Rightarrow>
     gap_cache \<Rightarrow> vote \<Rightarrow> (gap_cache \<times> bool) exec" where
  "gap_cache_vote P order s numerator gs vote_a =
     (let hash = block_hash P (vote_block vote_a) in
      case find (\<lambda>g. gap_hash g = hash) gs of
        None \<Rightarrow> Some (gs, False)
      | Some existing \<Rightarrow>
          let (changed, votes_l) = votes_vote P (gap_votes existing) vote_a;
              gs = map (\<lambda>g. if gap_hash g = hash then g\<lparr>gap_votes := votes_l\<rparr> else g) gs
          in if changed then do {
               (weight_l, block_l) \<leftarrow> winner order s votes_l;
               threshold \<leftarrow> bootstrap_threshold P s numerator;
               Some (gs, threshold < weight_l)
             } else Some (gs, False))"

section \<open>The cache stays well-formed\<close>

definition gaps_ok :: "platform \<Rightarrow> gap_cache \<Rightarrow> bool" where
  "gaps_ok P gs \<longleftrightarrow> length gs \<le> gap_max \<and> distinct (map gap_required gs) \<and> distinct (map gap_hash gs) \<and>
     (\<forall>g\<in>set gs. gap_hash g = block_hash P (gap_block g))"

lemma erase_first_props:
  "set (erase_first t gs) \<subseteq> set gs"
  "distinct (map f gs) \<Longrightarrow> distinct (map f (erase_first t gs))"
  "t \<in> gap_arrival ` set gs \<Longrightarrow> Suc (length (erase_first t gs)) = length gs"
proof -
  show sub: "set (erase_first t gs) \<subseteq> set gs" for gs by (induction gs) auto
  show "distinct (map f gs) \<Longrightarrow> distinct (map f (erase_first t gs))"
  proof (induction gs)
    case (Cons g gs)
    have "f g \<notin> f ` set (erase_first t gs)" using Cons.prems sub [of gs] by auto
    then show ?case using Cons by auto
  qed simp
  show "t \<in> gap_arrival ` set gs \<Longrightarrow> Suc (length (erase_first t gs)) = length gs" by (induction gs) auto
qed

lemma oldest_arrival: "gs \<noteq> [] \<Longrightarrow> Min (set (map gap_arrival gs)) \<in> gap_arrival ` set gs"
  using Min_in [of "set (map gap_arrival gs)"] by auto

lemma map_key_update:
  fixes f :: "gap_information \<Rightarrow> gap_information"
  assumes "\<And>g. k (f g) = k g"
  shows "k \<circ> (\<lambda>g. if c g then f g else g) = k"
  using assms by auto

lemma gap_cache_add_ok:
  assumes "gaps_ok P gs"
  shows "gaps_ok P (gap_cache_add P now gs b needed)"
proof (cases "gap_find gs needed")
  case (Some g)
  then show ?thesis
    using assms map_key_update [of gap_required "\<lambda>g. g\<lparr>gap_arrival := now\<rparr>" "\<lambda>g. gap_required g = needed"]
      map_key_update [of gap_hash "\<lambda>g. g\<lparr>gap_arrival := now\<rparr>" "\<lambda>g. gap_required g = needed"]
    by (auto simp: gap_cache_add_def gaps_ok_def)
next
  case None
  define g where "g = \<lparr>gap_arrival = now, gap_required = needed, gap_hash = block_hash P b,
    gap_votes = make_votes (block_hash P b), gap_block = b\<rparr>"
  define gs' where "gs' = gap_insert gs g"
  have gs': "length gs' \<le> Suc gap_max" "distinct (map gap_required gs')" "distinct (map gap_hash gs')"
    "\<forall>g\<in>set gs'. gap_hash g = block_hash P (gap_block g)"
    using assms by (auto simp: gs'_def gap_insert_def gaps_ok_def g_def)
  have eq: "gap_cache_add P now gs b needed = (if gap_max < length gs' then gap_erase_oldest gs' else gs')"
    using None by (simp add: gap_cache_add_def Let_def gs'_def g_def)
  show ?thesis
  proof (cases "gap_max < length gs'")
    case True
    then have "gs' \<noteq> []" by auto
    from erase_first_props(3) [OF oldest_arrival [OF this]] True gs'(1)
    have "length (gap_erase_oldest gs') \<le> gap_max" by (simp add: gap_erase_oldest_def)
    moreover have "set (gap_erase_oldest gs') \<subseteq> set gs'" by (simp add: gap_erase_oldest_def erase_first_props(1))
    ultimately show ?thesis
      using True gs'(2-4) by (auto simp: eq gaps_ok_def gap_erase_oldest_def intro: erase_first_props(2))
  next
    case False
    then show ?thesis using gs' by (simp add: eq gaps_ok_def)
  qed
qed

lemma gap_cache_get_ok: "gaps_ok P gs \<Longrightarrow> gaps_ok P (snd (gap_cache_get gs h))"
  by (auto simp: gap_cache_get_def gaps_ok_def distinct_map_filter split: option.splits
      intro: order.trans [OF length_filter_le])

lemma gap_cache_vote_ok:
  assumes "gaps_ok P gs" and "gap_cache_vote P order s n gs v = Some (gs', boot)"
  shows "gaps_ok P gs'"
proof -
  let ?h = "block_hash P (vote_block v)"
  have "gs' = gs \<or> (\<exists>vs. gs' = map (\<lambda>g. if gap_hash g = ?h then g\<lparr>gap_votes := vs\<rparr> else g) gs)"
    using assms(2) by (auto simp: gap_cache_vote_def Let_def bind_eq_Some_conv split: option.splits prod.splits if_splits)
  moreover have "gaps_ok P (map (\<lambda>g. if gap_hash g = ?h then g\<lparr>gap_votes := vs\<rparr> else g) gs)" for vs
    using assms(1) map_key_update [of gap_required "\<lambda>g. g\<lparr>gap_votes := vs\<rparr>" "\<lambda>g. gap_hash g = ?h"]
      map_key_update [of gap_hash "\<lambda>g. g\<lparr>gap_votes := vs\<rparr>" "\<lambda>g. gap_hash g = ?h"]
    by (auto simp: gaps_ok_def)
  ultimately show ?thesis using assms(1) by blast
qed

text \<open>The calls on the cache, as a sequence of events.\<close>

datatype gap_event = Gap_add nat block block_hash | Gap_get block_hash | Gap_vote vote

fun gap_step ::
  "platform \<Rightarrow> ((block \<times> uint128_t) list \<Rightarrow> (block \<times> uint128_t) list) \<Rightarrow> block_store \<Rightarrow> uint128_t \<Rightarrow>
     gap_cache \<Rightarrow> gap_event \<Rightarrow> gap_cache exec" where
  "gap_step P order s n gs (Gap_add now b needed) = Some (gap_cache_add P now gs b needed)"
| "gap_step P order s n gs (Gap_get h) = Some (snd (gap_cache_get gs h))"
| "gap_step P order s n gs (Gap_vote v) = do { (gs, boot) \<leftarrow> gap_cache_vote P order s n gs v; Some gs }"

fun gap_run ::
  "platform \<Rightarrow> ((block \<times> uint128_t) list \<Rightarrow> (block \<times> uint128_t) list) \<Rightarrow> uint128_t \<Rightarrow>
     gap_cache \<Rightarrow> (block_store \<times> gap_event) list \<Rightarrow> gap_cache exec" where
  "gap_run P order n gs [] = Some gs"
| "gap_run P order n gs ((s, e) # es) = do { gs \<leftarrow> gap_step P order s n gs e; gap_run P order n gs es }"

lemma gap_run_ok:
  assumes "gaps_ok P gs" and "gap_run P order n gs es = Some gs'"
  shows "gaps_ok P gs'"
  using assms
proof (induction es arbitrary: gs)
  case (Cons e es)
  obtain s ev where e: "e = (s, ev)" by (cases e)
  with Cons.prems obtain g1 where g1: "gap_step P order s n gs ev = Some g1" "gap_run P order n g1 es = Some gs'"
    by (auto simp: bind_eq_Some_conv)
  have "gaps_ok P g1"
    using g1(1) Cons.prems(1) by (cases ev)
      (auto simp: bind_eq_Some_conv intro: gap_cache_add_ok gap_cache_get_ok gap_cache_vote_ok)
  then show ?case using Cons.IH g1(2) by blast
qed simp

text \<open>What \<open>get\<close> gives after an \<open>add\<close> that found room.\<close>

lemma gap_get_after_add:
  assumes "gap_find gs needed = None" and "block_hash P b \<notin> gap_hash ` set gs" and "length gs < gap_max"
  shows "gap_cache_get (gap_cache_add P now gs b needed) needed = (Some b, gs)"
    and "h \<noteq> needed \<Longrightarrow> fst (gap_cache_get (gap_cache_add P now gs b needed) h) = fst (gap_cache_get gs h)"
proof -
  have new: "needed \<notin> gap_required ` set gs" using assms(1) by (auto simp: gap_find_def find_None_iff)
  let ?g = "\<lparr>gap_arrival = now, gap_required = needed, gap_hash = block_hash P b,
    gap_votes = make_votes (block_hash P b), gap_block = b\<rparr>"
  have eq: "gap_cache_add P now gs b needed = gs @ [?g]"
    using assms new by (simp add: gap_cache_add_def gap_insert_def Let_def)
  have app: "find p (xs @ ys) = (case find p xs of None \<Rightarrow> find p ys | Some x \<Rightarrow> Some x)" for p xs ys
    by (induction xs) auto
  have "filter (\<lambda>g. gap_required g \<noteq> needed) gs = gs" using new by (auto intro: filter_True)
  then show "gap_cache_get (gap_cache_add P now gs b needed) needed = (Some b, gs)"
    using assms(1) by (simp add: eq gap_cache_get_def gap_find_def app)
  show "h \<noteq> needed \<Longrightarrow> fst (gap_cache_get (gap_cache_add P now gs b needed) h) = fst (gap_cache_get gs h)"
    by (simp add: eq gap_cache_get_def gap_find_def app split: option.splits)
qed

text \<open>What an \<open>add\<close> to a full cache evicts.\<close>

lemma erase_first_mset:
  "t \<in> gap_arrival ` set gs \<Longrightarrow>
     \<exists>g\<in>set gs. gap_arrival g = t \<and> mset gs = add_mset g (mset (erase_first t gs))"
  by (induction gs) auto

lemma erase_first_append:
  "t \<in> gap_arrival ` set gs \<Longrightarrow> erase_first t (gs @ hs) = erase_first t gs @ hs"
  by (induction gs) auto

lemma gap_add_full:
  assumes "gap_find gs needed = None" and "block_hash P b \<notin> gap_hash ` set gs" and "length gs = gap_max"
    and "\<forall>g\<in>set gs. gap_arrival g \<le> now"
  shows "\<exists>old new. gap_block new = b \<and> gap_required new = needed \<and> old \<in> set gs \<and>
    (\<forall>g\<in>set gs. gap_arrival old \<le> gap_arrival g) \<and>
    add_mset old (mset (gap_cache_add P now gs b needed)) = add_mset new (mset gs)"
proof -
  let ?g = "\<lparr>gap_arrival = now, gap_required = needed, gap_hash = block_hash P b,
    gap_votes = make_votes (block_hash P b), gap_block = b\<rparr>" and ?t = "Min (set (map gap_arrival gs))"
  have "needed \<notin> gap_required ` set gs" using assms(1) by (auto simp: gap_find_def find_None_iff)
  then have eq: "gap_cache_add P now gs b needed = gap_erase_oldest (gs @ [?g])"
    using assms by (simp add: gap_cache_add_def gap_insert_def Let_def)
  have ne: "gs \<noteq> []" using assms(3) by (auto simp: gap_max_def)
  have least: "?t \<in> gap_arrival ` set gs" "\<forall>g\<in>set gs. ?t \<le> gap_arrival g"
    using oldest_arrival [OF ne] by auto
  have "?t \<le> now" using least(1) assms(4) by auto
  then have "Min (set (map gap_arrival (gs @ [?g]))) = ?t"
    using ne by (simp add: min.absorb2 del: Min_le_iff Min_ge_iff)
  then have "gap_cache_add P now gs b needed = erase_first ?t gs @ [?g]"
    unfolding eq gap_erase_oldest_def using erase_first_append [OF least(1)] by simp
  moreover obtain g where "g \<in> set gs" "gap_arrival g = ?t" "mset gs = add_mset g (mset (erase_first ?t gs))"
    using erase_first_mset [OF least(1)] by blast
  ultimately show ?thesis using least(2) by (intro exI [of _ g] exI [of _ ?g]) auto
qed

text \<open>A block that is not taken in: another block waits for the same hash, or it is there already.\<close>

lemma gap_add_waiting:
  "needed \<in> gap_required ` set gs \<Longrightarrow>
     map (gap_arrival_update (\<lambda>_. 0)) (gap_cache_add P now gs b needed) = map (gap_arrival_update (\<lambda>_. 0)) gs"
  by (cases "gap_find gs needed") (auto simp: gap_cache_add_def gap_find_def find_None_iff)

lemma gap_add_known:
  assumes "needed \<notin> gap_required ` set gs" and "block_hash P b \<in> gap_hash ` set gs" and "length gs \<le> gap_max"
  shows "gap_cache_add P now gs b needed = gs"
proof -
  have "gap_find gs needed = None" using assms(1) by (auto simp: gap_find_def find_None_iff)
  then show ?thesis using assms(2,3) by (simp add: gap_cache_add_def gap_insert_def Let_def)
qed



end
