(* ===== verification/Messages.thy ===== *)
theory Messages
  imports Votes
begin

text \<open>
  The datagrams and requests of \<open>paper/node.cpp\<close>: the header every message starts with, the
  seven message classes with their byte forms, and \<open>message_parser\<close>, which sees every
  datagram that arrives. A field of a base class is a field \<open>header\<close> of the record. A
  failed read leaves the variable it should have filled as it was; where the code goes on
  with such a variable, its content before is an argument of the model.
\<close>

section \<open>Small integers and endpoints\<close>

type_synonym uint16 = "16 word"

definition bytes16 :: "uint16 \<Rightarrow> byte list" where
  "bytes16 w = le_store 2 w"

definition bytes32 :: "uint32 \<Rightarrow> byte list" where
  "bytes32 w = le_store 4 w"

definition read_uint16 :: "byte list \<Rightarrow> (uint16 \<times> byte list) option" where
  "read_uint16 s = map_option (map_prod le_load id) (stream_read 2 s)"

definition read_uint32 :: "byte list \<Rightarrow> (uint32 \<times> byte list) option" where
  "read_uint32 s = map_option (map_prod le_load id) (stream_read 4 s)"

definition read_uint8 :: "byte list \<Rightarrow> (byte \<times> byte list) option" where
  "read_uint8 s = (case s of [] \<Rightarrow> None | b # s \<Rightarrow> Some (b, s))"

lemma small_bytes [simp]:
  "length (bytes16 a) = 2" "length (bytes32 b) = 4"
  "le_load (bytes16 a) = a" "le_load (bytes32 b) = b"
  by (simp_all add: bytes16_def bytes32_def le_load_store)

interpretation u16: codec bytes16 read_uint16 2
  by unfold_locales
    (auto simp: read_uint16_def stream_read_Some stream_read_None bytes16_def le_store_load le_load_store
      intro: exI [of _ "bytes16 _"])

interpretation u32: codec bytes32 read_uint32 4
  by unfold_locales
    (auto simp: read_uint32_def stream_read_Some stream_read_None bytes32_def le_store_load le_load_store
      intro: exI [of _ "bytes32 _"])

interpretation u8: codec "\<lambda>b. [b]" read_uint8 1
  by unfold_locales (auto simp: read_uint8_def split: list.splits)

lemmas small_reads [codec_simps] = u16.dec_Some u32.dec_Some u8.dec_Some

datatype ip_address = V4 uint32 | V6 uint128_t

record endpoint =
  ep_address :: ip_address
  ep_port :: uint16

section \<open>The header\<close>

datatype message_type =
    Mt_invalid | Mt_not_a_type | Mt_keepalive | Mt_publish | Mt_confirm_req | Mt_confirm_ack
  | Mt_bulk_pull | Mt_bulk_push | Mt_frontier_req

fun message_type_code :: "message_type \<Rightarrow> byte" where
  "message_type_code Mt_invalid = 0"
| "message_type_code Mt_not_a_type = 1"
| "message_type_code Mt_keepalive = 2"
| "message_type_code Mt_publish = 3"
| "message_type_code Mt_confirm_req = 4"
| "message_type_code Mt_confirm_ack = 5"
| "message_type_code Mt_bulk_pull = 6"
| "message_type_code Mt_bulk_push = 7"
| "message_type_code Mt_frontier_req = 8"

text \<open>The type is an enumeration kept in a byte, which may hold any value when it was read.\<close>

record message =
  version_max :: byte
  version_using :: byte
  version_min :: byte
  message_kind :: byte
  extensions :: uint16

definition magic_number :: "platform \<Rightarrow> byte list" where
  "magic_number P =
     [0x52, if network P = paper_test_network then 0x41
            else if network P = paper_beta_network then 0x42 else 0x43]"

definition block_type_mask :: uint16 where
  "block_type_mask = 0x0f00"

definition make_message :: "message_type \<Rightarrow> message" where
  "make_message t =
     \<lparr>version_max = 1, version_using = 1, version_min = 1, message_kind = message_type_code t,
      extensions = 0\<rparr>"

definition message_block_type :: "message \<Rightarrow> block_type option" where
  "message_block_type m = block_type_of_byte (ucast (drop_bit 8 (extensions m AND block_type_mask)))"

definition block_type_set :: "block_type \<Rightarrow> message \<Rightarrow> message" where
  "block_type_set t m =
     m\<lparr>extensions := (extensions m AND NOT block_type_mask) OR push_bit 8 (ucast (block_type_code t))\<rparr>"

definition ipv4_only :: "message \<Rightarrow> bool" where
  "ipv4_only m = bit (extensions m) 1"

definition ipv4_only_set :: "bool \<Rightarrow> message \<Rightarrow> message" where
  "ipv4_only_set value m =
     m\<lparr>extensions := (if value then set_bit 1 (extensions m) else unset_bit 1 (extensions m))\<rparr>"

definition write_header :: "platform \<Rightarrow> message \<Rightarrow> byte list" where
  "write_header P m =
     magic_number P @ [version_max m] @ [version_using m] @ [version_min m] @ [message_kind m] @
     bytes16 (extensions m)"

definition read_header :: "platform \<Rightarrow> byte list \<Rightarrow> (message \<times> byte list) option" where
  "read_header P s = do {
     (magic, s) \<leftarrow> stream_read 2 s;
     if magic \<noteq> magic_number P then None
     else do {
       (v_max, s) \<leftarrow> read_uint8 s;
       (v_using, s) \<leftarrow> read_uint8 s;
       (v_min, s) \<leftarrow> read_uint8 s;
       (kind, s) \<leftarrow> read_uint8 s;
       (ext, s) \<leftarrow> read_uint16 s;
       Some (\<lparr>version_max = v_max, version_using = v_using, version_min = v_min,
         message_kind = kind, extensions = ext\<rparr>, s)
     }
   }"

interpretation header: stream_format "write_header P" "read_header P" "\<lambda>_. True"
proof
  fix s r and m :: message
  have "length (magic_number P) = 2" by (simp add: magic_number_def)
  then show "read_header P s = Some (m, r) \<longleftrightarrow> True \<and> s = write_header P m @ r"
    by (cases m) (auto simp: read_header_def write_header_def bind_eq_Some_conv codec_simps stream_read_Some)
qed

lemmas header_Some [codec_simps] = header.dec_iff

text \<open>The block type set in a header is the one read from it.\<close>

lemma block_type_code_and: "block_type_code t AND 0xf = block_type_code t"
  by (cases t) simp_all

lemma message_block_type_set [simp]: "message_block_type (block_type_set t m) = Some t"
proof -
  have "drop_bit 8 (((extensions m AND NOT block_type_mask) OR push_bit 8 (ucast (block_type_code t)))
      AND block_type_mask) = (ucast (block_type_code t) :: uint16)"
    unfolding bit.conj_disj_distrib2 block_type_mask_def
    by (cases t) (simp_all add: and.assoc)
  then show ?thesis
    by (cases t) (simp_all add: message_block_type_def block_type_set_def block_type_of_byte_def)
qed

section \<open>The messages\<close>

record keepalive =
  keepalive_header :: message
  keepalive_peers :: "endpoint list"

record publish =
  publish_header :: message
  publish_block :: "block option"

record confirm_req =
  confirm_req_header :: message
  confirm_req_block :: "block option"

record confirm_ack =
  confirm_ack_header :: message
  confirm_ack_vote :: vote

record frontier_req =
  frontier_req_header :: message
  frontier_req_start :: account
  frontier_req_age :: uint32
  frontier_req_count :: uint32

record bulk_pull =
  bulk_pull_header :: message
  bulk_pull_start :: uint256_union
  bulk_pull_end :: block_hash

record bulk_push =
  bulk_push_header :: message

definition make_keepalive :: keepalive where
  "make_keepalive =
     \<lparr>keepalive_header = make_message Mt_keepalive,
      keepalive_peers = replicate 8 \<lparr>ep_address = V6 0, ep_port = 0\<rparr>\<rparr>"

definition make_publish :: "block \<Rightarrow> publish" where
  "make_publish b =
     \<lparr>publish_header = block_type_set (type_of b) (make_message Mt_publish), publish_block = Some b\<rparr>"

definition make_confirm_req :: "block \<Rightarrow> confirm_req" where
  "make_confirm_req b =
     \<lparr>confirm_req_header = block_type_set (type_of b) (make_message Mt_confirm_req),
      confirm_req_block = Some b\<rparr>"

definition make_confirm_ack :: "platform \<Rightarrow> account \<Rightarrow> private_key \<Rightarrow> uint64 \<Rightarrow> block \<Rightarrow> confirm_ack" where
  "make_confirm_ack P account_a prv_a sequence_a b =
     \<lparr>confirm_ack_header = block_type_set (type_of b) (make_message Mt_confirm_ack),
      confirm_ack_vote = make_vote P account_a prv_a sequence_a b\<rparr>"

fun endpoint_bytes :: "endpoint list \<Rightarrow> byte list exec" where
  "endpoint_bytes [] = Some []"
| "endpoint_bytes (e # es) =
     (case ep_address e of
        V4 a \<Rightarrow> None
      | V6 a \<Rightarrow> map_option (\<lambda>bs. bytes128 a @ bytes16 (ep_port e) @ bs) (endpoint_bytes es))"

definition keepalive_serialize :: "platform \<Rightarrow> keepalive \<Rightarrow> byte list exec" where
  "keepalive_serialize P m =
     map_option (\<lambda>bs. write_header P (keepalive_header m) @ bs) (endpoint_bytes (keepalive_peers m))"

text \<open>A read into a variable that holds \<open>was\<close>, with its result ignored.\<close>

definition read_into :: "byte list \<Rightarrow> byte list \<Rightarrow> byte list \<times> byte list" where
  "read_into was s = (take (length was) s @ drop (length s) was, drop (length was) s)"

fun peers_read :: "(nat \<Rightarrow> uint128_t \<times> uint16) \<Rightarrow> nat \<Rightarrow> byte list \<Rightarrow> endpoint list \<times> byte list" where
  "peers_read junk 0 s = ([], s)"
| "peers_read junk (Suc n) s =
     (let (address, s) = read_into (bytes128 (fst (junk n))) s;
          (port, s) = read_into (bytes16 (snd (junk n))) s;
          (ps, s) = peers_read junk n s
      in (\<lparr>ep_address = V6 (number128 address), ep_port = le_load port\<rparr> # ps, s))"

definition keepalive_deserialize ::
  "platform \<Rightarrow> (nat \<Rightarrow> uint128_t \<times> uint16) \<Rightarrow> byte list \<Rightarrow> (keepalive \<times> byte list) exec" where
  "keepalive_deserialize P junk s = do {
     (h, s) \<leftarrow> read_header P s;
     assert (message_kind h = message_type_code Mt_keepalive);
     let (ps, s) = peers_read junk 8 s;
     Some (\<lparr>keepalive_header = h, keepalive_peers = ps\<rparr>, s)
   }"

definition publish_serialize :: "platform \<Rightarrow> publish \<Rightarrow> byte list exec" where
  "publish_serialize P m =
     map_option (\<lambda>b. write_header P (publish_header m) @ serialize b) (publish_block m)"

definition publish_deserialize :: "platform \<Rightarrow> byte list \<Rightarrow> (publish \<times> byte list) option exec" where
  "publish_deserialize P s = do {
     (h, s) \<leftarrow> read_header P s;
     assert (message_kind h = message_type_code Mt_publish);
     Some (map_option (map_prod (\<lambda>b. \<lparr>publish_header = h, publish_block = Some b\<rparr>) id)
       (deserialize_block_typed s (message_block_type h)))
   }"

definition confirm_req_serialize :: "platform \<Rightarrow> confirm_req \<Rightarrow> byte list exec" where
  "confirm_req_serialize P m =
     map_option (\<lambda>b. write_header P (confirm_req_header m) @ serialize b) (confirm_req_block m)"

definition confirm_req_deserialize :: "platform \<Rightarrow> byte list \<Rightarrow> (confirm_req \<times> byte list) option exec" where
  "confirm_req_deserialize P s = do {
     (h, s) \<leftarrow> read_header P s;
     assert (message_kind h = message_type_code Mt_confirm_req);
     Some (map_option (map_prod (\<lambda>b. \<lparr>confirm_req_header = h, confirm_req_block = Some b\<rparr>) id)
       (deserialize_block_typed s (message_block_type h)))
   }"

definition confirm_ack_serialize :: "platform \<Rightarrow> confirm_ack \<Rightarrow> byte list exec" where
  "confirm_ack_serialize P m =
     (let h = confirm_ack_header m; v = confirm_ack_vote m in do {
        assert (message_block_type h \<in> {Some Bt_send, Some Bt_receive, Some Bt_open, Some Bt_change});
        Some (write_header P h @ bytes256 (vote_account v) @ bytes512 (vote_signature v) @
          bytes64 (vote_sequence v) @ serialize (vote_block v))
      })"

text \<open>The constructor that reads the message off a stream, with its error as \<open>None\<close>.\<close>

definition confirm_ack_read :: "platform \<Rightarrow> byte list \<Rightarrow> (confirm_ack \<times> byte list) option" where
  "confirm_ack_read P s = do {
     (h, s) \<leftarrow> read_header P s;
     (v, s) \<leftarrow> vote_read s (message_block_type h);
     Some (\<lparr>confirm_ack_header = h, confirm_ack_vote = v\<rparr>, s)
   }"

definition confirm_ack_deserialize :: "platform \<Rightarrow> byte list \<Rightarrow> (confirm_ack \<times> byte list) option exec" where
  "confirm_ack_deserialize P s = do {
     (h, s) \<leftarrow> read_header P s;
     assert (message_kind h = message_type_code Mt_confirm_ack);
     Some (do {
       (account_a, s) \<leftarrow> read_uint256 s;
       (signature_a, s) \<leftarrow> read_uint512 s;
       (sequence_a, s) \<leftarrow> read_uint64 s;
       (block_a, s) \<leftarrow> deserialize_block_typed s (message_block_type h);
       Some (\<lparr>confirm_ack_header = h, confirm_ack_vote = \<lparr>vote_sequence = sequence_a,
         vote_block = block_a, vote_account = account_a, vote_signature = signature_a\<rparr>\<rparr>, s)
     })
   }"

definition frontier_req_serialize :: "platform \<Rightarrow> frontier_req \<Rightarrow> byte list" where
  "frontier_req_serialize P m =
     write_header P (frontier_req_header m) @ bytes256 (frontier_req_start m) @
     bytes32 (frontier_req_age m) @ bytes32 (frontier_req_count m)"

definition frontier_req_deserialize :: "platform \<Rightarrow> byte list \<Rightarrow> (frontier_req \<times> byte list) option exec" where
  "frontier_req_deserialize P s = do {
     (h, s) \<leftarrow> read_header P s;
     assert (message_kind h = message_type_code Mt_frontier_req);
     Some (do {
       (start, s) \<leftarrow> read_uint256 s;
       (age, s) \<leftarrow> read_uint32 s;
       (cnt, s) \<leftarrow> read_uint32 s;
       Some (\<lparr>frontier_req_header = h, frontier_req_start = start, frontier_req_age = age,
         frontier_req_count = cnt\<rparr>, s)
     })
   }"

definition bulk_pull_serialize :: "platform \<Rightarrow> bulk_pull \<Rightarrow> byte list" where
  "bulk_pull_serialize P m =
     write_header P (bulk_pull_header m) @ bytes256 (bulk_pull_start m) @ bytes256 (bulk_pull_end m)"

definition bulk_pull_deserialize :: "platform \<Rightarrow> byte list \<Rightarrow> (bulk_pull \<times> byte list) option exec" where
  "bulk_pull_deserialize P s = do {
     (h, s) \<leftarrow> read_header P s;
     assert (message_kind h = message_type_code Mt_bulk_pull);
     Some (do {
       (start, s) \<leftarrow> read_uint256 s;
       (last_a, s) \<leftarrow> read_uint256 s;
       Some (\<lparr>bulk_pull_header = h, bulk_pull_start = start, bulk_pull_end = last_a\<rparr>, s)
     })
   }"

definition bulk_push_serialize :: "platform \<Rightarrow> bulk_push \<Rightarrow> byte list" where
  "bulk_push_serialize P m = write_header P (bulk_push_header m)"

definition bulk_push_deserialize :: "platform \<Rightarrow> byte list \<Rightarrow> (bulk_push \<times> byte list) option exec" where
  "bulk_push_deserialize P s = do {
     (h, s) \<leftarrow> read_header P s;
     assert (message_kind h = message_type_code Mt_bulk_push);
     Some (Some (\<lparr>bulk_push_header = h\<rparr>, s))
   }"

text \<open>Equality of messages compares what they carry, not their headers.\<close>

definition keepalive_equal :: "keepalive \<Rightarrow> keepalive \<Rightarrow> bool" where
  "keepalive_equal a b \<longleftrightarrow> keepalive_peers a = keepalive_peers b"

definition confirm_ack_equal :: "confirm_ack \<Rightarrow> confirm_ack \<Rightarrow> bool" where
  "confirm_ack_equal a b \<longleftrightarrow>
     (let v = confirm_ack_vote a; w = confirm_ack_vote b in
      vote_account v = vote_account w \<and> block_equal (vote_block v) (vote_block w) \<and>
      vote_signature v = vote_signature w \<and> vote_sequence v = vote_sequence w)"

definition frontier_req_equal :: "frontier_req \<Rightarrow> frontier_req \<Rightarrow> bool" where
  "frontier_req_equal a b \<longleftrightarrow>
     frontier_req_start a = frontier_req_start b \<and> frontier_req_age a = frontier_req_age b \<and>
     frontier_req_count a = frontier_req_count b"

section \<open>The parser\<close>

datatype incoming =
    In_keepalive keepalive
  | In_publish publish
  | In_confirm_req confirm_req
  | In_confirm_ack confirm_ack

record message_parser =
  parser_error :: bool
  parser_insufficient_work :: bool

definition make_parser :: message_parser where
  "make_parser = \<lparr>parser_error = False, parser_insufficient_work = False\<rparr>"

definition at_end :: "byte list \<Rightarrow> bool" where
  "at_end s = (read_uint8 s = None)"

definition deserialize_keepalive ::
  "platform \<Rightarrow> (nat \<Rightarrow> uint128_t \<times> uint16) \<Rightarrow> byte list \<Rightarrow> message_parser \<Rightarrow>
     (message_parser \<times> incoming option) exec" where
  "deserialize_keepalive P junk buffer p = do {
     (m, s) \<leftarrow> keepalive_deserialize P junk buffer;
     Some (if at_end s then (p, Some (In_keepalive m)) else (p\<lparr>parser_error := True\<rparr>, None))
   }"

definition deserialize_publish ::
  "platform \<Rightarrow> byte list \<Rightarrow> message_parser \<Rightarrow> (message_parser \<times> incoming option) exec" where
  "deserialize_publish P buffer p = do {
     r \<leftarrow> publish_deserialize P buffer;
     case r of
       None \<Rightarrow> Some (p\<lparr>parser_error := True\<rparr>, None)
     | Some (m, s) \<Rightarrow>
         if at_end s then do {
           b \<leftarrow> publish_block m;
           Some (if \<not> work_validate_block P b then (p, Some (In_publish m))
             else (p\<lparr>parser_insufficient_work := True\<rparr>, None))
         } else Some (p\<lparr>parser_error := True\<rparr>, None)
   }"

definition deserialize_confirm_req ::
  "platform \<Rightarrow> byte list \<Rightarrow> message_parser \<Rightarrow> (message_parser \<times> incoming option) exec" where
  "deserialize_confirm_req P buffer p = do {
     r \<leftarrow> confirm_req_deserialize P buffer;
     case r of
       None \<Rightarrow> Some (p\<lparr>parser_error := True\<rparr>, None)
     | Some (m, s) \<Rightarrow>
         if at_end s then do {
           b \<leftarrow> confirm_req_block m;
           Some (if \<not> work_validate_block P b then (p, Some (In_confirm_req m))
             else (p\<lparr>parser_insufficient_work := True\<rparr>, None))
         } else Some (p\<lparr>parser_error := True\<rparr>, None)
   }"

definition deserialize_confirm_ack ::
  "platform \<Rightarrow> byte list \<Rightarrow> message_parser \<Rightarrow> (message_parser \<times> incoming option) exec" where
  "deserialize_confirm_ack P buffer p =
     (case confirm_ack_read P buffer of
        None \<Rightarrow> Some (p\<lparr>parser_error := True\<rparr>, None)
      | Some (m, s) \<Rightarrow>
          if at_end s then
            Some (if \<not> work_validate_block P (vote_block (confirm_ack_vote m))
              then (p, Some (In_confirm_ack m))
              else (p\<lparr>parser_insufficient_work := True\<rparr>, None))
          else Some (p\<lparr>parser_error := True\<rparr>, None))"

definition deserialize_buffer ::
  "platform \<Rightarrow> (nat \<Rightarrow> uint128_t \<times> uint16) \<Rightarrow> byte list \<Rightarrow> message_parser \<Rightarrow>
     (message_parser \<times> incoming option) exec" where
  "deserialize_buffer P junk buffer p =
     (let p = p\<lparr>parser_error := False\<rparr> in
      case read_header P buffer of
        Some (h, s) \<Rightarrow>
          if message_kind h = message_type_code Mt_keepalive then deserialize_keepalive P junk buffer p
          else if message_kind h = message_type_code Mt_publish then deserialize_publish P buffer p
          else if message_kind h = message_type_code Mt_confirm_req then deserialize_confirm_req P buffer p
          else if message_kind h = message_type_code Mt_confirm_ack then deserialize_confirm_ack P buffer p
          else Some (p\<lparr>parser_error := True\<rparr>, None)
      | None \<Rightarrow> Some (p\<lparr>parser_error := True\<rparr>, None))"

section \<open>What the parser delivers\<close>

lemma at_end_eq [simp]: "at_end s \<longleftrightarrow> s = []"
  by (auto simp: at_end_def read_uint8_def split: list.splits)

lemma confirm_ack_read_Some [codec_simps]:
  "confirm_ack_read P s = Some (m, r) \<longleftrightarrow>
     message_block_type (confirm_ack_header m) = Some (type_of (vote_block (confirm_ack_vote m))) \<and>
     s = the (confirm_ack_serialize P m) @ r \<and> confirm_ack_serialize P m \<noteq> None"
proof -
  have "type_of b \<in> {Bt_send, Bt_receive, Bt_open, Bt_change}" for b by (cases b) simp_all
  then show ?thesis
    by (cases m) (fastforce simp: confirm_ack_read_def confirm_ack_serialize_def bind_eq_Some_conv codec_simps
        Let_def assert_def)
qed

text \<open>The reading constructor and \<open>deserialize\<close> of a vote message read the same messages.\<close>

lemma confirm_ack_deserialize_eq:
  assumes "read_header P s = Some (h, r)" and "message_kind h = message_type_code Mt_confirm_ack"
  shows "confirm_ack_deserialize P s = Some (confirm_ack_read P s)"
  using assms by (simp add: confirm_ack_deserialize_def confirm_ack_read_def vote_read_def)
    (auto split: Option.bind_splits)

text \<open>The bytes of a message, and the messages that arrive as they were sent.\<close>

fun incoming_bytes :: "platform \<Rightarrow> incoming \<Rightarrow> byte list exec" where
  "incoming_bytes P (In_keepalive m) = keepalive_serialize P m"
| "incoming_bytes P (In_publish m) = publish_serialize P m"
| "incoming_bytes P (In_confirm_req m) = confirm_req_serialize P m"
| "incoming_bytes P (In_confirm_ack m) = confirm_ack_serialize P m"

definition carries :: "platform \<Rightarrow> message \<Rightarrow> message_type \<Rightarrow> block option \<Rightarrow> bool" where
  "carries P h t b \<longleftrightarrow>
     message_kind h = message_type_code t \<and>
     (\<exists>c. b = Some c \<and> message_block_type h = Some (type_of c) \<and> \<not> work_validate_block P c)"

fun incoming_ok :: "platform \<Rightarrow> incoming \<Rightarrow> bool" where
  "incoming_ok P (In_keepalive m) \<longleftrightarrow>
     message_kind (keepalive_header m) = message_type_code Mt_keepalive \<and> length (keepalive_peers m) = 8"
| "incoming_ok P (In_publish m) \<longleftrightarrow> carries P (publish_header m) Mt_publish (publish_block m)"
| "incoming_ok P (In_confirm_req m) \<longleftrightarrow>
     carries P (confirm_req_header m) Mt_confirm_req (confirm_req_block m)"
| "incoming_ok P (In_confirm_ack m) \<longleftrightarrow>
     carries P (confirm_ack_header m) Mt_confirm_ack (Some (vote_block (confirm_ack_vote m)))"

fun incoming_type :: "incoming \<Rightarrow> message_type" where
  "incoming_type (In_keepalive m) = Mt_keepalive"
| "incoming_type (In_publish m) = Mt_publish"
| "incoming_type (In_confirm_req m) = Mt_confirm_req"
| "incoming_type (In_confirm_ack m) = Mt_confirm_ack"

lemma header_of_bytes:
  "incoming_bytes P (In_publish m) = Some buf \<Longrightarrow> \<exists>r. read_header P buf = Some (publish_header m, r)"
  "incoming_bytes P (In_confirm_req n) = Some buf \<Longrightarrow> \<exists>r. read_header P buf = Some (confirm_req_header n, r)"
  "incoming_bytes P (In_confirm_ack k) = Some buf \<Longrightarrow> \<exists>r. read_header P buf = Some (confirm_ack_header k, r)"
  by (auto simp: publish_serialize_def confirm_req_serialize_def confirm_ack_serialize_def codec_simps Let_def
      bind_eq_Some_conv)

lemma incoming_kind:
  assumes "incoming_bytes P inc = Some buf" and "incoming_ok P inc" and "read_header P buf = Some (h, s)"
  shows "message_kind h = message_type_code (incoming_type inc)"
proof (cases inc)
  case (In_keepalive m)
  then obtain r where "read_header P buf = Some (keepalive_header m, r)"
    using assms(1) by (auto simp: keepalive_serialize_def header.dec_of_enc)
  then show ?thesis using assms(2,3) In_keepalive by simp
next
  case (In_publish m)
  then show ?thesis using assms header_of_bytes(1) [of P m buf] by (auto simp: carries_def)
next
  case (In_confirm_req m)
  then show ?thesis using assms header_of_bytes(2) [of P m buf] by (auto simp: carries_def)
next
  case (In_confirm_ack m)
  then show ?thesis using assms header_of_bytes(3) [of P m buf] by (auto simp: carries_def)
qed

lemma block_message_deserialize:
  "publish_deserialize P s = Some (Some (m, r)) \<longleftrightarrow>
     message_kind (publish_header m) = message_type_code Mt_publish \<and>
     (\<exists>b. publish_block m = Some b \<and> message_block_type (publish_header m) = Some (type_of b) \<and>
        s = write_header P (publish_header m) @ serialize b @ r)"
  "confirm_req_deserialize P s = Some (Some (n, r)) \<longleftrightarrow>
     message_kind (confirm_req_header n) = message_type_code Mt_confirm_req \<and>
     (\<exists>b. confirm_req_block n = Some b \<and> message_block_type (confirm_req_header n) = Some (type_of b) \<and>
        s = write_header P (confirm_req_header n) @ serialize b @ r)"
  by (cases m; cases n; auto simp: publish_deserialize_def confirm_req_deserialize_def
      bind_eq_Some_conv codec_simps deserialize_block_typed_Some)+

lemma deserialize_delivers:
  "deserialize_publish P buf p = Some (q, Some inc) \<longleftrightarrow>
     q = p \<and> (\<exists>m b. inc = In_publish m \<and> publish_deserialize P buf = Some (Some (m, [])) \<and>
       publish_block m = Some b \<and> \<not> work_validate_block P b)"
  "deserialize_confirm_req P buf p = Some (q, Some inc) \<longleftrightarrow>
     q = p \<and> (\<exists>m b. inc = In_confirm_req m \<and> confirm_req_deserialize P buf = Some (Some (m, [])) \<and>
       confirm_req_block m = Some b \<and> \<not> work_validate_block P b)"
  "deserialize_confirm_ack P buf p = Some (q, Some inc) \<longleftrightarrow>
     q = p \<and> (\<exists>m. inc = In_confirm_ack m \<and> confirm_ack_read P buf = Some (m, []) \<and>
       \<not> work_validate_block P (vote_block (confirm_ack_vote m)))"
  by (fastforce simp: deserialize_publish_def deserialize_confirm_req_def deserialize_confirm_ack_def
      bind_eq_Some_conv split: option.splits if_splits)+

lemma deserialize_iff:
  "deserialize_publish P buf p = Some (q, Some inc) \<longleftrightarrow>
     q = p \<and> (\<exists>m. inc = In_publish m) \<and> incoming_bytes P inc = Some buf \<and> incoming_ok P inc"
  "deserialize_confirm_req P buf p = Some (q, Some inc) \<longleftrightarrow>
     q = p \<and> (\<exists>m. inc = In_confirm_req m) \<and> incoming_bytes P inc = Some buf \<and> incoming_ok P inc"
  "read_header P buf = Some (h, r) \<Longrightarrow> message_kind h = message_type_code Mt_confirm_ack \<Longrightarrow>
   deserialize_confirm_ack P buf p = Some (q, Some inc) \<longleftrightarrow>
     q = p \<and> (\<exists>m. inc = In_confirm_ack m) \<and> incoming_bytes P inc = Some buf \<and> incoming_ok P inc"
proof -
  show "deserialize_publish P buf p = Some (q, Some inc) \<longleftrightarrow>
     q = p \<and> (\<exists>m. inc = In_publish m) \<and> incoming_bytes P inc = Some buf \<and> incoming_ok P inc"
    by (cases inc) (auto simp: deserialize_delivers block_message_deserialize publish_serialize_def carries_def)
  show "deserialize_confirm_req P buf p = Some (q, Some inc) \<longleftrightarrow>
     q = p \<and> (\<exists>m. inc = In_confirm_req m) \<and> incoming_bytes P inc = Some buf \<and> incoming_ok P inc"
    by (cases inc) (auto simp: deserialize_delivers block_message_deserialize confirm_req_serialize_def carries_def)
  assume h: "read_header P buf = Some (h, r)" "message_kind h = message_type_code Mt_confirm_ack"
  have "message_kind (confirm_ack_header m) = message_type_code Mt_confirm_ack"
    if "confirm_ack_serialize P m = Some buf" for m
    using header_of_bytes(3) [of P m buf] that h by auto
  then show "deserialize_confirm_ack P buf p = Some (q, Some inc) \<longleftrightarrow>
     q = p \<and> (\<exists>m. inc = In_confirm_ack m) \<and> incoming_bytes P inc = Some buf \<and> incoming_ok P inc"
    by (cases inc) (auto simp: deserialize_delivers confirm_ack_read_Some carries_def)
qed

lemma read_into_full: "length s \<ge> length was \<Longrightarrow> read_into was s = (take (length was) s, drop (length was) s)"
  by (simp add: read_into_def)

lemma peers_read_bytes:
  "endpoint_bytes es = Some bs \<Longrightarrow> peers_read junk (length es) (bs @ r) = (es, r)"
proof (induction es arbitrary: bs)
  case (Cons e es)
  then obtain a cs where "ep_address e = V6 a" "endpoint_bytes es = Some cs"
    "bs = bytes128 a @ bytes16 (ep_port e) @ cs"
    by (auto split: ip_address.splits)
  then show ?case using Cons.IH [of cs] by (cases e) (simp add: read_into_full)
qed simp

lemma peers_read_length: "length (fst (peers_read junk n s)) = n"
  by (induction n arbitrary: s) (simp_all add: Let_def split: prod.splits, metis fst_conv)

lemma peers_read_full:
  "18 * n \<le> length s \<Longrightarrow> endpoint_bytes (fst (peers_read junk n s)) = Some (take (18 * n) s) \<and>
     snd (peers_read junk n s) = drop (18 * n) s"
proof (induction n arbitrary: s)
  case (Suc n)
  obtain ps r where r: "peers_read junk n (drop 18 s) = (ps, r)" by fastforce
  have "take 16 s @ take 2 (drop 16 s) @ take (18 * n) (drop 18 s) = take (18 * Suc n) s"
    using take_add [of 16 2 s] take_add [of 18 "18 * n" s] by simp
  then show ?case
    using Suc.IH [of "drop 18 s"] Suc.prems
    by (simp add: read_into_full r bytes_number bytes16_def le_store_load add.commute)
qed simp

lemma peers_read_rest: "snd (peers_read junk n s) = drop (18 * n) s"
proof (induction n arbitrary: s)
  case (Suc n)
  show ?case using Suc [of "drop 18 s"] by (simp add: read_into_def case_prod_beta Let_def add.commute)
qed simp

lemma peers_read_nothing:
  "fst (peers_read junk n []) = map (\<lambda>i. \<lparr>ep_address = V6 (fst (junk i)), ep_port = snd (junk i)\<rparr>) (rev [0..<n])"
  by (induction n) (simp_all add: read_into_def Let_def split: prod.splits, metis fst_conv)

definition truncated_keepalive :: "platform \<Rightarrow> byte list \<Rightarrow> bool" where
  "truncated_keepalive P buf \<longleftrightarrow>
     (case read_header P buf of
        None \<Rightarrow> False
      | Some (h, s) \<Rightarrow> message_kind h = message_type_code Mt_keepalive \<and> length s < 144)"

lemma deserialize_keepalive_iff:
  assumes "read_header P buf = Some (h, s)" and "message_kind h = message_type_code Mt_keepalive"
    and "144 \<le> length s"
  shows "deserialize_keepalive P junk buf p = Some (q, Some inc) \<longleftrightarrow>
     q = p \<and> (\<exists>m. inc = In_keepalive m) \<and> incoming_bytes P inc = Some buf \<and> incoming_ok P inc"
proof -
  obtain ps r where pr: "peers_read junk 8 s = (ps, r)" by fastforce
  have ps: "endpoint_bytes ps = Some (take 144 s)" "r = drop 144 s" "length ps = 8"
    using peers_read_full [of 8 s junk] peers_read_length [of junk 8 s] assms(3) pr by auto
  have buf: "buf = write_header P h @ s" using assms(1) by (simp add: codec_simps)
  have des: "deserialize_keepalive P junk buf p =
      Some (if r = [] then (p, Some (In_keepalive \<lparr>keepalive_header = h, keepalive_peers = ps\<rparr>))
        else (p\<lparr>parser_error := True\<rparr>, None))"
    using assms(1,2) by (simp add: deserialize_keepalive_def keepalive_deserialize_def pr)
  have uniq: "m = \<lparr>keepalive_header = h, keepalive_peers = ps\<rparr> \<and> r = []"
    if "incoming_bytes P (In_keepalive m) = Some buf" "length (keepalive_peers m) = 8" for m
  proof -
    from that(1) obtain bs where bs: "endpoint_bytes (keepalive_peers m) = Some bs"
      "buf = write_header P (keepalive_header m) @ bs" by (auto simp: keepalive_serialize_def)
    then have "keepalive_header m = h" "bs = s" using header.prefix_free buf by blast+
    then show ?thesis using peers_read_bytes [OF bs(1), of junk "[]"] that(2) pr by (cases m) simp
  qed
  have ser: "incoming_bytes P (In_keepalive \<lparr>keepalive_header = h, keepalive_peers = ps\<rparr>) = Some buf"
    if "r = []"
    using that ps(1,2) by (simp add: keepalive_serialize_def buf)
  show ?thesis
  proof (cases "\<exists>m. inc = In_keepalive m")
    case True
    then obtain m where m: "inc = In_keepalive m" ..
    show ?thesis
    proof
      assume "deserialize_keepalive P junk buf p = Some (q, Some inc)"
      then have "r = []" "q = p" "m = \<lparr>keepalive_header = h, keepalive_peers = ps\<rparr>"
        unfolding des m by (simp_all split: if_splits)
      then show "q = p \<and> (\<exists>m. inc = In_keepalive m) \<and> incoming_bytes P inc = Some buf \<and> incoming_ok P inc"
        using ser assms(2) ps(3) m by simp
    next
      assume ok: "q = p \<and> (\<exists>m. inc = In_keepalive m) \<and> incoming_bytes P inc = Some buf \<and> incoming_ok P inc"
      then have "m = \<lparr>keepalive_header = h, keepalive_peers = ps\<rparr> \<and> r = []" using uniq [of m] m by simp
      then show "deserialize_keepalive P junk buf p = Some (q, Some inc)" unfolding des m using ok by simp
    qed
  next
    case False
    then show ?thesis unfolding des by (simp split: if_splits) blast
  qed
qed

lemma deserialize_buffer_iff:
  assumes "\<not> truncated_keepalive P buf"
  shows "deserialize_buffer P junk buf p = Some (q, Some inc) \<longleftrightarrow>
    q = p\<lparr>parser_error := False\<rparr> \<and> incoming_bytes P inc = Some buf \<and> incoming_ok P inc"
proof (cases "read_header P buf")
  case None
  then have "incoming_bytes P inc \<noteq> Some buf"
    using header_of_bytes [of P _ buf]
    by (cases inc) (auto simp: keepalive_serialize_def header.dec_of_enc)
  then show ?thesis using None by (simp add: deserialize_buffer_def)
next
  case (Some hs)
  obtain h s where h: "read_header P buf = Some (h, s)" using Some by (cases hs) auto
  have kind: "message_kind h = message_type_code (incoming_type inc)"
    if "incoming_bytes P inc = Some buf" "incoming_ok P inc"
    using incoming_kind [OF that h] .
  have long: "144 \<le> length s" if "message_kind h = message_type_code Mt_keepalive"
    using assms h that by (simp add: truncated_keepalive_def)
  let ?p = "p\<lparr>parser_error := False\<rparr>"
  consider (keepalive) "message_kind h = message_type_code Mt_keepalive"
    | (publish) "message_kind h = message_type_code Mt_publish"
    | (req) "message_kind h = message_type_code Mt_confirm_req"
    | (ack) "message_kind h = message_type_code Mt_confirm_ack"
    | (other) "message_kind h \<notin> message_type_code ` {Mt_keepalive, Mt_publish, Mt_confirm_req, Mt_confirm_ack}"
    by auto
  then show ?thesis
  proof cases
    case keepalive
    then have eq: "deserialize_buffer P junk buf p = deserialize_keepalive P junk buf ?p"
      by (simp add: deserialize_buffer_def h)
    have "\<exists>m. inc = In_keepalive m" if "incoming_bytes P inc = Some buf" "incoming_ok P inc"
      using kind [OF that] keepalive by (cases inc) (simp_all del: incoming_bytes.simps incoming_ok.simps)
    then show ?thesis unfolding eq deserialize_keepalive_iff [OF h keepalive long [OF keepalive]] by blast
  next
    case publish
    then have eq: "deserialize_buffer P junk buf p = deserialize_publish P buf ?p"
      by (simp add: deserialize_buffer_def h)
    have "\<exists>m. inc = In_publish m" if "incoming_bytes P inc = Some buf" "incoming_ok P inc"
      using kind [OF that] publish by (cases inc) (simp_all del: incoming_bytes.simps incoming_ok.simps)
    then show ?thesis unfolding eq deserialize_iff(1) by blast
  next
    case req
    then have eq: "deserialize_buffer P junk buf p = deserialize_confirm_req P buf ?p"
      by (simp add: deserialize_buffer_def h)
    have "\<exists>m. inc = In_confirm_req m" if "incoming_bytes P inc = Some buf" "incoming_ok P inc"
      using kind [OF that] req by (cases inc) (simp_all del: incoming_bytes.simps incoming_ok.simps)
    then show ?thesis unfolding eq deserialize_iff(2) by blast
  next
    case ack
    then have eq: "deserialize_buffer P junk buf p = deserialize_confirm_ack P buf ?p"
      by (simp add: deserialize_buffer_def h)
    have "\<exists>m. inc = In_confirm_ack m" if "incoming_bytes P inc = Some buf" "incoming_ok P inc"
      using kind [OF that] ack by (cases inc) (simp_all del: incoming_bytes.simps incoming_ok.simps)
    then show ?thesis unfolding eq deserialize_iff(3) [OF h ack] by blast
  next
    case other
    then have eq: "deserialize_buffer P junk buf p = Some (?p\<lparr>parser_error := True\<rparr>, None)"
      by (simp add: deserialize_buffer_def h)
    have "\<not> (incoming_bytes P inc = Some buf \<and> incoming_ok P inc)"
      using kind other by (cases inc) (auto simp del: incoming_bytes.simps incoming_ok.simps)
    then show ?thesis unfolding eq by simp
  qed
qed

text \<open>
  C28. What \<open>message_parser\<close> hands to the node is exactly what was sent: apart from truncated
  keepalive messages, a datagram is delivered as a message if and only if it is, to the
  last byte, the serialization of that message, its header names the right kind and block
  type, and the block in it carries enough work.
\<close>

theorem parser_delivers_what_was_sent:
  assumes "\<not> truncated_keepalive P buf"
  shows "deserialize_buffer P junk buf p = Some (q, Some inc) \<longleftrightarrow>
    q = p\<lparr>parser_error := False\<rparr> \<and> incoming_bytes P inc = Some buf \<and> incoming_ok P inc"
  using assms by (rule deserialize_buffer_iff)

theorem parser_delivers_what_was_sent_witness:
  "\<exists>buf. keepalive_serialize sample_platform make_keepalive = Some buf \<and>
     deserialize_buffer sample_platform (\<lambda>_. (0, 0)) buf make_parser =
       Some (make_parser, Some (In_keepalive make_keepalive))"
proof -
  have "endpoint_bytes (replicate n \<lparr>ep_address = V6 0, ep_port = 0\<rparr>) = Some (replicate (18 * n) 0)" for n
    by (induction n) (simp_all add: bytes16_def flip: replicate_add, simp add: numeral_eq_Suc)
  then have buf: "keepalive_serialize sample_platform make_keepalive =
      Some (write_header sample_platform (make_message Mt_keepalive) @ replicate 144 0)" (is "_ = Some ?buf")
    by (simp add: keepalive_serialize_def make_keepalive_def)
  have "\<not> truncated_keepalive sample_platform ?buf"
    by (simp add: truncated_keepalive_def header.dec_of_enc)
  moreover have "incoming_ok sample_platform (In_keepalive make_keepalive)"
    by (simp add: make_keepalive_def make_message_def)
  moreover have "make_parser\<lparr>parser_error := False\<rparr> = make_parser" by (simp add: make_parser_def)
  ultimately show ?thesis
    using buf parser_delivers_what_was_sent [of sample_platform ?buf "\<lambda>_. (0, 0)" make_parser make_parser
        "In_keepalive make_keepalive"] by simp
qed

lemma publish_returns:
  assumes "read_header P buf = Some (h, s)" and "message_kind h = message_type_code Mt_publish"
  shows "\<exists>q inc. deserialize_publish P buf p = Some (q, inc) \<and>
    (case inc of None \<Rightarrow> parser_error q \<or> parser_insufficient_work q | Some m \<Rightarrow> True)"
proof -
  obtain r where r: "publish_deserialize P buf = Some r" using assms by (simp add: publish_deserialize_def)
  show ?thesis
  proof (cases r)
    case (Some ms)
    obtain m s where ms: "ms = (m, s)" by (cases ms)
    obtain b where "publish_block m = Some b"
      using r Some ms block_message_deserialize(1) [of P buf m s] by auto
    then show ?thesis using r Some ms by (simp add: deserialize_publish_def)
  qed (use r in \<open>simp add: deserialize_publish_def\<close>)
qed

lemma confirm_req_returns:
  assumes "read_header P buf = Some (h, s)" and "message_kind h = message_type_code Mt_confirm_req"
  shows "\<exists>q inc. deserialize_confirm_req P buf p = Some (q, inc) \<and>
    (case inc of None \<Rightarrow> parser_error q \<or> parser_insufficient_work q | Some m \<Rightarrow> True)"
proof -
  obtain r where r: "confirm_req_deserialize P buf = Some r" using assms by (simp add: confirm_req_deserialize_def)
  show ?thesis
  proof (cases r)
    case (Some ms)
    obtain m s where ms: "ms = (m, s)" by (cases ms)
    obtain b where "confirm_req_block m = Some b"
      using r Some ms block_message_deserialize(2) [of P buf m s] by auto
    then show ?thesis using r Some ms by (simp add: deserialize_confirm_req_def)
  qed (use r in \<open>simp add: deserialize_confirm_req_def\<close>)
qed

text \<open>
  C29. No datagram makes the parser abort: on every byte string the parser returns, none of the
  assertions of the message classes fails, and it reports an error, insufficient work or
  delivers one message.
\<close>

theorem parser_total:
  "\<exists>q inc. deserialize_buffer P junk buf p = Some (q, inc) \<and>
     (case inc of None \<Rightarrow> parser_error q \<or> parser_insufficient_work q | Some m \<Rightarrow> True)"
proof (cases "read_header P buf")
  case (Some hs)
  obtain h s where h: "read_header P buf = Some (h, s)" using Some by (cases hs) auto
  consider "message_kind h = message_type_code Mt_keepalive" | "message_kind h = message_type_code Mt_publish"
    | "message_kind h = message_type_code Mt_confirm_req" | "message_kind h = message_type_code Mt_confirm_ack"
    | "message_kind h \<notin> message_type_code ` {Mt_keepalive, Mt_publish, Mt_confirm_req, Mt_confirm_ack}"
    by auto
  then show ?thesis
  proof cases
    case 1
    then show ?thesis
      using h by (auto simp: deserialize_buffer_def deserialize_keepalive_def keepalive_deserialize_def Let_def
          split: prod.splits)
  next
    case 2
    then show ?thesis using h publish_returns [OF h 2] by (simp add: deserialize_buffer_def Let_def)
  next
    case 3
    then show ?thesis using h confirm_req_returns [OF h 3] by (simp add: deserialize_buffer_def Let_def)
  next
    case 4
    then show ?thesis
      using h by (auto simp: deserialize_buffer_def deserialize_confirm_ack_def Let_def
          split: option.splits prod.splits)
  next
    case 5
    then show ?thesis using h by (auto simp: deserialize_buffer_def Let_def)
  qed
qed (simp add: deserialize_buffer_def)

text \<open>
  A keepalive message that is cut short is not rejected: the reads that fail are
  ignored, the message is delivered, and the addresses the datagram does not contain are
  whatever the variables held before. With nothing after the header all eight are.
\<close>

theorem truncated_keepalive_delivers_garbage:
  assumes "read_header P buf = Some (h, s)" and "message_kind h = message_type_code Mt_keepalive"
    and "length s < 144"
  shows "\<exists>m. deserialize_buffer P junk buf p = Some (p\<lparr>parser_error := False\<rparr>, Some (In_keepalive m)) \<and>
    length (keepalive_peers m) = 8 \<and>
    (s = [] \<longrightarrow> keepalive_peers m =
      map (\<lambda>i. \<lparr>ep_address = V6 (fst (junk i)), ep_port = snd (junk i)\<rparr>) (rev [0..<8]))"
proof -
  obtain ps r where pr: "peers_read junk 8 s = (ps, r)" by fastforce
  have r: "r = []" using peers_read_rest [of junk 8 s] assms(3) pr by simp
  have "length ps = 8" using peers_read_length [of junk 8 s] pr by simp
  moreover have "s = [] \<longrightarrow> ps = map (\<lambda>i. \<lparr>ep_address = V6 (fst (junk i)), ep_port = snd (junk i)\<rparr>) (rev [0..<8])"
    using peers_read_nothing [of junk 8] pr by auto
  moreover have "deserialize_buffer P junk buf p = Some (p\<lparr>parser_error := False\<rparr>,
      Some (In_keepalive \<lparr>keepalive_header = h, keepalive_peers = ps\<rparr>))"
    using assms(1,2) r by (simp add: deserialize_buffer_def deserialize_keepalive_def
        keepalive_deserialize_def pr)
  ultimately show ?thesis by auto
qed

theorem truncated_keepalive_delivers_garbage_witness:
  "\<exists>m. deserialize_buffer sample_platform (\<lambda>i. (7, 9))
      (write_header sample_platform (make_message Mt_keepalive)) make_parser =
        Some (make_parser, Some (In_keepalive m)) \<and>
     keepalive_peers m = replicate 8 \<lparr>ep_address = V6 7, ep_port = 9\<rparr>"
proof -
  let ?buf = "write_header sample_platform (make_message Mt_keepalive)"
  have "read_header sample_platform ?buf = Some (make_message Mt_keepalive, [])" by (rule header.dec_whole) simp
  moreover have "map (\<lambda>i. \<lparr>ep_address = V6 7, ep_port = 9\<rparr>) (rev [0..<8]) =
      replicate 8 \<lparr>ep_address = V6 7, ep_port = 9\<rparr>"
    by (simp add: upt_rec numeral_eq_Suc)
  moreover have "make_parser\<lparr>parser_error := False\<rparr> = make_parser" by (simp add: make_parser_def)
  ultimately show ?thesis
    using truncated_keepalive_delivers_garbage [of sample_platform ?buf "make_message Mt_keepalive" "[]"
        "\<lambda>i. (7, 9)" make_parser] by (auto simp: make_message_def)
qed

lemma bootstrap_request_Some:
  "frontier_req_deserialize P s = Some (Some (f, r)) \<longleftrightarrow>
     message_kind (frontier_req_header f) = message_type_code Mt_frontier_req \<and> s = frontier_req_serialize P f @ r"
  "bulk_pull_deserialize P s = Some (Some (b, r)) \<longleftrightarrow>
     message_kind (bulk_pull_header b) = message_type_code Mt_bulk_pull \<and> s = bulk_pull_serialize P b @ r"
  "bulk_push_deserialize P s = Some (Some (u, r)) \<longleftrightarrow>
     message_kind (bulk_push_header u) = message_type_code Mt_bulk_push \<and> s = bulk_push_serialize P u @ r"
  by (cases f; cases b; cases u;
      auto simp: frontier_req_deserialize_def frontier_req_serialize_def bulk_pull_deserialize_def
        bulk_pull_serialize_def bulk_push_deserialize_def bulk_push_serialize_def bind_eq_Some_conv codec_simps)+

text \<open>
  C30. The requests of a bootstrap connection are read back as they were written, whatever
  follows them on the stream; no other bytes are read as such a request.
\<close>

theorem bootstrap_request_roundtrip:
  "(frontier_req_deserialize P s = Some (Some (f, r)) \<longleftrightarrow>
      message_kind (frontier_req_header f) = message_type_code Mt_frontier_req \<and>
      s = frontier_req_serialize P f @ r) \<and>
   (bulk_pull_deserialize P s = Some (Some (b, r)) \<longleftrightarrow>
      message_kind (bulk_pull_header b) = message_type_code Mt_bulk_pull \<and>
      s = bulk_pull_serialize P b @ r) \<and>
   (bulk_push_deserialize P s = Some (Some (u, r)) \<longleftrightarrow>
      message_kind (bulk_push_header u) = message_type_code Mt_bulk_push \<and>
      s = bulk_push_serialize P u @ r)"
  by (simp only: bootstrap_request_Some)

end
