(* ===== verification/Peers.thy ===== *)
theory Peers
  imports Messages "HOL-Library.Multiset"
begin

text \<open>
  The addresses and peers of \<open>paper/node.cpp\<close>: \<open>parse_port\<close> and \<open>parse_endpoint\<close>,
  \<open>reserved_address\<close>, and \<open>peer_container\<close> with the keepalive message that is filled from
  it.

  The container is the list of its elements in the (unspecified) order of its first index;
  the second index is that list sorted by \<open>last_contact\<close>. Times are numbers of clock ticks
  and \<open>now\<close> is an argument; random numbers are arguments too. \<open>to_v6\<close> of an IPv4 address
  throws, which nothing catches, so it is \<open>None\<close>.
\<close>

section \<open>Ports and endpoints\<close>

text \<open>
  \<open>std::stoul\<close> in base ten: leading white space, a sign, digits; the value and the number of
  characters read. It throws (\<open>None\<close>) without digits and when the digits exceed 64 bits; a
  minus sign negates the value modulo \<open>2 ^ 64\<close>.
\<close>

definition std_stoul :: "string \<Rightarrow> (uint64 \<times> nat) option" where
  "std_stoul str =
     (let spaces = takeWhile is_space str; rest = dropWhile is_space str;
          sign = (if rest \<noteq> [] \<and> hd rest \<in> {CHR ''+'', CHR ''-''} then [hd rest] else []);
          digits = takeWhile (is_digit 10) (drop (length sign) rest);
          n = digits_value 10 digits
      in if digits = [] \<or> 2 ^ 64 \<le> n then None
         else Some (if sign = ''-'' then - of_nat n else of_nat n,
           length spaces + length sign + length digits))"

text \<open>The inner option is the error flag, the outer one an exception.\<close>

definition parse_port :: "string \<Rightarrow> uint16 option option" where
  "parse_port string_a =
     (case std_stoul string_a of
        None \<Rightarrow> None
      | Some (value, converted) \<Rightarrow>
          Some (if converted \<noteq> length string_a \<or> 65535 < converted then None else Some (ucast value)))"

text \<open>
  \<open>from_string\<close> is Boost's reader of IPv6 addresses. \<open>rfind\<close> gives the position of the last
  colon.
\<close>

definition parse_address_port ::
  "(string \<Rightarrow> uint128_t option) \<Rightarrow> string \<Rightarrow> (ip_address \<times> uint16) option" where
  "parse_address_port from_string string_a =
     (let port_string = rev (takeWhile (\<lambda>c. c \<noteq> CHR '':'') (rev string_a));
          port_position = length string_a - length port_string - 1
      in if CHR '':'' \<in> set string_a \<and> 0 < port_position
         then case parse_port port_string of
             Some (Some port) \<Rightarrow>
               map_option (\<lambda>address. (V6 address, port)) (from_string (take port_position string_a))
           | _ \<Rightarrow> None
         else None)"

definition parse_endpoint :: "(string \<Rightarrow> uint128_t option) \<Rightarrow> string \<Rightarrow> endpoint option" where
  "parse_endpoint from_string string_a =
     map_option (\<lambda>(address, port). \<lparr>ep_address = address, ep_port = port\<rparr>)
       (parse_address_port from_string string_a)"

section \<open>Reserved addresses\<close>

definition mapped_from_v4_bytes :: "uint32 \<Rightarrow> uint128_t" where
  "mapped_from_v4_bytes address_a = 0xffff00000000 + ucast address_a"

fun to_v6 :: "ip_address \<Rightarrow> uint128_t exec" where
  "to_v6 (V6 bytes) = Some bytes"
| "to_v6 (V4 bytes) = None"

definition reserved_address :: "endpoint \<Rightarrow> bool exec" where
  "reserved_address endpoint_a = do {
     bytes \<leftarrow> to_v6 (ep_address endpoint_a);
     let within = (\<lambda>low high. mapped_from_v4_bytes low \<le> bytes \<and> bytes \<le> mapped_from_v4_bytes high);
     Some (within 0x00000000 0x00ffffff \<or> within 0xc0000200 0xc00002ff \<or>
       within 0xc6336400 0xc63364ff \<or> within 0xcb007100 0xcb0071ff \<or>
       within 0xe9fc0000 0xe9fc00ff \<or> mapped_from_v4_bytes 0xf0000000 \<le> bytes)
   }"

section \<open>The container\<close>

record peer_information =
  peer_endpoint :: endpoint
  last_contact :: nat
  last_attempt :: nat
  last_bootstrap_failure :: nat
  most_recent :: block_hash

record peer_container =
  peer_self :: endpoint
  peers :: "peer_information list"

definition make_peer_container :: "endpoint \<Rightarrow> peer_container" where
  "make_peer_container self_a = \<lparr>peer_self = self_a, peers = []\<rparr>"

definition peer_find :: "peer_container \<Rightarrow> endpoint \<Rightarrow> peer_information option" where
  "peer_find c endpoint_a = find (\<lambda>i. peer_endpoint i = endpoint_a) (peers c)"

definition peer_modify ::
  "peer_container \<Rightarrow> endpoint \<Rightarrow> (peer_information \<Rightarrow> peer_information) \<Rightarrow> peer_container" where
  "peer_modify c endpoint_a f =
     c\<lparr>peers := map (\<lambda>i. if peer_endpoint i = endpoint_a then f i else i) (peers c)\<rparr>"

definition not_a_peer :: "peer_container \<Rightarrow> endpoint \<Rightarrow> bool exec" where
  "not_a_peer c endpoint_a = do {
     bytes \<leftarrow> to_v6 (ep_address endpoint_a);
     if bytes = 0 then Some True
     else do {
       reserved \<leftarrow> reserved_address endpoint_a;
       if reserved then Some True else Some (endpoint_a = peer_self c)
     }
   }"

definition knows_about :: "peer_container \<Rightarrow> endpoint \<Rightarrow> block_hash \<Rightarrow> bool" where
  "knows_about c endpoint_a hash_a \<longleftrightarrow>
     (case peer_find c endpoint_a of None \<Rightarrow> False | Some i \<Rightarrow> most_recent i = hash_a)"

text \<open>The cutoff is five minutes, in clock ticks of one second.\<close>

definition node_period :: nat where
  "node_period = 60"

definition node_cutoff :: nat where
  "node_cutoff = node_period * 5"

definition known_peer :: "nat \<Rightarrow> peer_container \<Rightarrow> endpoint \<Rightarrow> bool" where
  "known_peer now c endpoint_a \<longleftrightarrow>
     (case peer_find c endpoint_a of None \<Rightarrow> False | Some i \<Rightarrow> now < last_contact i + node_cutoff)"

text \<open>
  \<open>insert\<close> returns its result and whether the peer was unknown, in which case the code calls
  \<open>peer_observer\<close>.
\<close>

definition peer_insert ::
  "nat \<Rightarrow> peer_container \<Rightarrow> endpoint \<Rightarrow> block_hash \<Rightarrow> (bool \<times> bool \<times> peer_container) exec" where
  "peer_insert now c endpoint_a hash_a = do {
     result \<leftarrow> not_a_peer c endpoint_a;
     Some (if \<not> result then
         case peer_find c endpoint_a of
           Some existing \<Rightarrow>
             (True, False, peer_modify c endpoint_a (\<lambda>i. i\<lparr>last_contact := now, most_recent := hash_a\<rparr>))
         | None \<Rightarrow>
             (False, True, c\<lparr>peers := peers c @
               [\<lparr>peer_endpoint = endpoint_a, last_contact = now, last_attempt = now,
                 last_bootstrap_failure = 0, most_recent = hash_a\<rparr>]\<rparr>)
       else (result, False, c))
   }"

definition v4_mapped :: "endpoint \<Rightarrow> endpoint" where
  "v4_mapped e =
     (case ep_address e of V4 a \<Rightarrow> e\<lparr>ep_address := V6 (mapped_from_v4_bytes a)\<rparr> | V6 _ \<Rightarrow> e)"

definition contacted :: "nat \<Rightarrow> peer_container \<Rightarrow> endpoint \<Rightarrow> (bool \<times> peer_container) exec" where
  "contacted now c endpoint_a = do {
     (result, unknown, c) \<leftarrow> peer_insert now c (v4_mapped endpoint_a) 0;
     Some (unknown, c)
   }"

definition bootstrap_failed :: "nat \<Rightarrow> peer_container \<Rightarrow> endpoint \<Rightarrow> peer_container" where
  "bootstrap_failed now c endpoint_a = peer_modify c endpoint_a (\<lambda>i. i\<lparr>last_bootstrap_failure := now\<rparr>)"

definition bootstrap_candidates :: "nat \<Rightarrow> peer_container \<Rightarrow> peer_information list" where
  "bootstrap_candidates now c = filter (\<lambda>i. last_bootstrap_failure i + 15 * 60 < now) (peers c)"

text \<open>What was left, whether \<open>disconnect_observer\<close> is called, and the container.\<close>

definition purge_list :: "nat \<Rightarrow> peer_container \<Rightarrow> nat \<Rightarrow> peer_information list \<times> bool \<times> peer_container" where
  "purge_list now c cutoff =
     (let rest = filter (\<lambda>i. cutoff \<le> last_contact i) (peers c); result = sort_key last_contact rest
      in (result, result = [], c\<lparr>peers := map (\<lambda>i. i\<lparr>last_attempt := now\<rparr>) rest\<rparr>))"

section \<open>Filling a keepalive\<close>

text \<open>
  The loop that drops random peers until eight are left; \<open>randoms\<close> are the words the
  generator yields, each taken into the range that is asked for.
\<close>

fun random_drop :: "uint32 list \<Rightarrow> peer_information list \<Rightarrow> peer_information list exec" where
  "random_drop randoms ps =
     (if 8 < length ps then
        case randoms of
          [] \<Rightarrow> None
        | r # randoms \<Rightarrow>
            let index = unat r mod length ps;
                ps' = (if index \<noteq> length ps - 1 then ps[index := ps ! (length ps - 1)] else ps)
            in random_drop randoms (butlast ps')
      else Some ps)"

declare random_drop.simps [simp del]

fun fill_endpoints :: "peer_information list \<Rightarrow> endpoint list \<Rightarrow> endpoint list exec" where
  "fill_endpoints [] target_a = Some target_a"
| "fill_endpoints (i # ps) [] = None"
| "fill_endpoints (i # ps) (j # target_a) =
     (case ep_address (peer_endpoint i) of
        V4 _ \<Rightarrow> None
      | V6 _ \<Rightarrow> do { rest \<leftarrow> fill_endpoints ps target_a; Some (peer_endpoint i # rest) })"

definition no_endpoint :: endpoint where
  "no_endpoint = \<lparr>ep_address = V6 0, ep_port = 0\<rparr>"

definition random_fill :: "uint32 list \<Rightarrow> peer_container \<Rightarrow> endpoint list exec" where
  "random_fill randoms c = do {
     ps \<leftarrow> random_drop randoms (peers c);
     fill_endpoints ps (replicate 8 no_endpoint)
   }"

section \<open>What the container holds\<close>

datatype peer_event = Contacted nat endpoint | Inserted nat endpoint block_hash |
  Bootstrap_failed nat endpoint | Purged nat nat

fun peer_step :: "peer_container \<Rightarrow> peer_event \<Rightarrow> peer_container exec" where
  "peer_step c (Contacted now e) = do { (unknown, c) \<leftarrow> contacted now c e; Some c }"
| "peer_step c (Inserted now e h) = do { (result, unknown, c) \<leftarrow> peer_insert now c e h; Some c }"
| "peer_step c (Bootstrap_failed now e) = Some (bootstrap_failed now c e)"
| "peer_step c (Purged now cutoff) = Some (snd (snd (purge_list now c cutoff)))"

fun peer_run :: "peer_container \<Rightarrow> peer_event list \<Rightarrow> peer_container exec" where
  "peer_run c [] = Some c"
| "peer_run c (e # es) = do { c \<leftarrow> peer_step c e; peer_run c es }"

definition peers_ok :: "peer_container \<Rightarrow> bool" where
  "peers_ok c \<longleftrightarrow> distinct (map peer_endpoint (peers c)) \<and>
     (\<forall>i\<in>set (peers c). not_a_peer c (peer_endpoint i) = Some False)"

lemma not_a_peer_self [simp]: "not_a_peer (c\<lparr>peers := ps\<rparr>) e = not_a_peer c e"
  by (cases "reserved_address e"; cases "to_v6 (ep_address e)") (simp_all add: not_a_peer_def)

lemma peer_modify_ok:
  assumes "peers_ok c" and "\<And>i. peer_endpoint (f i) = peer_endpoint i"
  shows "peers_ok (peer_modify c e f)"
proof -
  have "peer_endpoint \<circ> (\<lambda>i. if peer_endpoint i = e then f i else i) = peer_endpoint"
    using assms(2) by auto
  then show ?thesis using assms by (auto simp: peers_ok_def peer_modify_def)
qed

lemma peer_insert_ok:
  assumes "peers_ok c" and "peer_insert now c e h = Some (r, u, c')"
  shows "peers_ok c'" and "peer_self c' = peer_self c"
proof -
  obtain np where np: "not_a_peer c e = Some np"
    using assms(2) by (auto simp: peer_insert_def bind_eq_Some_conv)
  have new: "e \<notin> peer_endpoint ` set (peers c)" if "peer_find c e = None"
    using that by (auto simp: peer_find_def find_None_iff)
  show "peers_ok c'"
    using assms np new peer_modify_ok [OF assms(1), of "\<lambda>i. i\<lparr>last_contact := now, most_recent := h\<rparr>" e]
    by (auto simp: peer_insert_def split: if_splits option.splits) (auto simp: peers_ok_def)
  show "peer_self c' = peer_self c"
    using assms(2) np by (auto simp: peer_insert_def peer_modify_def split: if_splits option.splits)
qed

lemma distinct_map_filter_update:
  assumes "distinct (map f xs)" and "\<And>x. f (g x) = f x"
  shows "distinct (map f (map g (filter p xs)))"
proof -
  have "f \<circ> g = f" using assms(2) by auto
  then show ?thesis using assms(1) by (simp add: distinct_map_filter)
qed

lemma peer_step_ok:
  assumes "peers_ok c" and "peer_step c event = Some c'"
  shows "peers_ok c' \<and> peer_self c' = peer_self c"
proof (cases event)
  case (Contacted now e)
  then show ?thesis using assms peer_insert_ok [OF assms(1)] by (auto simp: contacted_def bind_eq_Some_conv)
next
  case (Inserted now e h)
  then show ?thesis using assms peer_insert_ok [OF assms(1)] by (auto simp: bind_eq_Some_conv)
next
  case (Bootstrap_failed now e)
  then show ?thesis using assms peer_modify_ok [OF assms(1), of "\<lambda>i. i\<lparr>last_bootstrap_failure := now\<rparr>" e]
    by (auto simp: bootstrap_failed_def peer_modify_def)
next
  case (Purged now cutoff)
  then show ?thesis
    using assms distinct_map_filter_update [of peer_endpoint "peers c" "\<lambda>i. i\<lparr>last_attempt := now\<rparr>"]
    by (auto simp: purge_list_def Let_def peers_ok_def)
qed

lemma peer_run_ok:
  assumes "peers_ok c" and "peer_run c es = Some c'"
  shows "peers_ok c' \<and> peer_self c' = peer_self c"
  using assms
proof (induction es arbitrary: c)
  case (Cons e es)
  then obtain c1 where "peer_step c e = Some c1" "peer_run c1 es = Some c'" by (auto simp: bind_eq_Some_conv)
  then show ?case using Cons.IH peer_step_ok [OF Cons.prems(1)] by metis
qed simp

lemma make_peer_container_ok: "peers_ok (make_peer_container self_a)"
  by (simp add: peers_ok_def make_peer_container_def)

section \<open>What a keepalive carries\<close>

lemma distinct_submset:
  assumes "mset qs \<subseteq># mset ps" and "distinct ps"
  shows "distinct qs"
proof -
  have "count (mset qs) a = (if a \<in> set qs then 1 else 0)" for a
  proof -
    have "count (mset qs) a \<le> count (mset ps) a" by (rule mset_subset_eq_count [OF assms(1)])
    also have "\<dots> \<le> 1" using assms(2) by (simp add: distinct_count_atmost_1)
    finally have le: "count (mset qs) a \<le> 1" .
    show ?thesis
    proof (cases "a \<in> set qs")
      case True
      then have "0 < count (mset qs) a" by simp
      then have "count (mset qs) a = 1" using le by linarith
      then show ?thesis using True by simp
    qed simp
  qed
  then show ?thesis by (simp add: distinct_count_atmost_1)
qed

lemma mset_drop_index:
  assumes "i < length xs"
  shows "mset (butlast (if i \<noteq> length xs - 1 then xs[i := xs ! (length xs - 1)] else xs)) = mset xs - {#xs ! i#}"
proof -
  obtain ys y where xs: "xs = ys @ [y]" using assms by (cases xs rule: rev_cases) auto
  show ?thesis
  proof (cases "i = length ys")
    case False
    then have i: "i < length ys" using assms xs by simp
    then have "mset (ys[i := y]) = add_mset y (mset ys - {#ys ! i#})" by (rule mset_update)
    moreover have "ys ! i \<in># mset ys" using i by (metis nth_mem set_mset_mset)
    ultimately show ?thesis using i by (simp add: xs nth_append list_update_append)
  qed (simp add: xs)
qed

lemma random_drop_exists:
  assumes "length ps \<le> length randoms + 8"
  shows "\<exists>qs. random_drop randoms ps = Some qs \<and> length qs = min 8 (length ps) \<and> mset qs \<subseteq># mset ps"
  using assms
proof (induction randoms ps rule: random_drop.induct)
  case (1 randoms ps)
  show ?case
  proof (cases "8 < length ps")
    case True
    then obtain r rs where rs: "randoms = r # rs" using "1.prems" by (cases randoms) auto
    let ?i = "unat r mod length ps"
    let ?ps = "butlast (if ?i \<noteq> length ps - 1 then ps[?i := ps ! (length ps - 1)] else ps)"
    have i: "?i < length ps" using True by (intro mod_less_divisor) linarith
    have len: "length ?ps = length ps - 1" by simp
    have pre: "length ?ps \<le> length rs + 8" using "1.prems" len rs by simp
    obtain qs where qs: "random_drop rs ?ps = Some qs" "length qs = min 8 (length ?ps)" "mset qs \<subseteq># mset ?ps"
      using "1.IH" [OF True rs refl refl pre] by blast
    have "random_drop randoms ps = Some qs" using True rs qs(1) by (subst random_drop.simps) (simp add: Let_def)
    moreover have "length qs = min 8 (length ps)" using qs(2) len True by linarith
    moreover have "mset qs \<subseteq># mset ps"
      using qs(3) diff_subset_eq_self [of "mset ps" "{#ps ! ?i#}"] unfolding mset_drop_index [OF i]
      by (rule subset_mset.order_trans)
    ultimately show ?thesis by blast
  next
    case False
    then have "random_drop randoms ps = Some ps" by (subst random_drop.simps) simp
    then show ?thesis using False by simp
  qed
qed

lemma fill_endpoints_eq:
  assumes "length ps \<le> length target_a" and "\<forall>i\<in>set ps. \<exists>a. ep_address (peer_endpoint i) = V6 a"
  shows "fill_endpoints ps target_a = Some (map peer_endpoint ps @ drop (length ps) target_a)"
  using assms
proof (induction ps target_a rule: fill_endpoints.induct)
  case (3 i ps j target_a)
  then show ?case by auto
qed simp_all

lemma peers_ok_v6: "peers_ok c \<Longrightarrow> i \<in> set (peers c) \<Longrightarrow> \<exists>a. ep_address (peer_endpoint i) = V6 a"
  by (cases "ep_address (peer_endpoint i)") (auto simp: peers_ok_def not_a_peer_def)

lemma random_fill_eq:
  assumes ok: "peers_ok c" and "length (peers c) \<le> length randoms + 8"
  obtains chosen where "random_fill randoms c = Some (chosen @ replicate (8 - length chosen) no_endpoint)"
    and "length chosen = min 8 (length (peers c))" and "distinct chosen"
    and "set chosen \<subseteq> peer_endpoint ` set (peers c)"
proof -
  obtain qs where qs: "random_drop randoms (peers c) = Some qs" "length qs = min 8 (length (peers c))"
    "mset qs \<subseteq># mset (peers c)"
    using random_drop_exists [OF assms(2)] by blast
  have sub: "set qs \<subseteq> set (peers c)" using set_mset_mono [OF qs(3)] by simp
  have "distinct (map peer_endpoint qs)"
  proof -
    have "mset (map peer_endpoint qs) \<subseteq># mset (map peer_endpoint (peers c))"
      using image_mset_subseteq_mono [OF qs(3)] by simp
    then show ?thesis using ok unfolding peers_ok_def by (blast intro: distinct_submset)
  qed
  moreover have "random_fill randoms c =
      Some (map peer_endpoint qs @ replicate (8 - length (map peer_endpoint qs)) no_endpoint)"
    using qs(1,2) fill_endpoints_eq [of qs "replicate 8 no_endpoint"] sub peers_ok_v6 [OF ok]
    by (auto simp: random_fill_def)
  ultimately show thesis using that [of "map peer_endpoint qs"] qs(2) sub by auto
qed

section \<open>Properties\<close>

text \<open>
  C34. After any sequence of contacts, block announcements, failed bootstraps and purges, the
  container holds every endpoint at most once, and only endpoints a peer can have: IPv6 (or
  mapped IPv4) addresses that are not unspecified, not reserved and not the node's own.
  Looking an endpoint up finds it exactly if it is in the list. A purge returns exactly the
  peers heard from since the cutoff, the longest silent one first, and keeps those and no
  others.
\<close>

theorem peers_well_formed:
  assumes "peer_run (make_peer_container self_a) events = Some c"
  shows "distinct (map peer_endpoint (peers c)) \<and>
    (\<forall>i\<in>set (peers c). \<exists>a. ep_address (peer_endpoint i) = V6 a \<and> a \<noteq> 0 \<and>
      reserved_address (peer_endpoint i) = Some False \<and> peer_endpoint i \<noteq> self_a \<and>
      peer_find c (peer_endpoint i) = Some i) \<and>
    (case purge_list now c cutoff of (left, disconnected, c') \<Rightarrow>
      mset left = mset (filter (\<lambda>i. cutoff \<le> last_contact i) (peers c)) \<and> sorted (map last_contact left) \<and>
      disconnected = (peers c' = []) \<and>
      map peer_endpoint (peers c') = map peer_endpoint (filter (\<lambda>i. cutoff \<le> last_contact i) (peers c)))"
proof -
  have ok: "peers_ok c" "peer_self c = self_a"
    using peer_run_ok [OF make_peer_container_ok assms] by (simp_all add: make_peer_container_def)
  have dist: "distinct (map peer_endpoint (peers c))" using ok by (simp add: peers_ok_def)
  have "\<exists>a. ep_address (peer_endpoint i) = V6 a \<and> a \<noteq> 0 \<and> reserved_address (peer_endpoint i) = Some False \<and>
      peer_endpoint i \<noteq> self_a \<and> peer_find c (peer_endpoint i) = Some i" if i: "i \<in> set (peers c)" for i
  proof -
    obtain a where a: "ep_address (peer_endpoint i) = V6 a" using peers_ok_v6 [OF ok(1) i] by blast
    have "not_a_peer c (peer_endpoint i) = Some False" using ok(1) i by (simp add: peers_ok_def)
    then have "a \<noteq> 0 \<and> reserved_address (peer_endpoint i) = Some False \<and> peer_endpoint i \<noteq> self_a"
      using ok(2) a by (auto simp: not_a_peer_def bind_eq_Some_conv split: if_splits)
    moreover have "peer_find c (peer_endpoint i) = Some i"
    proof -
      obtain j where j: "peer_find c (peer_endpoint i) = Some j"
        using i by (cases "peer_find c (peer_endpoint i)") (auto simp: peer_find_def find_None_iff)
      then have "j \<in> set (peers c)" "peer_endpoint j = peer_endpoint i"
        by (auto simp: peer_find_def find_Some_iff)
      then have "j = i" using i dist by (auto simp: distinct_map dest: inj_onD)
      then show ?thesis using j by simp
    qed
    ultimately show ?thesis using a by blast
  qed
  moreover have "map (peer_endpoint \<circ> (\<lambda>i. i\<lparr>last_attempt := now\<rparr>)) is = map peer_endpoint is" for "is"
    by (induction "is") simp_all
  moreover have "(sort_key last_contact is = []) = (is = [])" for "is"
    by (metis length_0_conv length_sort)
  ultimately show ?thesis using dist by (auto simp: purge_list_def Let_def)
qed

definition sample_peer :: "nat \<Rightarrow> endpoint" where
  "sample_peer n = \<lparr>ep_address = V4 (of_nat n + 0x01020304), ep_port = 7075\<rparr>"

definition sample_peers :: peer_container where
  "sample_peers = \<lparr>peer_self = no_endpoint, peers =
     [\<lparr>peer_endpoint = v4_mapped (sample_peer 1), last_contact = 7, last_attempt = 5,
       last_bootstrap_failure = 0, most_recent = 3\<rparr>]\<rparr>"

lemma sample_peers_run:
  "peer_run (make_peer_container no_endpoint)
     [Contacted 5 (sample_peer 1), Inserted 7 (v4_mapped (sample_peer 1)) 3] = Some sample_peers"
  by (simp add: make_peer_container_def contacted_def peer_insert_def not_a_peer_def reserved_address_def
      v4_mapped_def sample_peer_def no_endpoint_def mapped_from_v4_bytes_def peer_find_def peer_modify_def
      sample_peers_def)

theorem peers_well_formed_witness:
  "peer_run (make_peer_container no_endpoint)
     [Contacted 5 (sample_peer 1), Inserted 7 (v4_mapped (sample_peer 1)) 3] = Some sample_peers \<and>
   reserved_address (v4_mapped (sample_peer 1)) = Some False"
proof -
  have "\<forall>i\<in>set (peers sample_peers). reserved_address (peer_endpoint i) = Some False"
    using peers_well_formed [OF sample_peers_run] by blast
  then show ?thesis using sample_peers_run by (simp add: sample_peers_def del: peer_run.simps)
qed

text \<open>
  C35. The keepalive a node sends carries eight endpoints: as many different peers as it knows,
  eight at most, then unspecified ones. Nothing on the way fails an assertion, and the parser
  of the receiving node delivers exactly these endpoints.
\<close>

theorem keepalive_carries_peers:
  assumes "peer_run (make_peer_container self_a) events = Some c" and "length (peers c) \<le> length randoms + 8"
  shows "\<exists>chosen buffer.
    (let target = chosen @ replicate (8 - length chosen) no_endpoint in
      random_fill randoms c = Some target \<and> length chosen = min 8 (length (peers c)) \<and> distinct chosen \<and>
      set chosen \<subseteq> peer_endpoint ` set (peers c) \<and>
      keepalive_serialize P (make_keepalive\<lparr>keepalive_peers := target\<rparr>) = Some buffer \<and>
      deserialize_buffer P junk buffer make_parser =
        Some (make_parser, Some (In_keepalive (make_keepalive\<lparr>keepalive_peers := target\<rparr>))))"
proof -
  have ok: "peers_ok c" using peer_run_ok [OF make_peer_container_ok assms(1)] by simp
  obtain chosen where ch: "random_fill randoms c = Some (chosen @ replicate (8 - length chosen) no_endpoint)"
    "length chosen = min 8 (length (peers c))" "distinct chosen" "set chosen \<subseteq> peer_endpoint ` set (peers c)"
    by (rule random_fill_eq [OF ok assms(2)])
  let ?t = "chosen @ replicate (8 - length chosen) no_endpoint"
  let ?m = "make_keepalive\<lparr>keepalive_peers := ?t\<rparr>"
  have v6: "\<exists>a. ep_address e = V6 a" if "e \<in> set ?t" for e
    using that ch(4) peers_ok_v6 [OF ok] by (auto simp: no_endpoint_def)
  have bytes: "\<exists>bs. endpoint_bytes es = Some bs \<and> length bs = 18 * length es"
    if "\<forall>e\<in>set es. \<exists>a. ep_address e = V6 a" for es
    using that by (induction es) auto
  have len: "length ?t = 8" using ch(2) by simp
  have "\<forall>e\<in>set ?t. \<exists>a. ep_address e = V6 a" using v6 by blast
  from bytes [OF this] obtain bs where bs: "endpoint_bytes ?t = Some bs" "length bs = 144"
    unfolding len by auto
  let ?buf = "write_header P (make_message Mt_keepalive) @ bs"
  have ser: "keepalive_serialize P ?m = Some ?buf"
    using bs(1) by (simp add: keepalive_serialize_def make_keepalive_def)
  have "\<not> truncated_keepalive P ?buf" using bs(2) by (simp add: truncated_keepalive_def header.dec_of_enc)
  moreover have "incoming_ok P (In_keepalive ?m)"
    using ch(2) by (simp add: make_keepalive_def make_message_def)
  moreover have "make_parser\<lparr>parser_error := False\<rparr> = make_parser" by (simp add: make_parser_def)
  ultimately have "deserialize_buffer P junk ?buf make_parser = Some (make_parser, Some (In_keepalive ?m))"
    using deserialize_buffer_iff [of P ?buf junk make_parser make_parser "In_keepalive ?m"] ser by simp
  then show ?thesis using ch ser by (intro exI [of _ chosen] exI [of _ ?buf]) (simp add: Let_def)
qed

theorem keepalive_carries_peers_witness:
  "\<exists>buffer. random_fill [] sample_peers =
      Some (v4_mapped (sample_peer 1) # replicate 7 no_endpoint) \<and>
    deserialize_buffer sample_platform (\<lambda>_. (0, 0)) buffer make_parser =
      Some (make_parser, Some (In_keepalive (make_keepalive
        \<lparr>keepalive_peers := v4_mapped (sample_peer 1) # replicate 7 no_endpoint\<rparr>)))"
proof -
  have "length (peers sample_peers) \<le> length ([] :: uint32 list) + 8" by (simp add: sample_peers_def)
  from keepalive_carries_peers [OF sample_peers_run this, of sample_platform "\<lambda>_. (0, 0)"]
  obtain chosen buffer where q: "random_fill [] sample_peers = Some (chosen @ replicate (8 - length chosen) no_endpoint)"
    "length chosen = min 8 (length (peers sample_peers))" "set chosen \<subseteq> peer_endpoint ` set (peers sample_peers)"
    "deserialize_buffer sample_platform (\<lambda>_. (0, 0)) buffer make_parser =
        Some (make_parser, Some (In_keepalive (make_keepalive
          \<lparr>keepalive_peers := chosen @ replicate (8 - length chosen) no_endpoint\<rparr>)))"
    unfolding Let_def by blast
  then have "length chosen = 1" "set chosen \<subseteq> {v4_mapped (sample_peer 1)}" by (simp_all add: sample_peers_def)
  then have "chosen = [v4_mapped (sample_peer 1)]" by (cases chosen) auto
  then show ?thesis using q(1,4) by auto
qed

text \<open>
  \<open>reserved_address\<close> has no upper bound in its last test, meant for the IPv4 block
  240.0.0.0/4: every IPv6 address above the mapped IPv4 addresses counts as reserved, so a
  node takes no datagram from a native IPv6 peer and never keeps one.
\<close>

theorem native_ipv6_is_reserved:
  assumes "ep_address e = V6 a" and "0x1000000000000 \<le> a"
  shows "reserved_address e = Some True \<and> peer_insert now c e h = Some (True, False, c)"
proof -
  have "mapped_from_v4_bytes 0xf0000000 \<le> a"
    using order.trans [OF _ assms(2)] by (simp add: mapped_from_v4_bytes_def)
  then show ?thesis using assms
    by (auto simp: reserved_address_def peer_insert_def not_a_peer_def)
qed

theorem native_ipv6_is_reserved_witness:
  "reserved_address \<lparr>ep_address = V6 0x20010db8000000000000000000000001, ep_port = 7075\<rparr> = Some True"
  using native_ipv6_is_reserved [of "\<lparr>ep_address = V6 0x20010db8000000000000000000000001, ep_port = 7075\<rparr>"]
  by simp

text \<open>
  The range check of \<open>parse_port\<close> looks at the number of characters instead of the number: a
  port above 65535 is accepted and cut to 16 bits.
\<close>

lemma parse_port_truncates: "parse_port ''70000'' = Some (Some 4464)"
  by (simp add: parse_port_def std_stoul_def is_space_def is_digit_def digit_value_def digits_value_def Let_def)

end
