(* ===== verification/Node.thy ===== *)
theory Node
  imports Gap_Cache Peers Wallet_Spec
begin

text \<open>
  The node of \<open>paper/node.cpp\<close>: what it does with a datagram, with a block, with a vote and
  with the operations it schedules for itself.

  A \<open>node\<close> holds the block store, the gap cache, the elections with the table \<open>conflicts\<close>
  from roots to elections, the wallets, the peers, the state of \<open>bootstrap_initiator\<close>, the
  operations given to \<open>processor_service\<close> and the datagrams given to the socket, both as
  lists that only grow. An election object lives as long as an operation refers to it, also
  after it left the table; elections are therefore a list, referred to by index. A function
  object that is stored for later is a constructor of \<open>confirmation_action\<close> or
  \<open>node_operation\<close>.

  Clocks are numbers of seconds. What the code does not determine is in \<open>choices\<close>: the order
  in which the map of vote totals is traversed, the key of an anonymous voter, and the random
  words that pick peers.
\<close>

section \<open>State\<close>

datatype confirmation_action = Process_confirmed | Receive_all account

record election =
  election_votes :: votes
  election_last_vote :: nat
  election_last_winner :: block
  election_confirmed :: bool
  election_action :: confirmation_action

datatype node_operation =
    Election_start nat
  | Election_timeout nat
  | Election_announce nat
  | Run_confirmation confirmation_action block
  | Fast_confirm block_hash block
  | Queue_receive uint256_union send_block private_key account

record outgoing =
  out_bytes :: "byte list"
  out_endpoint :: endpoint
  out_rebroadcast :: nat

record bootstrap_initiator =
  in_progress :: bool
  warmed_up :: "endpoint list"
  initiated :: "endpoint list"

record node =
  node_endpoint :: endpoint
  node_numerator :: uint128_t
  node_store :: block_store
  node_gaps :: gap_cache
  node_elections :: "election list"
  node_roots :: "(block_hash \<times> nat) list"
  node_wallets :: "(uint256_union \<times> wallet_store) list"
  node_peers :: peer_container
  node_bootstrap :: bootstrap_initiator
  node_operations :: "(nat \<times> node_operation) list"
  node_outbox :: "outgoing list"
  node_counters :: "(string \<times> nat) list"

record choices =
  tally_order :: "(block \<times> uint128_t) list \<Rightarrow> (block \<times> uint128_t) list"
  anonymous_key :: private_key
  random_words :: "uint32 list"

definition service_add :: "nat \<Rightarrow> node_operation \<Rightarrow> node \<Rightarrow> node" where
  "service_add wakeup operation n = n\<lparr>node_operations := node_operations n @ [(wakeup, operation)]\<rparr>"

definition send_buffer :: "byte list \<Rightarrow> endpoint \<Rightarrow> nat \<Rightarrow> node \<Rightarrow> node" where
  "send_buffer bytes endpoint_a rebroadcast_a n =
     n\<lparr>node_outbox := node_outbox n @
       [\<lparr>out_bytes = bytes, out_endpoint = endpoint_a, out_rebroadcast = rebroadcast_a\<rparr>]\<rparr>"

definition count :: "string \<Rightarrow> node \<Rightarrow> node" where
  "count name n = n\<lparr>node_counters := AList.update name
     (Suc (case map_of (node_counters n) name of None \<Rightarrow> 0 | Some k \<Rightarrow> k)) (node_counters n)\<rparr>"

section \<open>Representatives and broadcasts\<close>

text \<open>The keys that \<open>foreach_representative\<close> passes to its action, in order.\<close>

fun wallet_representatives ::
  "platform \<Rightarrow> block_store \<Rightarrow> wallet_store \<Rightarrow> account list \<Rightarrow> (public_key \<times> private_key) list exec" where
  "wallet_representatives P s w [] = Some []"
| "wallet_representatives P s w (j # js) = do {
     valid \<leftarrow> valid_password P w;
     if valid then do {
       weight_l \<leftarrow> weight s j;
       if weight_l \<noteq> 0 then do {
         prv \<leftarrow> fetch P w j;
         prv \<leftarrow> prv;
         rest \<leftarrow> wallet_representatives P s w js;
         Some ((j, prv) # rest)
       } else wallet_representatives P s w js
     } else wallet_representatives P s w js
   }"

fun foreach_representative ::
  "platform \<Rightarrow> block_store \<Rightarrow> (uint256_union \<times> wallet_store) list \<Rightarrow>
     (public_key \<times> private_key) list exec" where
  "foreach_representative P s [] = Some []"
| "foreach_representative P s ((i, w) # ws) = do {
     here \<leftarrow> wallet_representatives P s w (wallet_accounts w);
     rest \<leftarrow> foreach_representative P s ws;
     Some (here @ rest)
   }"

definition confirm_block ::
  "platform \<Rightarrow> private_key \<Rightarrow> public_key \<Rightarrow> block \<Rightarrow> uint64 \<Rightarrow> endpoint \<Rightarrow> node \<Rightarrow> node exec" where
  "confirm_block P prv pub block_a sequence_a endpoint_a n = do {
     bytes \<leftarrow> confirm_ack_serialize P (make_confirm_ack P pub prv sequence_a block_a);
     Some (send_buffer bytes endpoint_a 0 n)
   }"

text \<open>One representative's confirmation to every peer of the list that may not know the block.\<close>

fun confirm_peers ::
  "platform \<Rightarrow> public_key \<times> private_key \<Rightarrow> block \<Rightarrow> uint64 \<Rightarrow> peer_information list \<Rightarrow> bool \<times> node \<Rightarrow>
     (bool \<times> node) exec" where
  "confirm_peers P rep block_a sequence_a [] (result, n) = Some (result, n)"
| "confirm_peers P rep block_a sequence_a (j # js) (result, n) =
     (if \<not> knows_about (node_peers n) (peer_endpoint j) (block_hash P block_a) then do {
        n \<leftarrow> confirm_block P (snd rep) (fst rep) block_a sequence_a (peer_endpoint j) n;
        confirm_peers P rep block_a sequence_a js (True, n)
      } else confirm_peers P rep block_a sequence_a js (result, n))"

fun confirm_all ::
  "platform \<Rightarrow> (public_key \<times> private_key) list \<Rightarrow> block \<Rightarrow> uint64 \<Rightarrow> peer_information list \<Rightarrow>
     bool \<times> node \<Rightarrow> (bool \<times> node) exec" where
  "confirm_all P [] block_a sequence_a list_a (result, n) = Some (result, n)"
| "confirm_all P (rep # reps) block_a sequence_a list_a (result, n) = do {
     r \<leftarrow> confirm_peers P rep block_a sequence_a list_a (result, n);
     confirm_all P reps block_a sequence_a list_a r
   }"

definition confirm_broadcast ::
  "platform \<Rightarrow> peer_information list \<Rightarrow> block \<Rightarrow> uint64 \<Rightarrow> node \<Rightarrow> (bool \<times> node) exec" where
  "confirm_broadcast P list_a block_a sequence_a n = do {
     reps \<leftarrow> foreach_representative P (node_store n) (node_wallets n);
     confirm_all P reps block_a sequence_a list_a (False, n)
   }"

definition republish_block :: "platform \<Rightarrow> block \<Rightarrow> nat \<Rightarrow> node \<Rightarrow> node exec" where
  "republish_block P block_a rebroadcast_a n = do {
     let hash = block_hash P block_a;
     let list_l = peers (node_peers n);
     (confirmed, n) \<leftarrow> confirm_broadcast P list_l block_a 0 n;
     if \<not> confirmed then do {
       bytes \<leftarrow> publish_serialize P (make_publish block_a);
       Some (fold (\<lambda>i n. if \<not> knows_about (node_peers n) (peer_endpoint i) hash
                         then send_buffer bytes (peer_endpoint i) rebroadcast_a n else n) list_l n)
     } else Some n
   }"

definition broadcast_confirm_req :: "platform \<Rightarrow> block \<Rightarrow> node \<Rightarrow> node exec" where
  "broadcast_confirm_req P block_a n = do {
     bytes \<leftarrow> confirm_req_serialize P (make_confirm_req block_a);
     Some (fold (\<lambda>i n. send_buffer bytes (peer_endpoint i) 0 n) (peers (node_peers n)) n)
   }"

definition process_confirmation :: "platform \<Rightarrow> block \<Rightarrow> endpoint \<Rightarrow> node \<Rightarrow> node exec" where
  "process_confirmation P block_a sender n = do {
     reps \<leftarrow> foreach_representative P (node_store n) (node_wallets n);
     foldl (\<lambda>n (pub, prv). do { n \<leftarrow> n; confirm_block P prv pub block_a 0 sender n }) (Some n) reps
   }"

section \<open>Elections\<close>

definition uncontested_threshold :: "platform \<Rightarrow> block_store \<Rightarrow> uint128_t exec" where
  "uncontested_threshold P s = do { supply_l \<leftarrow> ledger_supply P s; Some (supply_l div 2) }"

definition contested_threshold :: "platform \<Rightarrow> block_store \<Rightarrow> uint128_t exec" where
  "contested_threshold P s = do { supply_l \<leftarrow> ledger_supply P s; Some (supply_l div 16 * 15) }"

text \<open>
  \<open>election::vote\<close> on an election and the store: the new election, the new store, and the
  winner if it was confirmed by this vote.
\<close>

definition election_vote ::
  "platform \<Rightarrow> choices \<Rightarrow> nat \<Rightarrow> election \<Rightarrow> block_store \<Rightarrow> vote \<Rightarrow>
     (election \<times> block_store \<times> block option) exec" where
  "election_vote P C now e s vote_a =
     (let (changed, votes_l) = votes_vote P (election_votes e) vote_a;
          was_confirmed = election_confirmed e; e = e\<lparr>election_votes := votes_l\<rparr>
      in if \<not> was_confirmed \<and> changed then do {
           tally_l \<leftarrow> tally (tally_order C) s votes_l;
           (weight_l, winner_l) \<leftarrow> (case rev (mdb_entries tally_l) of [] \<Rightarrow> None | t # _ \<Rightarrow> Some t);
           (e, s) \<leftarrow>
             (if \<not> block_equal winner_l (election_last_winner e) then do {
                s \<leftarrow> rollback P (of_nat now) s (block_hash P (election_last_winner e));
                (result, s) \<leftarrow> process P (of_nat now) s winner_l;
                Some (e\<lparr>election_last_winner := winner_l\<rparr>, s)
              } else Some (e, s));
           threshold \<leftarrow>
             (if length (mdb_entries tally_l) = 1 then uncontested_threshold P s
              else contested_threshold P s);
           if threshold < weight_l
           then Some (e\<lparr>election_confirmed := True\<rparr>, s, Some winner_l)
           else Some (e, s, None)
         } else Some (e, s, None))"

text \<open>The same on an election of the node.\<close>

definition node_election_vote :: "platform \<Rightarrow> choices \<Rightarrow> nat \<Rightarrow> nat \<Rightarrow> vote \<Rightarrow> node \<Rightarrow> node exec" where
  "node_election_vote P C now k vote_a n =
     (if k < length (node_elections n) then do {
        (e, s, confirmed) \<leftarrow> election_vote P C now (node_elections n ! k) (node_store n) vote_a;
        let n = n\<lparr>node_elections := (node_elections n)[k := e], node_store := s\<rparr>;
        Some (case confirmed of
            None \<Rightarrow> n
          | Some winner_l \<Rightarrow> service_add now (Run_confirmation (election_action e) winner_l) n)
      } else None)"

definition make_election ::
  "platform \<Rightarrow> choices \<Rightarrow> nat \<Rightarrow> block \<Rightarrow> confirmation_action \<Rightarrow> node \<Rightarrow> (nat \<times> node) exec" where
  "make_election P C now block_a action n = do {
     assert (block_exists (node_store n) (block_hash P block_a));
     let k = length (node_elections n);
     let e = \<lparr>election_votes = make_votes (root block_a), election_last_vote = now,
       election_last_winner = block_a, election_confirmed = False, election_action = action\<rparr>;
     let n = n\<lparr>node_elections := node_elections n @ [e]\<rparr>;
     let prv = anonymous_key C;
     n \<leftarrow> node_election_vote P C now k (make_vote P (ed25519_publickey P prv) prv 0 block_a) n;
     Some (k, n)
   }"

definition conflicts_start ::
  "platform \<Rightarrow> choices \<Rightarrow> nat \<Rightarrow> block \<Rightarrow> confirmation_action \<Rightarrow> bool \<Rightarrow> node \<Rightarrow> node exec" where
  "conflicts_start P C now block_a action request_a n =
     (case map_of (node_roots n) (root block_a) of
        Some existing \<Rightarrow> Some n
      | None \<Rightarrow> do {
          (k, n) \<leftarrow> make_election P C now block_a action n;
          let n = service_add now (Election_start k) n;
          let n = n\<lparr>node_roots := (root block_a, k) # node_roots n\<rparr>;
          if request_a then broadcast_confirm_req P block_a n else Some n
        })"

definition conflicts_no_conflict :: "node \<Rightarrow> block_hash \<Rightarrow> bool exec" where
  "conflicts_no_conflict n hash_a =
     (case map_of (node_roots n) hash_a of
        None \<Rightarrow> Some True
      | Some k \<Rightarrow>
          if k < length (node_elections n)
          then case map (snd \<circ> snd) (rep_votes (election_votes (node_elections n ! k))) of
              [] \<Rightarrow> Some True
            | b # bs \<Rightarrow> Some (list_all (block_equal b) (b # bs))
          else None)"

definition conflicts_update :: "platform \<Rightarrow> choices \<Rightarrow> nat \<Rightarrow> vote \<Rightarrow> node \<Rightarrow> node exec" where
  "conflicts_update P C now vote_a n =
     (case map_of (node_roots n) (root (vote_block vote_a)) of
        Some k \<Rightarrow> node_election_vote P C now k vote_a n
      | None \<Rightarrow> Some n)"

definition conflicts_stop :: "block_hash \<Rightarrow> node \<Rightarrow> node exec" where
  "conflicts_stop root_a n = do {
     assert (map_of (node_roots n) root_a \<noteq> None);
     Some (n\<lparr>node_roots := AList.delete root_a (node_roots n)\<rparr>)
   }"

text \<open>
  \<open>representative_vote\<close> over the wallets. The error of \<open>fetch\<close> is ignored: the key that is used
  then is what the decryption gave, or, without an entry, the uninitialised variable \<open>junk\<close>.
\<close>

definition fetched_key :: "platform \<Rightarrow> private_key \<Rightarrow> wallet_store \<Rightarrow> public_key \<Rightarrow> private_key exec" where
  "fetched_key P junk w pub = do {
     value \<leftarrow> entry_get_raw w pub;
     if \<not> uint256_is_zero (value_key value) then do {
       key \<leftarrow> wallet_key P w;
       salt \<leftarrow> wallet_salt w;
       Some (uint256_prv P (value_key value) key (oword0 salt))
     } else Some junk
   }"

fun representative_vote ::
  "platform \<Rightarrow> choices \<Rightarrow> private_key \<Rightarrow> nat \<Rightarrow> nat \<Rightarrow> block \<Rightarrow> (uint256_union \<times> wallet_store) list \<Rightarrow>
     bool \<times> node \<Rightarrow> (bool \<times> node) exec" where
  "representative_vote P C junk now k block_a [] (result, n) = Some (result, n)"
| "representative_vote P C junk now k block_a ((i, w) # ws) (result, n) = do {
     is_rep \<leftarrow> is_representative w;
     if is_rep then do {
       rep \<leftarrow> wallet_representative w;
       prv \<leftarrow> fetched_key P junk w rep;
       n \<leftarrow> node_election_vote P C now k (make_vote P rep prv 0 block_a) n;
       representative_vote P C junk now k block_a ws (True, n)
     } else representative_vote P C junk now k block_a ws (result, n)
   }"

definition announce_vote :: "platform \<Rightarrow> choices \<Rightarrow> nat \<Rightarrow> nat \<Rightarrow> node \<Rightarrow> node exec" where
  "announce_vote P C now k n =
     (if k < length (node_elections n) then do {
        let e = node_elections n ! k;
        (weight_l, winner_l) \<leftarrow> winner (tally_order C) (node_store n) (election_votes e);
        (sent, n) \<leftarrow> confirm_broadcast P (peers (node_peers n)) winner_l (votes_sequence (election_votes e)) n;
        Some (if now < election_last_vote e + 15 then service_add (now + 15) (Election_announce k) n else n)
      } else None)"

definition timeout_action :: "nat \<Rightarrow> nat \<Rightarrow> node \<Rightarrow> node exec" where
  "timeout_action now k n =
     (if k < length (node_elections n) then
        let e = node_elections n ! k in
        if now < election_last_vote e + 15 then Some (service_add (now + 15) (Election_timeout k) n)
        else conflicts_stop (votes_id (election_votes e)) n
      else None)"

definition election_start :: "platform \<Rightarrow> choices \<Rightarrow> private_key \<Rightarrow> nat \<Rightarrow> nat \<Rightarrow> node \<Rightarrow> node exec" where
  "election_start P C junk now k n =
     (if k < length (node_elections n) then do {
        (have_representative, n) \<leftarrow>
          representative_vote P C junk now k (election_last_winner (node_elections n ! k)) (node_wallets n) (False, n);
        n \<leftarrow> (if have_representative then announce_vote P C now k n else Some n);
        timeout_action now k n
      } else None)"

section \<open>Observers and confirmations\<close>

definition confirm_wait :: "platform \<Rightarrow> nat" where
  "confirm_wait P = (if network P = paper_test_network then 0 else 5)"

definition send_visitor :: "platform \<Rightarrow> choices \<Rightarrow> nat \<Rightarrow> block \<Rightarrow> node \<Rightarrow> node exec" where
  "send_visitor P C now block_a n =
     (case block_a of
        Send b \<Rightarrow>
          if list_ex (\<lambda>(i, w). wallet_exists w (send_destination (send_hashables b))) (node_wallets n)
          then do {
            n \<leftarrow> conflicts_start P C now (Send b) Process_confirmed False n;
            Some (service_add (now + confirm_wait P) (Fast_confirm (root (Send b)) (Send b)) n)
          } else Some n
      | _ \<Rightarrow> Some n)"

text \<open>The observer that the node registers for itself; user interfaces may register more.\<close>

definition call_observers :: "platform \<Rightarrow> choices \<Rightarrow> nat \<Rightarrow> block \<Rightarrow> account option \<Rightarrow> node \<Rightarrow> node exec" where
  "call_observers P C now block_a account_a n = send_visitor P C now block_a n"

fun confirmed_wallets ::
  "platform \<Rightarrow> nat \<Rightarrow> send_block \<Rightarrow> (uint256_union \<times> wallet_store) list \<Rightarrow> node \<Rightarrow> node exec" where
  "confirmed_wallets P now b [] n = Some n"
| "confirmed_wallets P now b ((i, w) # ws) n =
     (let destination = send_destination (send_hashables b) in
      if wallet_exists w destination then do {
        prv \<leftarrow> fetch P w destination;
        rep \<leftarrow> wallet_representative w;
        confirmed_wallets P now b ws
          (case prv of None \<Rightarrow> n | Some prv \<Rightarrow> service_add now (Queue_receive i b prv rep) n)
      } else confirmed_wallets P now b ws n)"

definition process_confirmed :: "platform \<Rightarrow> nat \<Rightarrow> block \<Rightarrow> node \<Rightarrow> node exec" where
  "process_confirmed P now confirmed_a n =
     (case confirmed_a of Send b \<Rightarrow> confirmed_wallets P now b (node_wallets n) n | _ \<Rightarrow> Some n)"

definition fast_confirm :: "platform \<Rightarrow> nat \<Rightarrow> block_hash \<Rightarrow> block \<Rightarrow> node \<Rightarrow> node exec" where
  "fast_confirm P now root_a block_a n = do {
     clear \<leftarrow> conflicts_no_conflict n root_a;
     if clear then process_confirmed P now block_a n else Some n
   }"

section \<open>Processing blocks\<close>

definition node_process_receive ::
  "platform \<Rightarrow> choices \<Rightarrow> nat \<Rightarrow> block \<Rightarrow> node \<Rightarrow> (process_return \<times> node) exec" where
  "node_process_receive P C now block_a n = do {
     (result, s) \<leftarrow> process P (of_nat now) (node_store n) block_a;
     let n = n\<lparr>node_store := s\<rparr>;
     n \<leftarrow> (case ret_code result of
         progress \<Rightarrow> call_observers P C now block_a (ret_account result) n
       | gap_previous \<Rightarrow> Some (n\<lparr>node_gaps := gap_cache_add P now (node_gaps n) block_a (previous block_a)\<rparr>)
       | gap_source \<Rightarrow> Some (n\<lparr>node_gaps := gap_cache_add P now (node_gaps n) block_a (source block_a)\<rparr>)
       | fork \<Rightarrow> do {
           root_l \<leftarrow> successor (node_store n) (root block_a);
           conflicts_start P C now root_l Process_confirmed False n
         }
       | _ \<Rightarrow> Some n);
     Some (result, n)
   }"

partial_function (option) process_receive_republish ::
  "platform \<Rightarrow> choices \<Rightarrow> nat \<Rightarrow> block \<Rightarrow> nat \<Rightarrow> node \<Rightarrow> node exec" where
  "process_receive_republish P C now block_a rebroadcast_a n = do {
     (result, n) \<leftarrow> node_process_receive P C now block_a n;
     n \<leftarrow> (if ret_code result = progress then republish_block P block_a rebroadcast_a n else Some n);
     let (next_l, gaps) = gap_cache_get (node_gaps n) (block_hash P block_a);
     let n = n\<lparr>node_gaps := gaps\<rparr>;
     case next_l of
       None \<Rightarrow> Some n
     | Some b \<Rightarrow> process_receive_republish P C now b rebroadcast_a n
   }"

section \<open>Peers and datagrams\<close>

definition network_send_keepalive :: "platform \<Rightarrow> choices \<Rightarrow> endpoint \<Rightarrow> node \<Rightarrow> node exec" where
  "network_send_keepalive P C endpoint_a n = do {
     bytes \<leftarrow> to_v6 (ep_address endpoint_a);
     target \<leftarrow> random_fill (random_words C) (node_peers n);
     bytes \<leftarrow> keepalive_serialize P (make_keepalive\<lparr>keepalive_peers := target\<rparr>);
     Some (send_buffer bytes endpoint_a 0 n)
   }"

definition warmup :: "endpoint \<Rightarrow> bootstrap_initiator \<Rightarrow> bootstrap_initiator" where
  "warmup endpoint_a b =
     (if \<not> in_progress b \<and> length (warmed_up b) < 2 \<and> endpoint_a \<notin> set (warmed_up b)
      then b\<lparr>warmed_up := endpoint_a # warmed_up b, in_progress := True,
        initiated := initiated b @ [endpoint_a]\<rparr>
      else b)"

definition bootstrap_from :: "endpoint \<Rightarrow> bootstrap_initiator \<Rightarrow> bootstrap_initiator" where
  "bootstrap_from endpoint_a b =
     (if \<not> in_progress b then b\<lparr>initiated := initiated b @ [endpoint_a]\<rparr> else b)"

definition bootstrap_any :: "choices \<Rightarrow> nat \<Rightarrow> node \<Rightarrow> node" where
  "bootstrap_any C now n =
     (let list_l = bootstrap_candidates now (node_peers n) in
      if list_l \<noteq> []
      then let r = (case random_words C of [] \<Rightarrow> 0 | r # _ \<Rightarrow> r) in
        n\<lparr>node_bootstrap := bootstrap_from (peer_endpoint (list_l ! (unat r mod length list_l))) (node_bootstrap n)\<rparr>
      else n)"

text \<open>The observer of new peers.\<close>

definition endpoint_observer :: "platform \<Rightarrow> choices \<Rightarrow> endpoint \<Rightarrow> node \<Rightarrow> node exec" where
  "endpoint_observer P C endpoint_a n = do {
     n \<leftarrow> network_send_keepalive P C endpoint_a n;
     Some (n\<lparr>node_bootstrap := warmup endpoint_a (node_bootstrap n)\<rparr>)
   }"

definition node_peer_insert :: "platform \<Rightarrow> choices \<Rightarrow> nat \<Rightarrow> endpoint \<Rightarrow> block_hash \<Rightarrow> node \<Rightarrow> node exec" where
  "node_peer_insert P C now endpoint_a hash_a n = do {
     (result, unknown, c) \<leftarrow> peer_insert now (node_peers n) endpoint_a hash_a;
     let n = n\<lparr>node_peers := c\<rparr>;
     if unknown then endpoint_observer P C endpoint_a n else Some n
   }"

definition node_contacted :: "platform \<Rightarrow> choices \<Rightarrow> nat \<Rightarrow> endpoint \<Rightarrow> node \<Rightarrow> node exec" where
  "node_contacted P C now endpoint_a n = node_peer_insert P C now (v4_mapped endpoint_a) 0 n"

fun merge_peers :: "platform \<Rightarrow> choices \<Rightarrow> nat \<Rightarrow> endpoint list \<Rightarrow> node \<Rightarrow> node exec" where
  "merge_peers P C now [] n = Some n"
| "merge_peers P C now (i # is) n = do {
     skip \<leftarrow> not_a_peer (node_peers n) i;
     n \<leftarrow> (if \<not> skip \<and> \<not> known_peer now (node_peers n) i then network_send_keepalive P C i n else Some n);
     merge_peers P C now is n
   }"

definition node_vote :: "platform \<Rightarrow> choices \<Rightarrow> nat \<Rightarrow> vote \<Rightarrow> node \<Rightarrow> node exec" where
  "node_vote P C now vote_a n = do {
     n \<leftarrow> conflicts_update P C now vote_a n;
     (gaps, boot) \<leftarrow>
       gap_cache_vote P (tally_order C) (node_store n) (node_numerator n) (node_gaps n) vote_a;
     let n = n\<lparr>node_gaps := gaps\<rparr>;
     Some (if boot then bootstrap_any C now n else n)
   }"

definition visit_message :: "platform \<Rightarrow> choices \<Rightarrow> nat \<Rightarrow> endpoint \<Rightarrow> incoming \<Rightarrow> node \<Rightarrow> node exec" where
  "visit_message P C now sender message_a n =
     (case message_a of
        In_keepalive m \<Rightarrow> do {
          let n = count ''keepalive'' n;
          n \<leftarrow> node_contacted P C now sender n;
          merge_peers P C now (keepalive_peers m) n
        }
      | In_publish m \<Rightarrow> do {
          let n = count ''publish'' n;
          n \<leftarrow> node_contacted P C now sender n;
          b \<leftarrow> publish_block m;
          n \<leftarrow> node_peer_insert P C now sender (block_hash P b) n;
          process_receive_republish P C now b 0 n
        }
      | In_confirm_req m \<Rightarrow> do {
          let n = count ''confirm_req'' n;
          n \<leftarrow> node_contacted P C now sender n;
          b \<leftarrow> confirm_req_block m;
          n \<leftarrow> node_peer_insert P C now sender (block_hash P b) n;
          n \<leftarrow> process_receive_republish P C now b 0 n;
          if block_exists (node_store n) (block_hash P b) then process_confirmation P b sender n else Some n
        }
      | In_confirm_ack m \<Rightarrow> do {
          let n = count ''confirm_ack'' n;
          n \<leftarrow> node_contacted P C now sender n;
          let vote_a = confirm_ack_vote m;
          n \<leftarrow> node_peer_insert P C now sender (block_hash P (vote_block vote_a)) n;
          n \<leftarrow> process_receive_republish P C now (vote_block vote_a) 0 n;
          node_vote P C now vote_a n
        })"

text \<open>A datagram that arrived without a socket error while the network is on.\<close>

definition receive_action ::
  "platform \<Rightarrow> choices \<Rightarrow> nat \<Rightarrow> (nat \<Rightarrow> uint128_t \<times> uint16) \<Rightarrow> endpoint \<Rightarrow> byte list \<Rightarrow> node \<Rightarrow> node exec" where
  "receive_action P C now junk remote buffer n = do {
     reserved \<leftarrow> reserved_address remote;
     if \<not> reserved \<and> remote \<noteq> node_endpoint n then do {
       (parser, delivered) \<leftarrow> deserialize_buffer P junk buffer make_parser;
       n \<leftarrow> (case delivered of None \<Rightarrow> Some n | Some m \<Rightarrow> visit_message P C now remote m n);
       Some (if parser_error parser then count ''error'' n
         else if parser_insufficient_work parser then count ''insufficient_work'' n else n)
     } else Some (count ''bad_sender'' n)
   }"

end
