(* ===== verification/Ledger_Props.thy ===== *)
theory Ledger_Props
  imports Sample
begin

text \<open>
  What holds of every store that is created, given the genesis and then any blocks to process,
  in any order. Such stores are called reachable (\<open>ledger_history\<close>). A reachable store is described in terms of the operations of \<open>block_store\<close> and \<open>ledger\<close>.
  Rolling blocks back, which elections do, is not part of such a history; it is the subject
  of \<open>Ledger_Rollback\<close>. Each theorem has a witness on the history of \<open>Sample\<close>.
\<close>

section \<open>Chains as lists\<close>

lemma dump_chain_correct:
  assumes "store_ok s" and "chain_ok P (blocks (view s))"
  shows "chain_is (blocks (view s)) h hs \<Longrightarrow> dump_chain s h = Some hs"
proof (induction rule: chain_is.induct)
  case (chain_open h x)
  then show ?case
    using assms chain_okD(2) [OF assms(2) chain_open]
    by (simp add: dump_chain.simps [of s h] dump_chain.simps [of s 0] uint256_is_zero_eq store_simps)
next
  case (chain_next h b hs)
  then show ?case
    using assms chain_okD(2) [OF assms(2) chain_next(1)]
    by (simp add: dump_chain.simps [of s h] uint256_is_zero_eq store_simps)
qed

lemma chain_is_fun: "chain_is m h hs \<Longrightarrow> chain_is m h ks \<Longrightarrow> hs = ks"
proof (induction arbitrary: ks rule: chain_is.induct)
  case (chain_open h x)
  from chain_open(2,1) show ?case by cases auto
next
  case (chain_next h b hs)
  from chain_next(5,1,2) obtain js where "ks = h # js" "chain_is m (previous b) js" by cases auto
  then show ?case using chain_next.IH by simp
qed

lemma chain_is_suffix:
  "chain_is m h hs \<Longrightarrow> k \<in> set hs \<Longrightarrow> \<exists>ks. chain_is m k ks \<and> length ks \<le> length hs"
proof (induction rule: chain_is.induct)
  case (chain_next h b hs)
  have "chain_is m h (h # hs)" by (rule chain_is.chain_next [OF chain_next(1-3)])
  then show ?case using chain_next(4,5) by (auto intro: le_SucI)
qed (auto intro: chain_open)

lemma chain_is_list:
  assumes "chain_is m h hs"
  shows "hs \<noteq> []" and "hd hs = h" and "distinct hs" and "\<exists>x. m (last hs) = Some (Open x)"
    and "Suc j < length hs \<Longrightarrow> \<exists>b. m (hs ! j) = Some b \<and> previous b = hs ! Suc j"
proof -
  show "hs \<noteq> []" "hd hs = h" using assms by (cases; simp)+
  show "distinct hs"
    using assms
  proof (induction rule: chain_is.induct)
    case (chain_next h b hs)
    have "h \<notin> set hs"
    proof
      assume "h \<in> set hs"
      then obtain ks where "chain_is m h ks" "length ks \<le> length hs"
        using chain_is_suffix [OF chain_next(3)] by blast
      then show False
        using chain_is_fun [OF chain_is.chain_next [OF chain_next(1-3)]] by fastforce
    qed
    then show ?case using chain_next by simp
  qed simp
  show "\<exists>x. m (last hs) = Some (Open x)"
    using assms by (induction rule: chain_is.induct) (auto elim: chain_is.cases)
  show "Suc j < length hs \<Longrightarrow> \<exists>b. m (hs ! j) = Some b \<and> previous b = hs ! Suc j"
    using assms
  proof (induction arbitrary: j rule: chain_is.induct)
    case (chain_next h b hs)
    have "hs \<noteq> [] \<and> hd hs = previous b" using chain_next(3) by cases auto
    then show ?case using chain_next by (cases j) (auto simp: hd_conv_nth)
  qed simp
qed

text \<open>The chain of an account's head holds every block of the account.\<close>

lemma chain_is_all:
  assumes "no_fork m" and "chain_is m t hs" and top: "\<forall>k c. m k = Some c \<longrightarrow> previous c \<noteq> t"
    and "account_is m (last hs) a" and "m 0 = None"
  shows "chain_is m k ks \<Longrightarrow> \<forall>j \<in> set ks. account_is m j a \<Longrightarrow> k \<in> set hs"
proof (induction rule: chain_is.induct)
  case (chain_open h x)
  obtain y where y: "m (last hs) = Some (Open y)" using chain_is_list(4) [OF assms(2)] by blast
  have "open_account (open_hashables y) = a"
    using account_is_fun [OF assms(4), of "open_account (open_hashables y)"] y by (simp add: acc_open)
  moreover have "open_account (open_hashables x) = a"
    using account_is_fun [of m h a "open_account (open_hashables x)"] chain_open by (simp add: acc_open)
  ultimately have "h = last hs" using assms(1) y chain_open(1) unfolding no_fork_def by blast
  then show ?case using chain_is_list(1) [OF assms(2)] by simp
next
  case (chain_next h b ks)
  then have "previous b \<in> set hs" by simp
  then obtain j where j: "j < length hs" "hs ! j = previous b" by (auto simp: in_set_conv_nth)
  have "previous b \<noteq> 0" using chain_is_stored [OF chain_next(3)] assms(5) by metis
  show ?case
  proof (cases j)
    case 0
    then show ?thesis
      using j chain_is_list(1,2) [OF assms(2)] top chain_next(1) by (simp add: hd_conv_nth)
  next
    case (Suc l)
    then obtain c where "m (hs ! l) = Some c" "previous c = previous b"
      using chain_is_list(5) [OF assms(2), of l] j by auto
    then have "hs ! l = h" using assms(1) chain_next(1) \<open>previous b \<noteq> 0\<close> unfolding no_fork_def by metis
    then show ?thesis using j Suc by auto
  qed
qed

lemma account_chain:
  assumes "chains_ok v" and "heads_ok P v" and "no_fork (blocks v)" and "mdb_get (infos v) a = Some i"
    and "chain_ok P (blocks v)"
  obtains hs where "chain_is (blocks v) (info_head i) hs" and "set hs = {k. account_is (blocks v) k a}"
proof -
  have chain: "\<exists>ks. chain_is (blocks v) k ks \<and> (\<forall>j \<in> set ks. account_is (blocks v) j a)"
    if acc: "account_is (blocks v) k a" for k
  proof -
    obtain ks c where ks: "chain_is (blocks v) k ks" "\<forall>j \<in> set ks. account_is (blocks v) j c"
      using assms(1) chain_stored(2) [OF acc] unfolding chains_ok_def by blast
    then have "c = a" using chain_is_stored [OF ks(1)] account_is_fun [OF _ acc] by blast
    then show ?thesis using ks by blast
  qed
  note head = heads_okD [OF assms(2,4)]
  obtain hs where hs: "chain_is (blocks v) (info_head i) hs" "\<forall>j \<in> set hs. account_is (blocks v) j a"
    using chain [OF head(3)] by blast
  have top: "\<forall>k c. blocks v k = Some c \<longrightarrow> previous c \<noteq> info_head i"
    using assms(2) head(1) unfolding heads_ok_def by blast
  have last: "account_is (blocks v) (last hs) a" using hs chain_is_list(1) by simp
  have zero: "blocks v 0 = None" using chain_okD(2) [OF assms(5)] by (metis not_None_eq)
  have "set hs = {k. account_is (blocks v) k a}"
    using hs(2) chain chain_is_all [OF assms(3) hs(1) top last zero] by blast
  then show ?thesis using that hs(1) by blast
qed

section \<open>Processing\<close>

text \<open>
  C1. \<open>ledger::process\<close> implements the abstract ledger. On every reachable store a block that
  fails a check is answered with exactly the code of that check and leaves the store as it
  is; a block that passes makes exactly the step of the abstract ledger and is linked as the
  successor of its predecessor; and the code aborts on an assertion exactly when the weight
  to move or a representative to move it to is missing.
\<close>

theorem process_refines:
  assumes "history_ok P es" and "ledger_history P t0 es = Some s" and "hash_ok P b"
  shows "if process_code P (view s) b \<noteq> progress
         then process P now s b = rejected (process_code P (view s) b) s
         else if movable (view s) b
         then \<exists>a s'. process P now s b = accepted a s' \<and> ledger_step P now (view s) b a (view s') \<and>
           stored s' = link (stored s) (block_hash P b) b
         else process P now s b = None"
  using process_rejects [OF ledger_history_inv(3) [OF assms(1,2)], of b now]
    process_accepts [OF ledger_history_inv(3) [OF assms(1,2)] assms(3), of now]
  unfolding accepts_def by (metis (full_types))

theorem process_refines_witness:
  "\<exists>s s' a. ledger_history sample_platform 0 [(1, sample_send)] = Some s \<and>
     process sample_platform 2 s sample_change = accepted a s' \<and>
     ledger_step sample_platform 2 (view s) sample_change a (view s')"
proof -
  obtain s where s: "ledger_history sample_platform 0 [(1, sample_send)] = Some s"
    "history_ok sample_platform [(1, sample_send)]" "view s = sample_sent"
    by (rule sample_sent_history)
  have "process_code sample_platform (view s) sample_change = progress" "movable (view s) sample_change"
    by (simp_all add: s(3) sample_sent_def sample_defs genesis_amount_def)
  then show ?thesis
    using process_refines [OF s(2,1) sample_history_ok(3), of 2] s(1) by auto
qed

text \<open>
  C2. No money is made or lost. In every reachable store the balances of all accounts and the
  amounts of all pending sends add up to the genesis amount, and so do the weights of all
  representatives; no sum overflows its 128 bits.
\<close>

theorem supply_conserved:
  assumes "history_ok P es" and "ledger_history P t0 es = Some s"
  shows "total_balance (view s) + total_pending (view s) = 2 ^ 128 - 1 \<and>
    total_weight (view s) = 2 ^ 128 - 1"
  using ledger_okD(7) [OF ledger_history_inv(3) [OF assms]]
  by (simp add: totals_ok_def genesis_amount_def unsigned_minus_1_eq_mask mask_eq_exp_minus_1)

theorem supply_conserved_witness:
  "\<exists>s. ledger_history sample_platform 0 [(1, sample_send)] = Some s \<and> total_pending (view s) > 0 \<and>
     total_balance (view s) + total_pending (view s) = 2 ^ 128 - 1"
proof -
  obtain s where s: "ledger_history sample_platform 0 [(1, sample_send)] = Some s"
    "history_ok sample_platform [(1, sample_send)]" "view s = sample_sent"
    by (rule sample_sent_history)
  have "total_pending (view s) > 0"
    by (simp add: s(3) sample_sent_def total_pending_def mdb_single genesis_amount_def)
  then show ?thesis using supply_conserved [OF s(2,1)] s(1) by blast
qed

text \<open>
  C13. After any history of processed blocks, without rollbacks, the table of accounts is
  exact: for every account with an entry, walking the chain from
  its head computes the balance stored in the entry, the block that names its
  representative, and the account itself; the head is recorded as the account's frontier.
\<close>

theorem account_entry_exact:
  assumes "history_ok P es" and "ledger_history P t0 es = Some s"
    and "account_get s a = Some (Some i)"
  shows "account_balance s a = Some (info_balance i) \<and> latest s a = Some (info_head i) \<and>
    ledger_balance P s (info_head i) = Some (info_balance i) \<and>
    ledger_representative P s (info_head i) = Some (info_rep_block i) \<and>
    frontier_get s (info_head i) = Some a \<and>
    (a = 0 \<or> ledger_account s (info_head i) = Some a)"
proof -
  note inv = ledger_okD [OF ledger_history_inv(3) [OF assms(1,2)]]
  have i: "mdb_get (infos (view s)) a = Some i" using assms(3) inv(1) by (simp add: store_simps)
  note head = heads_okD [OF inv(5) i]
  show ?thesis
    using assms(3) inv(1) head(1) ledger_balance_correct [OF chain_ok_walkable [OF inv(1,3)] head(2)]
      ledger_representative_correct [OF inv(1,3) head(4)] ledger_account_correct [OF inv(1) head(3)]
    by (auto simp: account_balance_def latest_def store_simps)
qed

theorem account_entry_exact_witness:
  "\<exists>s. ledger_history sample_platform 0 [(1, sample_send)] = Some s \<and>
     ledger_balance sample_platform s 0x10050 = Some 1 \<and>
     ledger_account s 0x10050 = Some paper_test_account"
proof -
  obtain s where s: "ledger_history sample_platform 0 [(1, sample_send)] = Some s"
    "history_ok sample_platform [(1, sample_send)]" "view s = sample_sent"
    by (rule sample_sent_history)
  have "account_get s paper_test_account = Some (Some
      \<lparr>info_head = 0x10050, info_rep_block = 0xD0B060, info_balance = 1, info_modified = 1\<rparr>)"
    using ledger_history_inv(1) [OF s(2,1)] by (simp add: store_simps s(3) sample_sent_def sample_defs)
  from account_entry_exact [OF s(2,1) this] show ?thesis
    using s(1) by (auto simp: paper_test_account_def)
qed

text \<open>
  C15. The walks return on every stored block: the recursive visitors that compute the balance
  after a block, its representative and its account end with a result, and the
  representative is a stored block that names a non-zero account. The account walk does
  not end for the account zero, which it takes for an unknown result.
\<close>

theorem walks_return:
  assumes "history_ok P es" and "ledger_history P t0 es = Some s"
    and "block_get s h = Some (Some b)"
  shows "(\<exists>w. ledger_balance P s h = Some w) \<and>
    (\<exists>r c. ledger_representative P s h = Some r \<and> block_get s r = Some (Some c) \<and> representative c \<noteq> 0) \<and>
    (\<exists>a. account_is (blocks (view s)) h a \<and> (a = 0 \<or> ledger_account s h = Some a))"
proof -
  note inv = ledger_okD [OF ledger_history_inv(3) [OF assms(1,2)]]
  have b: "blocks (view s) h = Some b" using assms(3) inv(1) by (simp add: store_simps)
  obtain w a r where walks: "balance_is (genesis_account P) (blocks (view s)) h w"
    "account_is (blocks (view s)) h a" "rep_is (blocks (view s)) h r"
    using inv(10) b unfolding walks_ok_def by blast
  obtain c where c: "blocks (view s) r = Some c" "representative c \<noteq> 0"
    by (rule rep_is_nonzero [OF inv(3) walks(3)])
  then show ?thesis
    using ledger_balance_correct [OF chain_ok_walkable [OF inv(1,3)] walks(1)] inv(1) c
      ledger_representative_correct [OF inv(1,3) walks(3)] ledger_account_correct [OF inv(1) walks(2)] walks(2)
    by (auto simp: store_simps)
qed

theorem walks_return_witness:
  "\<exists>s r. ledger_history sample_platform 0 [(1, sample_send)] = Some s \<and>
     ledger_representative sample_platform s 0x10050 = Some r"
proof -
  obtain s where s: "ledger_history sample_platform 0 [(1, sample_send)] = Some s"
    "history_ok sample_platform [(1, sample_send)]" "view s = sample_sent"
    by (rule sample_sent_history)
  have "block_get s 0x10050 = Some (Some sample_send)"
    using ledger_history_inv(1) [OF s(2,1)] by (simp add: store_simps s(3) sample_sent_def sample_defs)
  from walks_return [OF s(2,1) this] show ?thesis using s(1) by blast
qed

section \<open>Chains\<close>

text \<open>
  C3. No fork and no double spend: two stored blocks that follow the same block, receive the
  same send, or open the same account are one block.
\<close>

theorem no_double_spend:
  assumes "history_ok P es" and "ledger_history P t0 es = Some s"
    and "block_get s h = Some (Some b)" and "block_get s k = Some (Some c)"
    and "previous b = previous c \<and> previous b \<noteq> 0 \<or> source b = source c \<and> source b \<noteq> 0 \<or>
      (\<exists>x y. b = Open x \<and> c = Open y \<and>
        open_account (open_hashables x) = open_account (open_hashables y))"
  shows "h = k \<and> b = c"
proof -
  note inv = ledger_okD [OF ledger_history_inv(3) [OF assms(1,2)]]
  have "blocks (view s) h = Some b" "blocks (view s) k = Some c"
    using assms(3,4) inv(1) by (simp_all add: store_simps)
  moreover from this have "h = k" using inv(4) assms(5) unfolding no_fork_def by blast
  ultimately show ?thesis by simp
qed

theorem no_double_spend_witness:
  "\<exists>s. ledger_history sample_platform 0 [(1, sample_send)] = Some s \<and>
     (\<forall>k c. block_get s k = Some (Some c) \<longrightarrow> previous c = 0xD0B060 \<longrightarrow> k = 0x10050 \<and> c = sample_send)"
proof -
  obtain s where s: "ledger_history sample_platform 0 [(1, sample_send)] = Some s"
    "history_ok sample_platform [(1, sample_send)]" "view s = sample_sent"
    by (rule sample_sent_history)
  have "block_get s 0x10050 = Some (Some sample_send)"
    using ledger_history_inv(1) [OF s(2,1)] by (simp add: store_simps s(3) sample_sent_def sample_defs)
  from no_double_spend [OF s(2,1) this] show ?thesis using s(1) by fastforce
qed

text \<open>
  C14. A send block is pending exactly until it is received. While no stored block names it
  as its source, the table of pending sends has its destination, the amount that
  \<open>ledger::amount\<close> computes for it and the sending account; afterwards exactly one block
  names it and it is not pending.
\<close>

theorem pending_exact:
  assumes "history_ok P es" and "ledger_history P t0 es = Some s"
    and "block_get s h = Some (Some (Send x))"
  shows "case pending_get s h of
      None \<Rightarrow> False
    | Some None \<Rightarrow> \<exists>!k. \<exists>c. block_get s k = Some (Some c) \<and> source c = h
    | Some (Some r) \<Rightarrow>
        rcv_destination r = send_destination (send_hashables x) \<and>
        ledger_amount P s h = Some (rcv_amount r) \<and>
        (rcv_source r = 0 \<or> ledger_account s h = Some (rcv_source r)) \<and>
        (\<nexists>k c. block_get s k = Some (Some c) \<and> source c = h)"
proof -
  note inv = ledger_okD [OF ledger_history_inv(3) [OF assms(1,2)]]
  have b: "blocks (view s) h = Some (Send x)" using assms(3) inv(1) by (simp add: store_simps)
  have h: "h \<noteq> 0" by (rule chain_okD(2) [OF inv(3) b])
  show ?thesis
  proof (cases "mdb_get (receivables (view s)) h")
    case None
    then obtain k c where "blocks (view s) k = Some c" "source c = h"
      using inv(6) b unfolding pending_ok_def by blast
    then have "\<exists>!k. \<exists>c. blocks (view s) k = Some c \<and> source c = h"
      using inv(4) h unfolding no_fork_def by (intro ex1I [of _ k]) auto
    then show ?thesis using None inv(1) by (simp add: store_simps)
  next
    case (Some r)
    have walk: "amount_is (genesis_account P) (blocks (view s)) h (rcv_amount r)"
      "account_is (blocks (view s)) h (rcv_source r)"
      using inv(6) Some unfolding pending_ok_def by blast+
    have "rcv_destination r = send_destination (send_hashables x)"
      using inv(6) Some b unfolding pending_ok_def by fastforce
    moreover have "\<nexists>k c. blocks (view s) k = Some c \<and> source c = h"
      using inv(6) Some unfolding pending_ok_def by blast
    ultimately show ?thesis
      using Some inv(1) ledger_amount_correct [OF chain_ok_walkable [OF inv(1,3)] walk(1)]
        ledger_account_correct [OF inv(1) walk(2)]
      by (auto simp: store_simps)
  qed
qed

theorem pending_exact_witness:
  "\<exists>s. ledger_history sample_platform 0 [(1, sample_send)] = Some s \<and>
     ledger_amount sample_platform s 0x10050 = Some (2 ^ 128 - 2)"
proof -
  obtain s where s: "ledger_history sample_platform 0 [(1, sample_send)] = Some s"
    "history_ok sample_platform [(1, sample_send)]" "view s = sample_sent"
    by (rule sample_sent_history)
  have "block_get s 0x10050 = Some (Some sample_send)"
    "pending_get s 0x10050 = Some (Some \<lparr>rcv_source = paper_test_account,
       rcv_amount = genesis_amount - 1, rcv_destination = 5\<rparr>)"
    using ledger_history_inv(1) [OF s(2,1)]
    by (simp_all add: store_simps s(3) sample_sent_def sample_defs)
  with pending_exact [OF s(2,1) this(1)] show ?thesis using s(1) by (auto simp: genesis_amount_def)
qed

text \<open>
  C18. Every stored block but the genesis carries a signature of its own hash that validates
  against the account the block belongs to.
\<close>

theorem stored_blocks_signed:
  assumes "history_ok P es" and "ledger_history P t0 es = Some s"
    and "block_get s h = Some (Some b)" and "h \<noteq> genesis_hash P"
  shows "block_hash P b = h \<and>
    (\<exists>a. account_is (blocks (view s)) h a \<and> (a = 0 \<or> ledger_account s h = Some a) \<and>
       \<not> validate_message P a h (signature_of b))"
proof -
  note inv = ledger_okD [OF ledger_history_inv(3) [OF assms(1,2)]]
  have b: "blocks (view s) h = Some b" using assms(3) inv(1) by (simp add: store_simps)
  obtain a where "account_is (blocks (view s)) h a" "\<not> validate_message P a h (signature_of b)"
    using inv(9) b assms(4) unfolding signed_ok_def by blast
  then show ?thesis using chain_okD(1) [OF inv(3) b] ledger_account_correct [OF inv(1)] by blast
qed

theorem stored_blocks_signed_witness:
  "\<exists>s. ledger_history sample_platform 0 [(1, sample_send)] = Some s \<and>
     (\<exists>a. account_is (blocks (view s)) 0x10050 a \<and>
        \<not> validate_message sample_platform a 0x10050 (signature_of sample_send))"
proof -
  obtain s where s: "ledger_history sample_platform 0 [(1, sample_send)] = Some s"
    "history_ok sample_platform [(1, sample_send)]" "view s = sample_sent"
    by (rule sample_sent_history)
  have "block_get s 0x10050 = Some (Some sample_send)"
    using ledger_history_inv(1) [OF s(2,1)] by (simp add: store_simps s(3) sample_sent_def sample_defs)
  from stored_blocks_signed [OF s(2,1) this] show ?thesis
    using s(1) by (auto simp: sample_genesis_hash)
qed

lemma successor_next:
  assumes "node_ok P s"
    and "block_exists s h" and "ledger_account s h = Some a" and "latest s a \<noteq> Some h"
  shows "\<exists>b. successor s h = Some b \<and> previous b = h \<and>
    block_get s (block_hash P b) = Some (Some b)"
proof -
  have node: "ledger_ok P s" "successors_ok (blocks (view s)) (stored s)" "chains_ok (view s)"
    using assms(1) by (simp_all add: node_ok_def)
  note inv = ledger_okD [OF node(1)]
  obtain b where b: "blocks (view s) h = Some b" using assms(2) inv(1) by (auto simp: store_simps)
  obtain n where n: "stored s h = Some (b, n)"
    using b blocks_stored [OF inv(1), of h] by (cases "stored s h") auto
  obtain l where l: "latest s a = Some l"
    using inv(1) by (auto simp: latest_def store_simps split: option.splits)
  have "mdb_get (heads (view s)) h = None"
  proof (rule ccontr)
    assume "mdb_get (heads (view s)) h \<noteq> None"
    then obtain c i where c: "mdb_get (heads (view s)) h = Some c" "mdb_get (infos (view s)) c = Some i"
      "info_head i = h" using heads_info [OF inv(5)] by (metis not_None_eq)
    have acc: "account_is (blocks (view s)) h c" using heads_okD(3) [OF inv(5) c(2)] c(3) by simp
    show False
    proof (cases "c = 0")
      case False
      then have "c = a" using ledger_account_correct [OF inv(1) acc] assms(3) by simp
      then show ?thesis using assms(4) c inv(1) by (simp add: latest_def store_simps)
    next
      case True
      then show ?thesis using account_walk_zero [OF inv(1), of h] acc assms(3) by simp
    qed
  qed
  then obtain k c where "blocks (view s) k = Some c" "previous c = h"
    using node(3) b unfolding chains_ok_def by blast
  then have "n \<noteq> 0" and "\<exists>c. blocks (view s) n = Some c \<and> previous c = h"
    using node(2) n unfolding successors_ok_def by (metis (full_types))+
  then obtain c where c: "blocks (view s) n = Some c" "previous c = h" by blast
  have "successor s h = Some c"
    using \<open>n \<noteq> 0\<close> assms(2-4) l c(1) n inv(1)
    by (simp add: successor_def assert_def block_successor_view uint256_is_zero_eq store_simps)
  then show ?thesis using c chain_okD(1) [OF inv(3) c(1)] inv(1) by (simp add: store_simps)
qed

text \<open>
  C17. \<open>ledger::successor\<close> follows the chain: for a stored block that is not the head of its
  account, it returns a stored block whose predecessor is that block.
\<close>

theorem successor_follows:
  assumes "history_ok P es" and "ledger_history P t0 es = Some s"
    and "block_exists s h" and "ledger_account s h = Some a" and "latest s a \<noteq> Some h"
  shows "\<exists>b. successor s h = Some b \<and> previous b = h \<and>
    block_get s (block_hash P b) = Some (Some b)"
  using successor_next [OF _ assms(3-5)] ledger_history_inv [OF assms(1,2)] by (simp add: node_ok_def)

theorem successor_follows_witness:
  "\<exists>s b. ledger_history sample_platform 0 [(1, sample_send)] = Some s \<and>
     successor s 0xD0B060 = Some b \<and> previous b = 0xD0B060"
proof -
  obtain s where s: "ledger_history sample_platform 0 [(1, sample_send)] = Some s"
    "history_ok sample_platform [(1, sample_send)]" "view s = sample_sent"
    by (rule sample_sent_history)
  have ok: "store_ok s" by (rule ledger_history_inv(1) [OF s(2,1)])
  have "account_is (blocks (view s)) 0xD0B060 paper_test_account"
    using acc_open [of "blocks (view s)" "0xD0B060" "genesis_open sample_platform"]
    by (simp add: s(3) sample_sent_def sample_defs)
  then have "ledger_account s 0xD0B060 = Some paper_test_account"
    by (rule ledger_account_correct [OF ok]) (simp add: paper_test_account_def)
  moreover have "block_exists s 0xD0B060" "latest s paper_test_account \<noteq> Some 0xD0B060"
    using ok by (simp_all add: latest_def store_simps s(3) sample_sent_def sample_defs)
  ultimately show ?thesis
    using successor_follows [OF s(2,1), of "0xD0B060" paper_test_account] s(1) by blast
qed

text \<open>
  C16. \<open>ledger::dump_account_chain\<close> returns for every account with an entry, and prints exactly
  the blocks of the account, each once, from the head down to its open block, each
  followed by its predecessor.
\<close>

theorem account_chain_complete:
  assumes "history_ok P es" and "ledger_history P t0 es = Some s"
    and "account_get s a = Some (Some i)"
  shows "\<exists>hs. dump_account_chain s a = Some hs \<and> hs \<noteq> [] \<and> hd hs = info_head i \<and> distinct hs \<and>
    set hs = {k. account_is (blocks (view s)) k a} \<and>
    (\<forall>j. Suc j < length hs \<longrightarrow> (\<exists>b. block_get s (hs ! j) = Some (Some b) \<and> previous b = hs ! Suc j)) \<and>
    (\<exists>x. block_get s (last hs) = Some (Some (Open x)))"
proof -
  note node = ledger_history_inv [OF assms(1,2)]
  note inv = ledger_okD [OF node(3)]
  have i: "mdb_get (infos (view s)) a = Some i" using assms(3) inv(1) by (simp add: store_simps)
  obtain hs where hs: "chain_is (blocks (view s)) (info_head i) hs"
    "set hs = {k. account_is (blocks (view s)) k a}"
    by (rule account_chain [OF node(5) inv(5,4) i inv(3)])
  have "dump_account_chain s a = Some hs"
    using assms(3) dump_chain_correct [OF inv(1,3) hs(1)] by (simp add: dump_account_chain_def latest_def)
  moreover have "\<forall>j. Suc j < length hs \<longrightarrow> (\<exists>b. block_get s (hs ! j) = Some (Some b) \<and> previous b = hs ! Suc j)"
    using chain_is_list(5) [OF hs(1)] by (simp add: block_get_view [OF inv(1)])
  moreover have "\<exists>x. block_get s (last hs) = Some (Some (Open x))"
    using chain_is_list(4) [OF hs(1)] by (simp add: block_get_view [OF inv(1)])
  ultimately show ?thesis using hs(2) chain_is_list(1-3) [OF hs(1)] by blast
qed

theorem account_chain_complete_witness:
  "\<exists>s hs. ledger_history sample_platform 0 [(1, sample_send)] = Some s \<and>
     dump_account_chain s paper_test_account = Some hs \<and> hd hs = 0x10050 \<and> distinct hs"
proof -
  obtain s where s: "ledger_history sample_platform 0 [(1, sample_send)] = Some s"
    "history_ok sample_platform [(1, sample_send)]" "view s = sample_sent"
    by (rule sample_sent_history)
  have "account_get s paper_test_account = Some (Some
      \<lparr>info_head = 0x10050, info_rep_block = 0xD0B060, info_balance = 1, info_modified = 1\<rparr>)"
    using ledger_history_inv(1) [OF s(2,1)] by (simp add: store_simps s(3) sample_sent_def sample_defs)
  from account_chain_complete [OF s(2,1) this] s(1) show ?thesis
    by (elim exE conjE) (intro exI conjI; assumption | simp)
qed

section \<open>Sums\<close>

text \<open>
  C19. From the creation of a store on, as long as it stays open and only blocks are processed,
  \<open>ledger::checksum\<close> is the exclusive or of the heads of all accounts, whatever the order in
  which the blocks came. When the store is opened again the checksum is zero: the constructor
  of \<open>block_store\<close> stores a zero.
\<close>

theorem checksum_of_heads:
  assumes "history_ok P es" and "ledger_history P t0 es = Some s"
  shows "ledger_checksum s begin_a end_a = Some (mdb_xor (\<lambda>a i. info_head i) (infos (view s))) \<and>
    (\<exists>s'. block_store_open s = Some s' \<and> ledger_checksum s' begin_a end_a = Some 0)"
proof
  show "ledger_checksum s begin_a end_a = Some (mdb_xor (\<lambda>a i. info_head i) (infos (view s)))"
    using ledger_okD(1,8) [OF ledger_history_inv(3) [OF assms]]
    by (simp add: ledger_checksum_def checksum_view check_ok_def)
  obtain s' where s': "checksum_put s 0 0 0 = Some s'" "view s' = (view s)\<lparr>check := Some 0\<rparr>" "store_ok s'"
    using ledger_history_inv(1) [OF assms] checksum_view(2) [of s 0] by blast
  then show "\<exists>s'. block_store_open s = Some s' \<and> ledger_checksum s' begin_a end_a = Some 0"
    by (auto simp: block_store_open_def ledger_checksum_def checksum_view)
qed

theorem checksum_of_heads_witness:
  "\<exists>s. ledger_history sample_platform 0 [(1, sample_send)] = Some s \<and>
     ledger_checksum s 0 0 = Some 0x10050"
proof -
  obtain s where s: "ledger_history sample_platform 0 [(1, sample_send)] = Some s"
    "history_ok sample_platform [(1, sample_send)]" "view s = sample_sent"
    by (rule sample_sent_history)
  have "mdb_xor (\<lambda>a i. info_head i) (infos (view s)) = 0x10050"
    by (simp add: s(3) sample_sent_def sample_defs mdb_xor_put)
  then show ?thesis using checksum_of_heads [OF s(2,1), of 0 0] s(1) by simp
qed

text \<open>
  C20. \<open>ledger::supply\<close> returns what has left the genesis account: the balances of all other
  accounts together with everything pending.
\<close>

theorem supply_is_circulating:
  assumes "history_ok P es" and "ledger_history P t0 es = Some s"
  shows "\<exists>w. ledger_supply P s = Some w \<and>
    unat w = mdb_sum (\<lambda>a i. if a = genesis_account P then 0 else unat (info_balance i)) (infos (view s)) +
      total_pending (view s)"
proof -
  note inv = ledger_okD [OF ledger_history_inv(3) [OF assms]]
  let ?G = "genesis_account P"
  define b where "b = entry_or 0 info_balance (mdb_get (infos (view s)) ?G)"
  have "account_balance s ?G = Some b"
    using inv(1) by (simp add: account_balance_def store_simps b_def entry_or_def split: option.splits)
  then have "ledger_supply P s = Some (genesis_amount - b)" by (simp add: ledger_supply_def)
  moreover have "total_balance (view s) =
      mdb_sum (\<lambda>a i. if a = ?G then 0 else unat (info_balance i)) (infos (view s)) + unat b"
    using mdb_sum_except [of "\<lambda>a i. unat (info_balance i)" "infos (view s)" ?G]
    by (cases "mdb_get (infos (view s)) ?G") (simp_all add: total_balance_def b_def)
  moreover have "unat (genesis_amount - b) = unat genesis_amount - unat b"
    using genesis_amount_max [of b] by (intro unat_diff_le) (simp add: word_le_nat_alt)
  moreover have "total_balance (view s) + total_pending (view s) = unat genesis_amount"
    using inv(7) by (simp add: totals_ok_def)
  ultimately show ?thesis by simp
qed

theorem supply_is_circulating_witness:
  "\<exists>s w. ledger_history sample_platform 0 [(1, sample_send)] = Some s \<and>
     ledger_supply sample_platform s = Some w \<and> unat w = 2 ^ 128 - 2"
proof -
  obtain s where s: "ledger_history sample_platform 0 [(1, sample_send)] = Some s"
    "history_ok sample_platform [(1, sample_send)]" "view s = sample_sent"
    by (rule sample_sent_history)
  have "mdb_sum (\<lambda>a i. if a = genesis_account sample_platform then 0 else unat (info_balance i))
      (infos (view s)) + total_pending (view s) = 2 ^ 128 - 2"
    by (simp add: s(3) sample_sent_def sample_defs mdb_single total_pending_def genesis_amount_def
        tbl.put_put)
  then show ?thesis using supply_is_circulating [OF s(2,1)] s(1) by auto
qed

section \<open>What the checks of a block miss\<close>

text \<open>
  A block that names the representative zero can pass every check that \<open>ledger::process\<close>
  makes and then trips the assertion of \<open>move_representation\<close>: nothing on the way from
  the network tests it.
\<close>

theorem zero_representative_aborts:
  assumes "history_ok P es" and "ledger_history P t0 es = Some s" and "hash_ok P b"
    and "process_code P (view s) b = progress" and "is_Open b \<or> (\<exists>x. b = Change x)"
    and "representative b = 0"
  shows "process P now s b = None"
  using process_accepts [OF ledger_history_inv(3) [OF assms(1,2)] assms(3,4), of now] assms(5,6)
  by (cases b) (auto simp: movable_def)

theorem zero_representative_aborts_witness:
  "\<exists>s. ledger_history sample_platform 0 [] = Some s \<and>
     process_code sample_platform (view s) sample_mute = progress \<and>
     process sample_platform 1 s sample_mute = None"
proof -
  obtain s where s: "ledger_history sample_platform 0 [] = Some s"
    "history_ok sample_platform []" "view s = genesis_view sample_platform 0"
    by (rule sample_genesis_history)
  have "process_code sample_platform (view s) sample_mute = progress"
    by (simp add: s(3) sample_defs)
  then show ?thesis
    using zero_representative_aborts [OF s(2,1) sample_history_ok(5), of 1] s(1) by simp
qed

text \<open>
  C22. A change block moves the weight of the account's balance only, not of what it has sent
  and is still pending; the open block that takes up such a send then asks the new
  representative for weight it never got, and the assertion that the weight covers the
  amount fails. The three blocks of the sample do this.
\<close>

theorem change_strands_pending_weight:
  "\<exists>s. ledger_history sample_platform 0 [(1, sample_send), (2, sample_change)] = Some s \<and>
     process_code sample_platform (view s) sample_open = progress \<and>
     representative sample_open \<noteq> 0 \<and> process sample_platform 3 s sample_open = None"
proof -
  obtain s where s: "ledger_history sample_platform 0 [(1, sample_send), (2, sample_change)] = Some s"
    "history_ok sample_platform [(1, sample_send), (2, sample_change)]" "view s = sample_changed"
    by (rule sample_changed_history)
  have "process_code sample_platform (view s) sample_open = progress"
    by (simp add: s(3) sample_changed_def sample_sent_def sample_defs)
  moreover have "\<not> movable (view s) sample_open"
    by (simp add: s(3) sample_changed_def sample_sent_def sample_defs move_weight_def genesis_amount_def
        word_le_def)
  ultimately show ?thesis
    using process_accepts [OF ledger_history_inv(3) [OF s(2,1)] sample_history_ok(4), of 3] s(1) by simp
qed

text \<open>
  An open block for the account zero is accepted when its signature validates, and from
  then on \<open>ledger::account\<close> of that block does not return: the visitor takes a zero account
  for a result it has not found yet.
\<close>

theorem account_zero_walk_diverges:
  "\<exists>s. ledger_history sample_platform 0 [(1, sample_burn), (2, sample_ash)] = Some s \<and>
     block_get s 0x60 = Some (Some sample_ash) \<and> ledger_account s 0x60 = None"
proof -
  obtain s where s: "ledger_history sample_platform 0 [(1, sample_burn), (2, sample_ash)] = Some s"
    "history_ok sample_platform [(1, sample_burn), (2, sample_ash)]"
    "blocks (view s) 0x60 = Some sample_ash"
    by (rule sample_burnt_history)
  have ok: "store_ok s" by (rule ledger_history_inv(1) [OF s(2,1)])
  have "account_is (blocks (view s)) 0x60 0" using acc_open [of _ _ sample_ash_block] s(3) by fastforce
  then show ?thesis using account_walk_zero [OF ok] s(1,3) ok by (auto simp: store_simps)
qed

end
