(* ===== verification/Ledger_Rollback.thy ===== *)
theory Ledger_Rollback
  imports Sample
begin

text \<open>
  Rolling back the last block of an account. For a send and a change block
  \<open>ledger::rollback\<close> restores what the ledger was before; for a receive block it leaves the
  account with the sender's representative instead of its own.
\<close>

section \<open>The loop\<close>

lemma rollback_head:
  assumes "ledger_account s h = Some a" and "account_get s a = Some (Some i)" and "info_head i = h"
    and "block_get s h = Some (Some b)"
  shows "rollback P now s h = rollback_compute (Rollback_block b) P now s"
  using assms unfolding rollback_def
  by (simp add: rollback_compute.simps [of "Rollback h"] rollback_compute.simps [of "Rollback_to a h"])

text \<open>The facts about the store after a block was accepted that the handlers rely on.\<close>

definition appended :: "platform \<Rightarrow> uint64 \<Rightarrow> block_store \<Rightarrow> block \<Rightarrow> account \<Rightarrow> block_store \<Rightarrow> bool" where
  "appended P now s b a s' \<longleftrightarrow>
     ledger_ok P s \<and> chains_ok (view s) \<and> ledger_ok P s' \<and> ledger_step P now (view s) b a (view s')"

lemma process_appended:
  assumes "history_ok P es" and "ledger_history P t0 es = Some s" and "hash_ok P b"
    and "process P now s b = accepted a s'"
  shows "appended P now s b a s'" and "stored s' = link (stored s) (block_hash P b) b"
proof -
  have ok: "ledger_ok P s" by (rule ledger_history_inv(3) [OF assms(1,2)])
  have code: "process_code P (view s) b = progress"
    using process_rejects [OF ok, of b now] assms(4) by (auto simp: rejected_def accepted_def)
  then have "accepts P now s b (accepted a s')"
    using process_accepts [OF ok assms(3) code, of now] assms(4) by (auto simp: accepted_def split: if_splits)
  then obtain a2 s2 where "accepted a s' = accepted a2 s2" "ledger_ok P s2"
    "ledger_step P now (view s) b a2 (view s2)" "stored s2 = link (stored s) (block_hash P b) b"
    by (rule accepts_ledger_ok [OF ok assms(3)])
  then show "appended P now s b a s'" "stored s' = link (stored s) (block_hash P b) b"
    using ok ledger_history_inv(5) [OF assms(1,2)] by (simp_all add: appended_def accepted_def)
qed

lemma appended_facts:
  assumes "appended P now s b a s'"
  obtains i where "mdb_get (infos (view s')) a = Some i" and "info_head i = block_hash P b"
    and "blocks (view s') = (blocks (view s))(block_hash P b \<mapsto> b)"
    and "heads (view s') = mdb_put (mdb_remove (heads (view s)) (previous b)) (block_hash P b) a"
    and "blocks (view s) (block_hash P b) = None"
    and "mdb_get (heads (view s)) (block_hash P b) = None"
    and "account_is (blocks (view s')) (block_hash P b) a"
    and "blocks (view s) \<subseteq>\<^sub>m blocks (view s')"
    and "store_ok s" "store_ok s'" "chain_ok P (blocks (view s'))"
proof -
  have ok: "ledger_ok P s" "ledger_ok P s'" and step: "ledger_step P now (view s) b a (view s')"
    using assms by (simp_all add: appended_def)
  note inv = ledger_okD [OF ok(1)] and inv' = ledger_okD [OF ok(2)]
  note v' = step_view [OF step]
  have new: "blocks (view s) (block_hash P b) = None" by (rule step_stored_previous(1) [OF ok(1) step])
  have "mdb_get (heads (view s')) (block_hash P b) = Some a" by (simp add: v'(2))
  then obtain i where i: "mdb_get (infos (view s')) a = Some i" "info_head i = block_hash P b"
    by (rule heads_info [OF inv'(5)])
  have "mdb_get (heads (view s)) (block_hash P b) = None"
  proof (rule ccontr)
    assume "mdb_get (heads (view s)) (block_hash P b) \<noteq> None"
    then obtain c j where "mdb_get (infos (view s)) c = Some j" "info_head j = block_hash P b"
      using heads_info [OF inv(5)] by (metis not_None_eq)
    then show False using heads_okD(5) [OF inv(5)] new by metis
  qed
  moreover have "account_is (blocks (view s')) (block_hash P b) a"
    using heads_okD(3) [OF inv'(5) i(1)] i(2) by simp
  moreover have "blocks (view s) \<subseteq>\<^sub>m blocks (view s')" unfolding v'(1) using new by (rule map_le_new)
  ultimately show ?thesis using that i v' new inv(1) inv'(1,3) by blast
qed

lemma appended_rollback:
  assumes app: "appended P now s b a s'" and "a \<noteq> 0"
  shows "rollback P t s' (block_hash P b) = rollback_compute (Rollback_block b) P t s'"
proof -
  obtain i where i: "mdb_get (infos (view s')) a = Some i" "info_head i = block_hash P b"
    "blocks (view s') = (blocks (view s))(block_hash P b \<mapsto> b)"
    "account_is (blocks (view s')) (block_hash P b) a" "store_ok s'"
    by (rule appended_facts [OF app]) blast
  show ?thesis
    by (rule rollback_head [OF ledger_account_correct [OF i(5,4) assms(2)], of i])
      (simp_all add: store_simps i)
qed

lemma heads_back:
  "mdb_get d p = Some a \<Longrightarrow> mdb_get d h = None \<Longrightarrow>
   mdb_put (mdb_remove (mdb_put (mdb_remove d p) h a) h) p a = d"
  by (rule tbl.ext) auto

lemma info_modified_eq:
  "info_head i = p \<Longrightarrow> i\<lparr>info_modified := t\<rparr> = \<lparr>info_head = p, info_rep_block = info_rep_block i,
     info_balance = info_balance i, info_modified = t\<rparr>"
  by (cases i) simp

lemma weight_back:
  "weight_of (move_weight dst src n (move_weight src dst n w)) r = weight_of w r"
  by (simp add: weight_of_move)

text \<open>The common part of the handlers: the account's entry goes back, the block is deleted.\<close>

lemma unlink_view:
  assumes "store_ok s" and "check (view s) = Some c" and "p \<noteq> 0" and "blocks (view s) h \<noteq> None"
  obtains s1 s2 where "change_latest t s a p r w = Some s1" and "block_del s1 h = Some s2" and "store_ok s2"
    and "view s2 = (set_latest t a p r w (view s))\<lparr>blocks := (blocks (view s))(h := None)\<rparr>"
proof -
  obtain s1 where s1: "change_latest t s a p r w = Some s1" "store_ok s1"
    "view s1 = set_latest t a p r w (view s)"
    by (rule change_latest_view [OF assms(1-3)]) blast
  then have "blocks (view s1) h \<noteq> None" using assms(4) by (simp add: set_latest_def)
  then obtain s2 where "block_del s1 h = Some s2" "store_ok s2"
    "view s2 = (view s1)\<lparr>blocks := (blocks (view s1))(h := None)\<rparr>"
    by (rule block_del_view [OF s1(2)]) blast
  then show ?thesis using that s1 by (simp add: set_latest_def)
qed

text \<open>What the account's chain was before a block that is not an open block.\<close>

lemma appended_before:
  assumes app: "appended P now s b a s'" and "\<not> is_Open b"
  obtains i where "mdb_get (infos (view s)) a = Some i" and "info_head i = previous b"
    and "mdb_get (heads (view s)) (previous b) = Some a" and "previous b \<noteq> 0"
    and "balance_is (genesis_account P) (blocks (view s')) (previous b) (info_balance i)"
    and "account_is (blocks (view s')) (previous b) a"
    and "rep_is (blocks (view s')) (previous b) (info_rep_block i)"
proof -
  have step: "ledger_step P now (view s) b a (view s')" and ok: "ledger_ok P s"
    using app by (simp_all add: appended_def)
  note inv = ledger_okD [OF ok]
  obtain k where k: "blocks (view s) \<subseteq>\<^sub>m blocks (view s')" "mdb_get (infos (view s')) a = Some k"
    by (rule appended_facts [OF app]) blast
  have head: "mdb_get (heads (view s)) (previous b) = Some a"
    using step_stored_previous(2) [OF ok step] assms(2) by simp
  then obtain i where i: "mdb_get (infos (view s)) a = Some i" "info_head i = previous b"
    by (rule heads_info [OF inv(5)])
  note old = heads_okD [OF inv(5) i(1), unfolded i(2)]
  have "previous b \<noteq> 0" using chain_okD(2) [OF inv(3)] old(5) by auto
  then show ?thesis
    using that [OF i head] chain_mono(1) [OF old(2) k(1)] chain_mono(3) [OF old(3) k(1)]
      chain_mono(4) [OF old(4) k(1)] by blast
qed

section \<open>A send block\<close>

lemma rollback_send_view:
  assumes app: "appended P now s (Send x) a s'"
  obtains i s'' where "mdb_get (infos (view s)) a = Some i"
    and "rollback P t s' (block_hash P (Send x)) = Some s''"
    and "view s'' = (view s)\<lparr>infos := mdb_put (infos (view s)) a (i\<lparr>info_modified := t\<rparr>)\<rparr>"
    and "store_ok s''"
proof -
  let ?h = "block_hash P (Send x)" and ?p = "send_previous (send_hashables x)"
  have step: "ledger_step P now (view s) (Send x) a (view s')" and ok: "ledger_ok P s"
    using app by (simp_all add: appended_def)
  note inv = ledger_okD [OF ok]
  obtain i where i: "mdb_get (infos (view s)) a = Some i" "info_head i = ?p"
    "mdb_get (heads (view s)) ?p = Some a" "?p \<noteq> 0"
    "balance_is (genesis_account P) (blocks (view s')) ?p (info_balance i)"
    by (rule appended_before [OF app]) auto
  obtain k where k: "blocks (view s') = (blocks (view s))(?h \<mapsto> Send x)"
    "mdb_get (heads (view s)) ?h = None" "store_ok s'" "blocks (view s) ?h = None"
    "mdb_get (infos (view s')) a = Some k" "chain_ok P (blocks (view s'))"
    by (rule appended_facts [OF app]) blast
  have a: "a \<noteq> 0" and v': "view s' =
      (extend P now (Send x) a (info_rep_block i) (send_balance (send_hashables x)) (view s))
       \<lparr>receivables := mdb_put (receivables (view s)) ?h
          \<lparr>rcv_source = a, rcv_amount = info_balance i - send_balance (send_hashables x),
           rcv_destination = send_destination (send_hashables x)\<rparr>\<rparr>"
    using step i(1) by (cases, auto)+
  have pend: "mdb_get (receivables (view s)) ?h = None" by (rule pending_stored [OF inv(6) k(4)])
  obtain c where check: "check (view s) = Some c" using inv(8) by (simp add: check_ok_def)
  define s1 where "s1 = s'\<lparr>pending := mdb_remove (pending s') ?h\<rparr>"
  have s1: "store_ok s1" "view s1 = (view s')\<lparr>receivables := receivables (view s)\<rparr>"
    using k(3) pend by (simp_all add: s1_def store_simps v' tbl.remove_put)
  have bal: "ledger_balance P s1 ?p = Some (info_balance i)"
    using i(5) k(6) s1 by (intro ledger_balance_correct chain_ok_walkable) simp_all
  have "check (view s1) = Some (c XOR ?p XOR ?h)" "blocks (view s1) ?h \<noteq> None"
    using check i(1,2) by (simp_all add: s1 v' extend_def set_latest_def)
  then obtain s2 s3 where s3: "change_latest t s1 a ?p (info_rep_block i) (info_balance i) = Some s2"
    "block_del s2 ?h = Some s3" "store_ok s3"
    "view s3 = (set_latest t a ?p (info_rep_block i) (info_balance i) (view s1))
       \<lparr>blocks := (blocks (view s1))(?h := None)\<rparr>"
    by (rule unlink_view [OF s1(1) _ i(4)]) blast
  define s4 where "s4 = frontier_put (s3\<lparr>frontiers := mdb_remove (frontiers s3) ?h\<rparr>) ?p a"
  have "rollback P t s' ?h = Some s4"
    unfolding appended_rollback [OF app a] using k(3) s3(1,2) bal
    by (simp add: rollback_compute.simps store_simps v' rollback_send_def Let_def
        info_or_default_def extend_def set_latest_def s1_def [symmetric] s4_def s3(4) s1(2))
  moreover have "view s4 = (view s)\<lparr>infos := mdb_put (infos (view s)) a (i\<lparr>info_modified := t\<rparr>)\<rparr>"
    using check i(1,2) k(4)
    by (intro ledger_view.equality)
      (simp_all add: s4_def store_simps s3(4) s1(2) v' extend_def set_latest_def i(3)
        heads_back k(2) tbl.put_put xor.assoc xor.left_commute fun_upd_idem
        info_modified_eq [OF i(2)])
  moreover have "store_ok s4" using s3(3) by (simp add: s4_def store_simps)
  ultimately show ?thesis using that i(1) by blast
qed

text \<open>The time of the last change plays no part in the invariant.\<close>

lemma modified_inv:
  assumes "ledger_inv P v" and i: "mdb_get (infos v) a = Some i"
  shows "ledger_inv P (v\<lparr>infos := mdb_put (infos v) a (i\<lparr>info_modified := t\<rparr>)\<rparr>)" (is "ledger_inv P ?v")
proof -
  have inv: "chain_ok P (blocks v)" "no_fork (blocks v)" "heads_ok P v" "pending_ok P v" "totals_ok v"
    "check_ok v" "signed_ok P (blocks v)" "walks_ok P (blocks v)"
    using assms(1) by (simp_all add: ledger_inv_def)
  have "heads_ok P ?v"
  proof -
    have "\<exists>j. mdb_get (infos ?v) b = Some j \<and> info_head j = h" if hd: "mdb_get (heads v) h = Some b" for h b
    proof -
      obtain j where "mdb_get (infos v) b = Some j" "info_head j = h" using heads_info [OF inv(3) hd] .
      then show ?thesis using i by auto
    qed
    then show ?thesis
      using inv(3) i unfolding heads_ok_def by (auto split: if_splits)
  qed
  moreover have "pending_ok P ?v"
    using inv(4) i unfolding pending_ok_def by (auto split: if_splits)
  moreover have "totals_ok ?v"
    using inv(5) i mdb_sum_put [of "\<lambda>a i. unat (info_balance i)" "infos v" a "i\<lparr>info_modified := t\<rparr>"]
    by (simp add: totals_ok_def total_balance_def total_pending_def total_weight_def)
  moreover have "check_ok ?v"
    using inv(6) i by (simp add: check_ok_def mdb_xor_put)
  ultimately show ?thesis using inv by (simp add: ledger_inv_def)
qed

section \<open>A change block\<close>

lemma rollback_change_view:
  assumes app: "appended P now s (Change x) a s'"
  obtains i s'' where "mdb_get (infos (view s)) a = Some i"
    and "rollback P t s' (block_hash P (Change x)) = Some s''"
    and "view s'' = (view s)\<lparr>infos := mdb_put (infos (view s)) a (i\<lparr>info_modified := t\<rparr>),
      weights := weights (view s'')\<rparr>"
    and "\<forall>r. weight_of (weights (view s'')) r = weight_of (weights (view s)) r"
proof -
  let ?h = "block_hash P (Change x)" and ?p = "change_previous (change_hashables x)"
  let ?new = "change_representative (change_hashables x)"
  have step: "ledger_step P now (view s) (Change x) a (view s')" and ok: "ledger_ok P s"
    using app by (simp_all add: appended_def)
  note inv = ledger_okD [OF ok]
  obtain i where i: "mdb_get (infos (view s)) a = Some i" "info_head i = ?p"
    "mdb_get (heads (view s)) ?p = Some a" "?p \<noteq> 0"
    "balance_is (genesis_account P) (blocks (view s')) ?p (info_balance i)"
    "account_is (blocks (view s')) ?p a" "rep_is (blocks (view s')) ?p (info_rep_block i)"
    by (rule appended_before [OF app]) auto
  obtain k where k: "blocks (view s') = (blocks (view s))(?h \<mapsto> Change x)"
    "mdb_get (heads (view s)) ?h = None" "store_ok s'" "blocks (view s) ?h = None"
    "mdb_get (infos (view s')) a = Some k" "chain_ok P (blocks (view s'))"
    by (rule appended_facts [OF app]) blast
  define old where "old = rep_account (blocks (view s)) (info_rep_block i)"
  have a: "a \<noteq> 0" and new: "?new \<noteq> 0" and cover: "info_balance i \<le> weight_of (weights (view s)) old"
    and v': "view s' = (extend P now (Change x) a ?h (info_balance i) (view s))
       \<lparr>weights := move_weight old ?new (info_balance i) (weights (view s))\<rparr>"
    using step i(1) by (cases, auto simp: old_def)+
  obtain rb where rb: "blocks (view s) (info_rep_block i) = Some rb"
    using info_rep_named(1) [OF inv(2) i(1)] by blast
  have oldrb: "old = representative rb" "old \<noteq> 0"
    using info_rep_named(2) [OF inv(2) i(1)] rb by (simp_all add: old_def rep_account_def)
  have rb': "blocks (view s') (info_rep_block i) = Some rb" using rb k(1,4) by auto
  have wsum: "mdb_sum (\<lambda>a w. unat w) (weights (view s)) = unat genesis_amount"
    using inv(7) by (simp add: totals_ok_def total_weight_def)
  have cover': "info_balance i \<le> weight_of (weights (view s')) ?new"
    using move_weight_covers [OF wsum cover] by (simp add: v')
  obtain s1 where s1: "move_representation s' ?h (info_rep_block i) (info_balance i) = Some s1" "store_ok s1"
    "view s1 = (view s')\<lparr>weights := move_weight ?new old (info_balance i) (weights (view s'))\<rparr>"
    by (rule move_representation_view [OF k(3) _ rb', of ?h "Change x" "info_balance i"])
      (use k(1) new oldrb cover' in simp_all)
  have "blocks (view s1) ?h \<noteq> None" using k(1) by (simp add: s1)
  then obtain s2 where s2: "block_del s1 ?h = Some s2" "store_ok s2"
    "view s2 = (view s1)\<lparr>blocks := (blocks (view s1))(?h := None)\<rparr>"
    by (rule block_del_view [OF s1(2)]) blast
  obtain c where check: "check (view s) = Some c" using inv(8) by (simp add: check_ok_def)
  then have "check (view s2) = Some (c XOR ?p XOR ?h)"
    using i(1,2) by (simp add: s2 s1 v' extend_def set_latest_def)
  then obtain s3 where s3: "change_latest t s2 a ?p (info_rep_block i) (info_balance i) = Some s3"
    "store_ok s3" "view s3 = set_latest t a ?p (info_rep_block i) (info_balance i) (view s2)"
    by (rule change_latest_view [OF s2(2) _ i(4)]) blast
  define s4 where "s4 = frontier_put (s3\<lparr>frontiers := mdb_remove (frontiers s3) ?h\<rparr>) ?p a"
  have walks: "ledger_representative P s' ?p = Some (info_rep_block i)" "ledger_account s' ?p = Some a"
    "ledger_balance P s' ?p = Some (info_balance i)"
    using ledger_representative_correct [OF k(3,6) i(7)] ledger_account_correct [OF k(3) i(6) a]
      ledger_balance_correct [OF chain_ok_walkable [OF k(3,6)] i(5)] by simp_all
  have info: "account_get s' a = Some (Some k)" and "info_balance k = info_balance i"
    using k(3,5) by (auto simp: store_simps v' extend_def set_latest_def)
  then have "rollback P t s' ?h = Some s4"
    unfolding appended_rollback [OF app a] using walks s1(1) s2(1) s3(1)
    by (simp add: rollback_compute.simps rollback_change_def Let_def info_or_default_def)
      (simp add: store_simps v' extend_def set_latest_def s4_def s3(3) s2(3) s1(3))
  moreover have "view s4 = (view s)\<lparr>infos := mdb_put (infos (view s)) a (i\<lparr>info_modified := t\<rparr>),
      weights := weights (view s4)\<rparr>"
    using check i(1,2) k(4)
    by (intro ledger_view.equality)
      (simp_all add: s4_def store_simps s3(3) s2(3) s1(3) v' extend_def set_latest_def i(3)
        heads_back k(2) tbl.put_put xor.assoc xor.left_commute fun_upd_idem
        info_modified_eq [OF i(2)])
  moreover have "\<forall>r. weight_of (weights (view s4)) r = weight_of (weights (view s)) r"
    by (simp add: s4_def store_simps s3(3) s2(3) s1(3) v' set_latest_def weight_back)
  ultimately show ?thesis using that i(1) by blast
qed

section \<open>Blocks that take up a send\<close>

lemma taken_source:
  assumes app: "appended P now s b a s'"
    and r: "mdb_get (receivables (view s)) src = Some r"
  obtains R rb where "rep_is (blocks (view s)) src R" and "blocks (view s') R = Some rb"
    and "representative rb \<noteq> 0" and "rep_account (blocks (view s)) R = representative rb"
    and "ledger_representative P s src = Some R" and "ledger_representative P s' src = Some R"
    and "ledger_amount P s' src = Some (rcv_amount r)"
    and "\<And>t. store_ok t \<Longrightarrow> blocks (view t) = blocks (view s) \<Longrightarrow> ledger_account t src = Some (rcv_source r)"
proof -
  have ok: "ledger_ok P s" and chains: "chains_ok (view s)" using app by (simp_all add: appended_def)
  note inv = ledger_okD [OF ok]
  obtain k where k: "blocks (view s) \<subseteq>\<^sub>m blocks (view s')" "store_ok s'" "chain_ok P (blocks (view s'))"
    "mdb_get (infos (view s')) a = Some k"
    by (rule appended_facts [OF app]) blast
  have amt: "amount_is (genesis_account P) (blocks (view s)) src (rcv_amount r)"
    and acc: "account_is (blocks (view s)) src (rcv_source r)"
    using inv(6) r unfolding pending_ok_def by blast+
  have nz: "rcv_source r \<noteq> 0" using chains r unfolding chains_ok_def by blast
  obtain R where R: "rep_is (blocks (view s)) src R"
    using inv(10) chain_stored(2) [OF acc] unfolding walks_ok_def by blast
  obtain rb where rb: "blocks (view s) R = Some rb" "representative rb \<noteq> 0"
    "rep_account (blocks (view s)) R = representative rb"
    by (rule rep_is_nonzero [OF inv(3) R])
  show ?thesis
  proof (rule that [OF R map_le_Some [OF k(1) rb(1)] rb(2,3)])
    show "ledger_representative P s src = Some R" by (rule ledger_representative_correct [OF inv(1,3) R])
    show "ledger_representative P s' src = Some R"
      by (rule ledger_representative_correct [OF k(2,3) chain_mono(4) [OF R k(1)]])
    show "ledger_amount P s' src = Some (rcv_amount r)"
      by (rule ledger_amount_correct [OF chain_ok_walkable [OF k(2,3)] chain_mono(2) [OF amt k(1)]])
    show "ledger_account t src = Some (rcv_source r)"
      if "store_ok t" "blocks (view t) = blocks (view s)" for t
      using ledger_account_correct [OF that(1), of src] acc nz that(2) by simp
  qed
qed

lemma receivable_eq:
  "rcv_destination r = a \<Longrightarrow>
   \<lparr>rcv_source = rcv_source r, rcv_amount = rcv_amount r, rcv_destination = a\<rparr> = r"
  by (cases r) simp

lemma rollback_receive_view:
  assumes app: "appended P now s (Receive x) a s'" and a: "a \<noteq> 0"
  obtains i s'' R where "mdb_get (infos (view s)) a = Some i"
    and "ledger_representative P s (receive_source (receive_hashables x)) = Some R"
    and "rollback P t s' (block_hash P (Receive x)) = Some s''" and "store_ok s''"
    and "view s'' = (view s)\<lparr>infos := mdb_put (infos (view s)) a
        (i\<lparr>info_rep_block := R, info_modified := t\<rparr>), weights := weights (view s'')\<rparr>"
proof -
  let ?h = "block_hash P (Receive x)" and ?p = "receive_previous (receive_hashables x)"
  let ?src = "receive_source (receive_hashables x)"
  have step: "ledger_step P now (view s) (Receive x) a (view s')" and ok: "ledger_ok P s"
    using app by (simp_all add: appended_def)
  note inv = ledger_okD [OF ok]
  obtain i where i: "mdb_get (infos (view s)) a = Some i" "info_head i = ?p"
    "mdb_get (heads (view s)) ?p = Some a" "?p \<noteq> 0"
    "balance_is (genesis_account P) (blocks (view s')) ?p (info_balance i)"
    "rep_is (blocks (view s')) ?p (info_rep_block i)"
    by (rule appended_before [OF app]) auto
  obtain k where k: "blocks (view s') = (blocks (view s))(?h \<mapsto> Receive x)"
    "mdb_get (heads (view s)) ?h = None" "store_ok s'" "blocks (view s) ?h = None"
    "mdb_get (infos (view s')) a = Some k" "chain_ok P (blocks (view s'))"
    "account_is (blocks (view s')) ?h a"
    by (rule appended_facts [OF app]) blast
  define own where "own = rep_account (blocks (view s)) (info_rep_block i)"
  obtain r sr where r: "mdb_get (receivables (view s)) ?src = Some r" "rcv_destination r = a"
    "rcv_amount r \<le> weight_of (weights (view s)) sr"
    and v': "view s' = (extend P now (Receive x) a (info_rep_block i) (info_balance i + rcv_amount r) (view s))
       \<lparr>receivables := mdb_remove (receivables (view s)) ?src,
        weights := move_weight sr own (rcv_amount r) (weights (view s))\<rparr>"
    using step i(1) by cases (auto simp: own_def)
  obtain R rb where R: "blocks (view s') R = Some rb" "representative rb \<noteq> 0"
    "ledger_representative P s ?src = Some R" "ledger_representative P s' ?src = Some R"
    "ledger_amount P s' ?src = Some (rcv_amount r)"
    "\<And>t. store_ok t \<Longrightarrow> blocks (view t) = blocks (view s) \<Longrightarrow> ledger_account t ?src = Some (rcv_source r)"
    by (rule taken_source [OF app r(1)]) blast
  obtain ob where ob: "blocks (view s) (info_rep_block i) = Some ob" "own = representative ob" "own \<noteq> 0"
    using info_rep_named [OF inv(2) i(1)] by (auto simp: own_def rep_account_def)
  have ob': "blocks (view s') (info_rep_block i) = Some ob" using ob(1) k(1,4) by auto
  have wsum: "mdb_sum (\<lambda>a w. unat w) (weights (view s)) = unat genesis_amount"
    using inv(7) by (simp add: totals_ok_def total_weight_def)
  have cover: "rcv_amount r \<le> weight_of (weights (view s')) (representative ob)"
    using move_weight_covers [OF wsum r(3), of own] ob(2) by (simp add: v')
  obtain s1 where s1: "move_representation s' (info_rep_block i) R (rcv_amount r) = Some s1" "store_ok s1"
    "view s1 = (view s')\<lparr>weights := move_weight (representative ob) (representative rb) (rcv_amount r) (weights (view s'))\<rparr>"
    by (rule move_representation_view [OF k(3) ob' R(1) _ R(2) cover]) (use ob in simp_all)
  have bal: "ledger_balance P s1 ?p = Some (info_balance i)"
    using i(5) k(6) s1(2,3) by (intro ledger_balance_correct chain_ok_walkable) simp_all
  obtain c where check: "check (view s) = Some c" using inv(8) by (simp add: check_ok_def)
  have "check (view s1) = Some (c XOR ?p XOR ?h)" "blocks (view s1) ?h \<noteq> None"
    using check i(1,2) by (simp_all add: s1 v' extend_def set_latest_def)
  then obtain s2 s3 where s3: "change_latest t s1 a ?p R (info_balance i) = Some s2"
    "block_del s2 ?h = Some s3" "store_ok s3"
    "view s3 = (set_latest t a ?p R (info_balance i) (view s1))
       \<lparr>blocks := (blocks (view s1))(?h := None)\<rparr>"
    by (rule unlink_view [OF s1(2) _ i(4)]) blast
  have acc: "ledger_account s3 ?src = Some (rcv_source r)"
    using s3(3,4) k(1,4) by (intro R(6)) (simp_all add: s1(3) fun_upd_idem)
  define s4 where "s4 = pending_put s3 ?src r"
  define s5 where "s5 = frontier_put (s4\<lparr>frontiers := mdb_remove (frontiers s4) ?h\<rparr>) ?p a"
  have walks: "ledger_account s' ?h = Some a" "ledger_representative P s' ?h = Some (info_rep_block i)"
    using ledger_account_correct [OF k(3,7) a] ledger_representative_correct [OF k(3,6)]
      rep_receive [of "blocks (view s')" ?h x] i(6) k(1) by simp_all
  have "rollback P t s' ?h = Some s5"
    unfolding appended_rollback [OF app a] using walks R(4,5) s1(1) bal s3(1,2) acc
    by (simp add: rollback_compute.simps rollback_receive_def Let_def receivable_eq [OF r(2)] s4_def [symmetric])
      (simp add: store_simps v' extend_def set_latest_def s5_def s4_def s3(4) s1(3))
  moreover have "i\<lparr>info_rep_block := R, info_modified := t\<rparr> =
      \<lparr>info_head = ?p, info_rep_block = R, info_balance = info_balance i, info_modified = t\<rparr>"
    using i(2) by (cases i) simp
  moreover have "view s5 = (view s)\<lparr>infos := mdb_put (infos (view s)) a
      \<lparr>info_head = ?p, info_rep_block = R, info_balance = info_balance i, info_modified = t\<rparr>,
      weights := weights (view s5)\<rparr>"
    using check i(1,2) k(4) r(1)
    by (intro ledger_view.equality)
      (simp_all add: s5_def s4_def store_simps s3(4) s1(3) v' extend_def set_latest_def i(3)
        heads_back k(2) tbl.put_put tbl.put_remove xor.assoc xor.left_commute fun_upd_idem)
  moreover have "store_ok s5" using s3(3) by (simp add: s5_def s4_def store_simps)
  ultimately show ?thesis using that i(1) R(3) by simp
qed

lemma change_latest_zero_view:
  assumes "store_ok s" and "check (view s) = Some c" and "mdb_get (infos (view s)) a = Some i"
  obtains s' where "change_latest now s a 0 r w = Some s'" and "store_ok s'"
    and "view s' = (view s)\<lparr>infos := mdb_remove (infos (view s)) a, check := Some (c XOR info_head i)\<rparr>"
proof -
  obtain t where t: "checksum_update s (info_head i) = Some t" "store_ok t"
    "view t = (view s)\<lparr>check := Some (c XOR info_head i)\<rparr>"
    by (rule checksum_update_view [OF assms(1,2)]) blast
  show ?thesis
    using that [of "t\<lparr>accounts := mdb_remove (accounts t) a\<rparr>"] t assms(1,3)
    by (simp add: change_latest_def store_simps uint256_is_zero_eq)
qed

lemma rollback_open_view:
  assumes app: "appended P now s (Open x) a s'" and a: "a \<noteq> 0"
  obtains s'' j r R where "rollback P t s' (block_hash P (Open x)) = Some s''"
    and "view s'' = (view s)\<lparr>weights := weights (view s'')\<rparr>"
    and "mdb_get (receivables (view s)) (open_source (open_hashables x)) = Some r"
    and "mdb_get (infos (view s)) (rcv_source r) = Some j"
    and "ledger_representative P s (open_source (open_hashables x)) = Some R"
    and "rep_account (blocks (view s)) R = rep_account (blocks (view s)) (info_rep_block j) \<longrightarrow>
      (\<forall>q. weight_of (weights (view s'')) q = weight_of (weights (view s)) q)"
proof -
  let ?h = "block_hash P (Open x)" and ?src = "open_source (open_hashables x)"
  let ?own = "open_representative (open_hashables x)"
  have step: "ledger_step P now (view s) (Open x) a (view s')" and ok: "ledger_ok P s"
    using app by (simp_all add: appended_def)
  note inv = ledger_okD [OF ok]
  obtain k where k: "blocks (view s') = (blocks (view s))(?h \<mapsto> Open x)"
    "mdb_get (heads (view s)) ?h = None" "store_ok s'" "blocks (view s) ?h = None"
    "mdb_get (infos (view s')) a = Some k" "chain_ok P (blocks (view s'))"
    "account_is (blocks (view s')) ?h a" "info_head k = ?h"
    by (rule appended_facts [OF app]) blast
  obtain r j where r: "mdb_get (receivables (view s)) ?src = Some r" "rcv_destination r = a"
    "mdb_get (infos (view s)) a = None" "?own \<noteq> 0" "mdb_get (infos (view s)) (rcv_source r) = Some j"
    "rcv_amount r \<le> weight_of (weights (view s)) (rep_account (blocks (view s)) (info_rep_block j))"
    and v': "view s' = (extend P now (Open x) a ?h (rcv_amount r) (view s))
       \<lparr>receivables := mdb_remove (receivables (view s)) ?src,
        weights := move_weight (rep_account (blocks (view s)) (info_rep_block j)) ?own
          (rcv_amount r) (weights (view s))\<rparr>"
    using step
  proof cases
    case (step_open r j)
    from step_open(7) have "mdb_get (infos (view s)) a = None" by (simp only: step_open(1))
    from that [OF step_open(4) step_open(1) [symmetric] this step_open(8-10)] show ?thesis
      by (simp only: step_open(1,2))
  qed
  obtain R rb where R: "blocks (view s') R = Some rb" "representative rb \<noteq> 0"
    "rep_account (blocks (view s)) R = representative rb"
    "ledger_representative P s ?src = Some R" "ledger_representative P s' ?src = Some R"
    "ledger_amount P s' ?src = Some (rcv_amount r)"
    "\<And>t. store_ok t \<Longrightarrow> blocks (view t) = blocks (view s) \<Longrightarrow> ledger_account t ?src = Some (rcv_source r)"
    by (rule taken_source [OF app r(1)]) blast
  have at: "blocks (view s') ?h = Some (Open x)" using k(1) by simp
  have wsum: "mdb_sum (\<lambda>a w. unat w) (weights (view s)) = unat genesis_amount"
    using inv(7) by (simp add: totals_ok_def total_weight_def)
  have cover: "rcv_amount r \<le> weight_of (weights (view s')) (representative (Open x))"
    using move_weight_covers [OF wsum r(6), of ?own] by (simp add: v')
  obtain s1 where s1: "move_representation s' ?h R (rcv_amount r) = Some s1" "store_ok s1"
    "view s1 = (view s')\<lparr>weights := move_weight ?own (representative rb) (rcv_amount r) (weights (view s'))\<rparr>"
    by (rule move_representation_view [OF k(3) at R(1) _ R(2) cover]) (use r(4) in simp_all)
  obtain c where check: "check (view s) = Some c" using inv(8) by (simp add: check_ok_def)
  have "check (view s1) = Some (c XOR ?h)"
    using check r(3) by (simp add: s1 v' extend_def set_latest_def)
  moreover have "mdb_get (infos (view s1)) a = Some k" using k(5) by (simp add: s1)
  ultimately obtain s2 where s2: "change_latest t s1 a 0 R 0 = Some s2" "store_ok s2"
    "view s2 = (view s1)\<lparr>infos := mdb_remove (infos (view s1)) a, check := Some ((c XOR ?h) XOR info_head k)\<rparr>"
    by (rule change_latest_zero_view [OF s1(2), where now = t and r = R and w = 0])
  have "blocks (view s2) ?h \<noteq> None" using k(1) by (simp add: s2 s1)
  then obtain s3 where s3: "block_del s2 ?h = Some s3" "store_ok s3"
    "view s3 = (view s2)\<lparr>blocks := (blocks (view s2))(?h := None)\<rparr>"
    by (rule block_del_view [OF s2(2)]) blast
  have acc: "ledger_account s3 ?src = Some (rcv_source r)"
    using s3(2,3) k(1,4) by (intro R(7)) (simp_all add: s2(3) s1(3) fun_upd_idem)
  define s4 where "s4 = pending_put s3 ?src r"
  define s5 where "s5 = s4\<lparr>frontiers := mdb_remove (frontiers s4) ?h\<rparr>"
  have walks: "ledger_account s' ?h = Some a" "ledger_representative P s' ?h = Some ?h"
    using ledger_account_correct [OF k(3,7) a]
      ledger_representative_correct [OF k(3,6) rep_open [of "blocks (view s')" ?h x, OF at]]
    by simp_all
  have undone: "rollback P t s' ?h = Some s5"
    unfolding appended_rollback [OF app a] using walks R(5,6) s1(1) s2(1) s3(1) acc
    by (simp add: rollback_compute.simps rollback_open_def Let_def receivable_eq [OF r(2)] s4_def [symmetric])
      (simp add: store_simps v' extend_def set_latest_def s5_def s4_def s3(3) s2(3) s1(3))
  have zero: "mdb_get (heads (view s)) 0 = None"
  proof (rule ccontr)
    assume "mdb_get (heads (view s)) 0 \<noteq> None"
    then obtain d q where "mdb_get (infos (view s)) d = Some q" "info_head q = 0"
      using heads_info [OF inv(5)] by (metis not_None_eq)
    then show False using heads_okD(5) [OF inv(5)] chain_okD(2) [OF inv(3)] by fastforce
  qed
  have view: "view s5 = (view s)\<lparr>weights := weights (view s5)\<rparr>"
    using check k(2,4,8) r(1,3) zero
    by (intro ledger_view.equality)
      (simp_all add: s5_def s4_def store_simps s3(3) s2(3) s1(3) v' extend_def set_latest_def
        tbl.put_remove tbl.remove_put tbl.remove_absent xor.assoc fun_upd_idem)
  have "\<forall>q. weight_of (weights (view s5)) q = weight_of (weights (view s)) q"
    if "rep_account (blocks (view s)) R = rep_account (blocks (view s)) (info_rep_block j)"
    using that R(3) by (simp add: s5_def s4_def store_simps s3(3) s2(3) s1(3) v' weight_back)
  then show ?thesis by (intro that [OF undone view r(1,5) R(4)]) blast
qed

section \<open>Theorems\<close>

text \<open>
  C25. Rolling back the send or change block an account just made restores the ledger: the
  blocks, frontiers, pending sends, checksum and the weight of every representative are what
  they were, and the account's entry differs only in the time of its last change.
\<close>

theorem rollback_undoes_send_change:
  assumes "history_ok P es" and "ledger_history P t0 es = Some s" and "hash_ok P b"
    and "process P now s b = accepted a s'" and "(\<exists>x. b = Send x) \<or> (\<exists>x. b = Change x)"
  shows "\<exists>i s''. mdb_get (infos (view s)) a = Some i \<and>
    rollback P t s' (block_hash P b) = Some s'' \<and>
    view s'' = (view s)\<lparr>infos := mdb_put (infos (view s)) a (i\<lparr>info_modified := t\<rparr>),
      weights := weights (view s'')\<rparr> \<and>
    (\<forall>r. weight_of (weights (view s'')) r = weight_of (weights (view s)) r)"
  using assms(5)
proof
  assume "\<exists>x. b = Send x"
  then obtain x where b: "b = Send x" ..
  obtain i s'' where "mdb_get (infos (view s)) a = Some i"
    "rollback P t s' (block_hash P b) = Some s''"
    "view s'' = (view s)\<lparr>infos := mdb_put (infos (view s)) a (i\<lparr>info_modified := t\<rparr>)\<rparr>"
    using rollback_send_view [OF process_appended(1) [OF assms(1-4), unfolded b]] b by blast
  then show ?thesis by (intro exI [of _ i] exI [of _ s'']) simp
next
  assume "\<exists>x. b = Change x"
  then obtain x where b: "b = Change x" ..
  show ?thesis using rollback_change_view [OF process_appended(1) [OF assms(1-4), unfolded b]] b by metis
qed

theorem rollback_undoes_send_change_witness:
  "\<exists>s s' s''. ledger_history sample_platform 0 [(1, sample_send)] = Some s \<and>
     process sample_platform 2 s sample_change = accepted paper_test_account s' \<and>
     rollback sample_platform 3 s' 0x70040 = Some s'' \<and> blocks (view s'') = blocks (view s)"
proof -
  obtain s where s: "ledger_history sample_platform 0 [(1, sample_send)] = Some s"
    "history_ok sample_platform [(1, sample_send)]" "view s = sample_sent"
    by (rule sample_sent_history)
  have "process_code sample_platform (view s) sample_change = progress" "movable (view s) sample_change"
    by (simp_all add: s(3) sample_sent_def sample_defs genesis_amount_def)
  then have "accepts sample_platform 2 s sample_change (process sample_platform 2 s sample_change)"
    using process_accepts [OF ledger_history_inv(3) [OF s(2,1)] sample_history_ok(3), of 2] by simp
  then obtain a s' where s': "process sample_platform 2 s sample_change = accepted a s'"
    "ledger_step sample_platform 2 (view s) sample_change a (view s')" unfolding accepts_def by blast
  from s'(2) have "a = paper_test_account"
    by cases (auto simp: s(3) sample_sent_def sample_defs split: if_splits)
  moreover obtain s'' i where s'': "rollback sample_platform 3 s' 0x70040 = Some s''"
    "view s'' = (view s)\<lparr>infos := i, weights := weights (view s'')\<rparr>"
    using rollback_undoes_send_change [OF s(2,1) sample_history_ok(3) s'(1), of 3]
    unfolding sample_hashes by blast
  moreover have "blocks (view s'') = blocks (view s)" by (subst s''(2)) simp
  ultimately show ?thesis using s(1) s'(1) by blast
qed

text \<open>
  C26. Rolling back an account's open block removes the account and makes the send pending
  again, with the ledger otherwise as before; the weights are restored too when the sender
  has not changed its representative since the send.
\<close>

theorem rollback_undoes_open:
  assumes "history_ok P es" and "ledger_history P t0 es = Some s" and "hash_ok P (Open x)"
    and "process P now s (Open x) = accepted a s'" and "a \<noteq> 0"
  shows "\<exists>s'' r j R. rollback P t s' (block_hash P (Open x)) = Some s'' \<and>
    view s'' = (view s)\<lparr>weights := weights (view s'')\<rparr> \<and>
    mdb_get (receivables (view s)) (open_source (open_hashables x)) = Some r \<and>
    mdb_get (infos (view s)) (rcv_source r) = Some j \<and>
    ledger_representative P s (open_source (open_hashables x)) = Some R \<and>
    (rep_account (blocks (view s)) R = rep_account (blocks (view s)) (info_rep_block j) \<longrightarrow>
      (\<forall>q. weight_of (weights (view s'')) q = weight_of (weights (view s)) q))"
  by (rule rollback_open_view [OF process_appended(1) [OF assms(1-4)] assms(5), of t])
    (intro exI conjI)

theorem rollback_undoes_open_witness:
  "\<exists>s s' s''. ledger_history sample_platform 0 [(1, sample_send)] = Some s \<and>
     process sample_platform 2 s sample_open = accepted 5 s' \<and>
     rollback sample_platform 3 s' 0x50060 = Some s'' \<and> infos (view s'') = infos (view s)"
proof -
  obtain s where s: "ledger_history sample_platform 0 [(1, sample_send)] = Some s"
    "history_ok sample_platform [(1, sample_send)]" "view s = sample_sent"
    by (rule sample_sent_history)
  have "process_code sample_platform (view s) sample_open = progress" "movable (view s) sample_open"
    by (simp_all add: s(3) sample_sent_def sample_defs genesis_amount_def)
  then have "accepts sample_platform 2 s sample_open (process sample_platform 2 s sample_open)"
    using process_accepts [OF ledger_history_inv(3) [OF s(2,1)] sample_history_ok(4), of 2] by simp
  then obtain a s' where s': "process sample_platform 2 s sample_open = accepted a s'"
    "ledger_step sample_platform 2 (view s) sample_open a (view s')" unfolding accepts_def by blast
  from s'(2) have a: "a = 5"
    by cases (auto simp: s(3) sample_sent_def sample_defs split: if_splits)
  have "(5 :: account) \<noteq> 0" by simp
  from rollback_undoes_open [OF s(2,1) sample_history_ok(4) s'(1) [unfolded a] this, of 3]
  obtain s'' where "rollback sample_platform 3 s' 0x50060 = Some s''"
    "view s'' = (view s)\<lparr>weights := weights (view s'')\<rparr>" unfolding sample_hashes by blast
  moreover have "infos (view s'') = infos (view s)" by (subst calculation(2)) simp
  ultimately show ?thesis using s(1) s'(1) a by blast
qed

text \<open>
  C27. Rolling back a receive block does not restore the ledger: the blocks, frontiers, pending
  sends and the checksum are as before, but the entry of the receiving account then names
  the block of the \<^emph>\<open>sender's\<close> representative instead of its own.
\<close>

theorem rollback_receive_takes_sender_representative:
  assumes "history_ok P es" and "ledger_history P t0 es = Some s" and "hash_ok P (Receive x)"
    and "process P now s (Receive x) = accepted a s'" and "a \<noteq> 0"
  shows "\<exists>i s'' R. account_get s a = Some (Some i) \<and>
    ledger_representative P s (receive_source (receive_hashables x)) = Some R \<and>
    rollback P t s' (block_hash P (Receive x)) = Some s'' \<and>
    account_get s'' a = Some (Some (i\<lparr>info_rep_block := R, info_modified := t\<rparr>)) \<and>
    blocks (view s'') = blocks (view s) \<and> heads (view s'') = heads (view s) \<and>
    receivables (view s'') = receivables (view s) \<and> check (view s'') = check (view s)"
proof -
  obtain i s'' R where r: "mdb_get (infos (view s)) a = Some i"
    "ledger_representative P s (receive_source (receive_hashables x)) = Some R"
    "rollback P t s' (block_hash P (Receive x)) = Some s''" "store_ok s''"
    and v: "view s'' = (view s)\<lparr>infos := mdb_put (infos (view s)) a
        (i\<lparr>info_rep_block := R, info_modified := t\<rparr>), weights := weights (view s'')\<rparr>"
    by (rule rollback_receive_view [OF process_appended(1) [OF assms(1-4)] assms(5), of t])
  have "blocks (view s'') = blocks (view s)" "heads (view s'') = heads (view s)"
    "receivables (view s'') = receivables (view s)" "check (view s'') = check (view s)"
    "mdb_get (infos (view s'')) a = Some (i\<lparr>info_rep_block := R, info_modified := t\<rparr>)"
    by (subst v, simp)+
  then show ?thesis
    using r ledger_history_inv(1) [OF assms(1,2)] by (simp add: account_get_view)
qed

theorem rollback_receive_takes_sender_representative_witness:
  "\<exists>s s' s'' i j. process sample_platform 4 s sample_receive = accepted 5 s' \<and>
     rollback sample_platform 5 s' 0x500040 = Some s'' \<and>
     account_get s 5 = Some (Some i) \<and> info_rep_block i = 0x50060 \<and>
     account_get s'' 5 = Some (Some j) \<and> info_rep_block j = 0xD0B060"
proof -
  let ?es = "[(1, sample_send), (2, sample_open), (3, sample_rest)]"
  obtain s where s: "ledger_history sample_platform 0 ?es = Some s"
    "history_ok sample_platform ?es" "view s = sample_paid"
    by (rule sample_paid_history)
  note views = s(3) sample_paid_def sample_opened_def sample_sent_def sample_defs
  have "process_code sample_platform (view s) sample_receive = progress"
    by (simp add: views)
  moreover have "movable (view s) sample_receive"
    by (simp add: views genesis_amount_def move_weight_def)
  ultimately have "accepts sample_platform 4 s sample_receive (process sample_platform 4 s sample_receive)"
    using process_accepts [OF ledger_history_inv(3) [OF s(2,1)] sample_history_ok(9), of 4] by simp
  then obtain a s' where s': "process sample_platform 4 s sample_receive = accepted a s'"
    "ledger_step sample_platform 4 (view s) sample_receive a (view s')" unfolding accepts_def by blast
  have "mdb_get (receivables (view s)) 0x50 = Some
      \<lparr>rcv_source = paper_test_account, rcv_amount = 1, rcv_destination = 5\<rparr>"
    by (simp add: s(3) sample_paid_def)
  moreover have "\<exists>r. mdb_get (receivables (view s)) 0x50 = Some r \<and> a = rcv_destination r"
    using s'(2) by cases simp
  ultimately have a: "a = 5" by auto
  have ok: "store_ok s" "chain_ok sample_platform (blocks (view s))"
    using ledger_okD [OF ledger_history_inv(3) [OF s(2,1)]] by simp_all
  have chain: "blocks (view s) 0x50 = Some sample_rest" "blocks (view s) 0x10050 = Some sample_send"
    "blocks (view s) 0xD0B060 = Some (Open (genesis_open sample_platform))"
    by (simp_all add: views)
  have "rep_is (blocks (view s)) 0xD0B060 0xD0B060" by (rule rep_open) (rule chain)
  then have "rep_is (blocks (view s)) 0x10050 0xD0B060"
    using rep_send [of "blocks (view s)" _ sample_send_block] chain(2) by simp
  then have "rep_is (blocks (view s)) 0x50 0xD0B060"
    using rep_send [of "blocks (view s)" _ sample_rest_block] chain(1) by simp
  then have rep: "ledger_representative sample_platform s 0x50 = Some 0xD0B060"
    by (rule ledger_representative_correct [OF ok])
  have own: "account_get s 5 = Some (Some \<lparr>info_head = 0x50060, info_rep_block = 0x50060,
      info_balance = genesis_amount - 1, info_modified = 2\<rparr>)"
    using ok(1) by (simp add: store_simps views)
  have "(5 :: account) \<noteq> 0" by simp
  from rollback_receive_takes_sender_representative
    [OF s(2,1) sample_history_ok(9) s'(1) [unfolded a] this, of 5]
  obtain s'' i where "account_get s 5 = Some (Some i)"
    "rollback sample_platform 5 s' 0x500040 = Some s''"
    "account_get s'' 5 = Some (Some (i\<lparr>info_rep_block := 0xD0B060, info_modified := 5\<rparr>))"
    using rep by (auto simp: sample_hashes)
  then show ?thesis using s'(1) a own
    by (intro exI [of _ s] exI [of _ s'] exI [of _ s''] exI [of _ i]
        exI [of _ "i\<lparr>info_rep_block := 0xD0B060, info_modified := 5\<rparr>"]) auto
qed

end
