(* ===== verification/Node_Props.thy ===== *)
theory Node_Props
  imports Node Ledger_Props Ledger_Rollback
begin

text \<open>
  What a node does with blocks and votes: forks, gaps, elections.
\<close>

section \<open>Parts of the node that an operation leaves alone\<close>

lemma send_buffer_keeps [simp]:
  "node_store (send_buffer bs e r n) = node_store n" "node_gaps (send_buffer bs e r n) = node_gaps n"
  "node_wallets (send_buffer bs e r n) = node_wallets n" "node_peers (send_buffer bs e r n) = node_peers n"
  "node_roots (send_buffer bs e r n) = node_roots n" "node_elections (send_buffer bs e r n) = node_elections n"
  by (simp_all add: send_buffer_def)

lemma service_add_keeps [simp]:
  "node_store (service_add t a n) = node_store n" "node_gaps (service_add t a n) = node_gaps n"
  "node_wallets (service_add t a n) = node_wallets n" "node_peers (service_add t a n) = node_peers n"
  "node_roots (service_add t a n) = node_roots n" "node_elections (service_add t a n) = node_elections n"
  by (simp_all add: service_add_def)

lemma count_keeps [simp]: "node_store (count c n) = node_store n"
  by (simp add: count_def)

lemma fold_send_keeps:
  "node_store (fold (\<lambda>i n. if f i n then send_buffer bs (g i) r n else n) xs n) = node_store n"
  "node_gaps (fold (\<lambda>i n. if f i n then send_buffer bs (g i) r n else n) xs n) = node_gaps n"
  "node_wallets (fold (\<lambda>i n. if f i n then send_buffer bs (g i) r n else n) xs n) = node_wallets n"
  by (induction xs arbitrary: n) simp_all

lemma node_peer_insert_store:
  "node_peer_insert P C now e h n = Some n' \<Longrightarrow> node_store n' = node_store n"
  by (auto simp: node_peer_insert_def endpoint_observer_def network_send_keepalive_def bind_eq_Some_conv
      Let_def split: if_splits)

lemma node_contacted_store: "node_contacted P C now e n = Some n' \<Longrightarrow> node_store n' = node_store n"
  by (simp add: node_contacted_def node_peer_insert_store)

section \<open>Forks\<close>

text \<open>A hash that is no stored block, or the head of an account.\<close>

definition no_successor :: "block_store \<Rightarrow> block_hash \<Rightarrow> bool" where
  "no_successor s h \<longleftrightarrow> \<not> block_exists s h \<or> (\<exists>a. a \<noteq> 0 \<and> frontier_get s h = Some a)"

lemma no_successor_aborts:
  assumes "ledger_ok P s" and "no_successor s h"
  shows "successor s h = None"
proof (cases "block_exists s h")
  case True
  note inv = ledger_okD [OF assms(1)]
  obtain a where a: "a \<noteq> 0" "frontier_get s h = Some a" using assms(2) True by (auto simp: no_successor_def)
  then have head: "mdb_get (heads (view s)) h = Some a"
    using inv(1) by (cases "mdb_get (heads (view s)) h") (auto simp: store_simps)
  then obtain i where i: "mdb_get (infos (view s)) a = Some i" "info_head i = h"
    using heads_info [OF inv(5)] by metis
  have "account_is (blocks (view s)) h a" using heads_okD(3) [OF inv(5) i(1)] i(2) by simp
  then have "ledger_account s h = Some a" using ledger_account_correct [OF inv(1) _ a(1)] by simp
  moreover have "latest s a = Some h" using i inv(1) by (simp add: latest_def store_simps)
  ultimately show ?thesis by (simp add: successor_def assert_def)
qed (simp add: successor_def assert_def)

lemma fork_aborts:
  assumes "ledger_ok P (node_store n)"
    and "process P (of_nat now) (node_store n) b = rejected fork (node_store n)"
    and "no_successor (node_store n) (root b)"
  shows "process_receive_republish P C now b r n = None"
proof -
  have "node_process_receive P C now b n = None"
    using no_successor_aborts [OF assms(1,3)] by (simp add: node_process_receive_def assms(2) rejected_def)
  then show ?thesis by (subst process_receive_republish.simps) simp
qed

lemma block_type_set_kind: "message_kind (block_type_set t m) = message_kind m"
  by (simp add: block_type_set_def)

lemma publish_delivered:
  assumes "publish_serialize P (make_publish b) = Some buffer" and "\<not> work_validate_block P b"
  shows "deserialize_buffer P junk buffer make_parser = Some (make_parser, Some (In_publish (make_publish b)))"
proof -
  have header: "read_header P buffer = Some (publish_header (make_publish b), serialize b)"
    using assms(1) by (auto simp: publish_serialize_def make_publish_def header.dec_of_enc)
  then have "\<not> truncated_keepalive P buffer"
    by (simp add: truncated_keepalive_def make_publish_def block_type_set_def make_message_def)
  moreover have "incoming_ok P (In_publish (make_publish b))"
    using assms(2) by (simp add: carries_def make_publish_def block_type_set_kind make_message_def)
  moreover have "make_parser\<lparr>parser_error := False\<rparr> = make_parser" by (simp add: make_parser_def)
  ultimately show ?thesis
    using deserialize_buffer_iff [of P buffer junk make_parser make_parser "In_publish (make_publish b)"] assms(1)
    by simp
qed

text \<open>
  C40. One datagram can take a node down. When \<open>ledger::process\<close> answers a published block with
  \<open>fork\<close>, the node asks for the successor of the block's root, and that fails an assertion if
  the root is no stored block, as for a second open block of an account (whose root is the
  account number), or the head of an account, as for a receive block that names the head of
  another account as its predecessor.
\<close>

theorem fork_datagram_aborts_node:
  assumes "history_ok P es" and "ledger_history P t0 es = Some (node_store n)"
    and "process P (of_nat now) (node_store n) b = rejected fork (node_store n)"
    and "no_successor (node_store n) (root b)"
    and "publish_serialize P (make_publish b) = Some buffer" and "\<not> work_validate_block P b"
    and "reserved_address remote = Some False" and "remote \<noteq> node_endpoint n"
  shows "receive_action P C now junk remote buffer n = None"
proof -
  have ok: "ledger_ok P (node_store n)" by (rule ledger_history_inv(3) [OF assms(1,2)])
  have "visit_message P C now remote (In_publish (make_publish b)) n = None"
  proof (rule ccontr)
    assume "visit_message P C now remote (In_publish (make_publish b)) n \<noteq> None"
    then obtain n1 n2 where n: "node_contacted P C now remote (count ''publish'' n) = Some n1"
      "node_peer_insert P C now remote (block_hash P b) n1 = Some n2"
      "process_receive_republish P C now b 0 n2 \<noteq> None"
      by (auto simp: visit_message_def make_publish_def bind_eq_Some_conv)
    then have "node_store n2 = node_store n"
      using node_contacted_store [OF n(1)] node_peer_insert_store [OF n(2)] by simp
    then show False using fork_aborts [of P n2 now b C 0] ok assms(3,4) n(3) by simp
  qed
  then show ?thesis using assms(7,8) by (simp add: receive_action_def publish_delivered [OF assms(5,6)])
qed

definition sample_astray_block :: receive_block where
  "sample_astray_block = make_receive sample_platform 0x50 0x50 5 5 0"

definition sample_choices :: choices where
  "sample_choices = \<lparr>tally_order = id, anonymous_key = 3, random_words = []\<rparr>"

text \<open>A node with the given store, no wallets, no peers and nothing in progress.\<close>

definition sample_node :: "block_store \<Rightarrow> node" where
  "sample_node s = \<lparr>node_endpoint = no_endpoint, node_numerator = 1, node_store = s, node_gaps = [],
     node_elections = [], node_roots = [], node_wallets = [],
     node_peers = make_peer_container no_endpoint,
     node_bootstrap = \<lparr>in_progress = False, warmed_up = [], initiated = []\<rparr>,
     node_operations = [], node_outbox = [], node_counters = []\<rparr>"

lemma sample_work: "\<not> work_validate_block sample_platform b"
proof -
  have "(le_load (sample_hash 8 m) :: uint64) = - 1" for m by (simp add: sample_hash_def)
  then show ?thesis
    by (simp add: work_validate_block_def work_validate_def sample_platform_def publish_threshold_def)
qed

theorem fork_datagram_aborts_node_witness:
  "\<exists>s buffer. ledger_history sample_platform 0 [(1, sample_send), (2, sample_open), (3, sample_rest)] = Some s \<and>
     publish_serialize sample_platform (make_publish (Receive sample_astray_block)) = Some buffer \<and>
     receive_action sample_platform sample_choices 4 (\<lambda>_. (0, 0)) (v4_mapped (sample_peer 1)) buffer
       (sample_node s) = None"
proof -
  let ?P = sample_platform and ?b = "Receive sample_astray_block"
  obtain s where s: "ledger_history ?P 0 [(1, sample_send), (2, sample_open), (3, sample_rest)] = Some s"
    "history_ok ?P [(1, sample_send), (2, sample_open), (3, sample_rest)]" "view s = sample_paid"
    by (rule sample_paid_history)
  note ok = ledger_history_inv(3) [OF s(2,1)]
  have b: "receive_hashables sample_astray_block = \<lparr>receive_previous = 0x50, receive_source = 0x50\<rparr>"
    "receive_signature sample_astray_block = 5"
    by (simp_all add: sample_astray_block_def make_receive_def sign_message_def sample_platform_def Let_def)
  have h: "block_hash ?P ?b = 0x500040" by (simp add: sample_hash_simps b)
  have "process_code ?P (view s) ?b = fork"
    by (simp add: s(3) sample_paid_def sample_opened_def sample_sent_def sample_defs h b)
  then have fork: "process ?P (of_nat 4) (node_store (sample_node s)) ?b = rejected fork (node_store (sample_node s))"
    using process_rejects [OF ok, of ?b] by (simp add: sample_node_def)
  have "frontier_get s 0x50 = Some paper_test_account"
    using ledger_okD(1) [OF ok]
    by (simp add: store_simps s(3) sample_paid_def sample_opened_def sample_sent_def sample_defs)
  then have head: "no_successor (node_store (sample_node s)) (root ?b)"
    by (auto simp: no_successor_def sample_node_def b paper_test_account_def)
  obtain buffer where buffer: "publish_serialize ?P (make_publish ?b) = Some buffer"
    by (simp add: publish_serialize_def make_publish_def)
  have "reserved_address (v4_mapped (sample_peer 1)) = Some False"
    "v4_mapped (sample_peer 1) \<noteq> node_endpoint (sample_node s)"
    by (simp_all add: reserved_address_def v4_mapped_def sample_peer_def mapped_from_v4_bytes_def sample_node_def
        no_endpoint_def)
  then show ?thesis
    using fork_datagram_aborts_node [OF s(2) _ fork head buffer sample_work] s(1) buffer
    by (auto simp: sample_node_def)
qed

section \<open>Elections\<close>

lemma supply_returns: "store_ok s \<Longrightarrow> \<exists>v. ledger_supply P s = Some v"
  by (simp add: ledger_supply_def account_balance_def store_simps split: option.splits)

lemma thresholds_return:
  assumes "store_ok s"
  shows "\<exists>v. uncontested_threshold P s = Some v" and "\<exists>v. contested_threshold P s = Some v"
  using supply_returns [OF assms, of P] by (auto simp: uncontested_threshold_def contested_threshold_def)

text \<open>A first vote for the block an election is about leaves the ledger as it is.\<close>

lemma election_first_vote:
  assumes ok: "ledger_ok P s" and order: "\<forall>ts. set (tally_order C ts) = set ts"
    and e: "rep_votes (election_votes e) = []" "\<not> election_confirmed e"
    and v: "vote_block v = election_last_winner e"
  shows "\<exists>e' c. election_vote P C now e s v = Some (e', s, c) \<and>
    election_last_winner e' = election_last_winner e \<and> election_action e' = election_action e \<and>
    votes_id (election_votes e') = votes_id (election_votes e)"
proof -
  obtain changed vs where vs: "votes_vote P (election_votes e) v = (changed, vs)"
    by (cases "votes_vote P (election_votes e) v")
  have id: "votes_id vs = votes_id (election_votes e)"
    using vs by (auto simp: votes_vote_def Let_def split: if_splits option.splits)
  show ?thesis
  proof (cases changed)
    case True
    then have rv: "rep_votes vs = [(vote_account v, vote_sequence v, vote_block v)]"
      using vs e(1) by (auto simp: votes_vote_def split: if_splits)
    obtain m rest w b where m: "tally (tally_order C) s vs = Some m" "rev (mdb_entries m) = (w, b) # rest"
      "b \<in> (snd \<circ> snd) ` set (rep_votes vs)"
      using tally_most_weight [OF ok, of vs "tally_order C"] rv order by auto
    have "b = election_last_winner e" using m(3) rv v by simp
    moreover obtain x y where "uncontested_threshold P s = Some x" "contested_threshold P s = Some y"
      using thresholds_return [OF ledger_okD(1) [OF ok]] by blast
    ultimately show ?thesis
      using True e(2) m(1,2) id by (auto simp: election_vote_def vs Let_def block_equal_eq)
  next
    case False
    then show ?thesis using id by (simp add: election_vote_def vs Let_def)
  qed
qed

lemma make_election_keeps:
  assumes ok: "ledger_ok P (node_store n)" and order: "\<forall>ts. set (tally_order C ts) = set ts"
    and stored: "block_exists (node_store n) (block_hash P b)"
  shows "\<exists>n'. make_election P C now b action n = Some (length (node_elections n), n') \<and>
    node_store n' = node_store n \<and> node_roots n' = node_roots n \<and> node_gaps n' = node_gaps n \<and>
    length (node_elections n') = Suc (length (node_elections n)) \<and>
    election_last_winner (node_elections n' ! length (node_elections n)) = b"
proof -
  let ?k = "length (node_elections n)"
  let ?e = "\<lparr>election_votes = make_votes (root b), election_last_vote = now,
       election_last_winner = b, election_confirmed = False, election_action = action\<rparr>"
  let ?v = "make_vote P (ed25519_publickey P (anonymous_key C)) (anonymous_key C) 0 b"
  obtain e' c where "election_vote P C now ?e (node_store n) ?v = Some (e', node_store n, c)"
    "election_last_winner e' = b"
    using election_first_vote [OF ok order, of ?e ?v now] by (auto simp: make_votes_def make_vote_def)
  then show ?thesis
    using stored by (cases c) (auto simp: make_election_def node_election_vote_def assert_def Let_def)
qed

lemma conflicts_start_keeps:
  assumes "ledger_ok P (node_store n)" and "\<forall>ts. set (tally_order C ts) = set ts"
    and "block_exists (node_store n) (block_hash P b)"
  shows "\<exists>n'. conflicts_start P C now b action False n = Some n' \<and> node_store n' = node_store n \<and>
    node_gaps n' = node_gaps n \<and>
    (case map_of (node_roots n) (root b) of
       Some k \<Rightarrow> n' = n
     | None \<Rightarrow> map_of (node_roots n') (root b) = Some (length (node_elections n)) \<and>
         election_last_winner (node_elections n' ! length (node_elections n)) = b)"
  using make_election_keeps [OF assms, of now action]
  by (auto simp: conflicts_start_def split: option.splits)



text \<open>
  C9. An election confirms a block only with a quorum: the representatives whose recorded
  votes are for it have, together and without overflow, more weight than fifteen sixteenths
  of the circulating supply, or than half of it if all blocks with votes have the same
  weight, and no other block has more. A confirmed election stays confirmed and acts once.
\<close>

theorem confirmation_needs_quorum:
  assumes "history_ok P es" and "ledger_history P t0 es = Some s"
    and "distinct (map fst (rep_votes (election_votes e)))" and "\<forall>ts. set (tally_order C ts) = set ts"
    and "election_vote P C now e s v = Some (e', s', Some b)"
  shows "\<not> election_confirmed e \<and> election_confirmed e' \<and> election_last_winner e' = b \<and>
    (\<exists>amount. ledger_supply P s' = Some amount \<and>
      (if \<forall>c \<in> (snd \<circ> snd) ` set (rep_votes (election_votes e')).
            votes_for s (election_votes e') c = votes_for s (election_votes e') b
       then unat amount div 2 else unat amount div 16 * 15) < votes_for s (election_votes e') b) \<and>
    (\<forall>c. votes_for s (election_votes e') c \<le> votes_for s (election_votes e') b) \<and>
    (\<forall>v2. \<exists>e2. election_vote P C now e' s' v2 = Some (e2, s', None) \<and> election_confirmed e2)"
proof -
  have ok: "ledger_ok P s" by (rule ledger_history_inv(3) [OF assms(1,2)])
  obtain changed vs where vs: "votes_vote P (election_votes e) v = (changed, vs)"
    by (cases "votes_vote P (election_votes e) v")
  have ch: "changed" "\<not> election_confirmed e"
    using assms(5) by (auto simp: election_vote_def vs Let_def split: if_splits)
  have ne: "rep_votes vs \<noteq> []"
    using vs ch(1) by (auto simp: votes_vote_def Let_def split: if_splits option.splits)
  have "distinct (map fst (rep_votes vs))" using votes_vote_distinct [OF assms(3), of P v] vs by simp
  then obtain m rest w c where m: "tally (tally_order C) s vs = Some m" "rev (mdb_entries m) = (w, c) # rest"
    "unat w = votes_for s vs c" "\<forall>d. votes_for s vs d \<le> unat w"
    "length (mdb_entries m) = 1 \<longleftrightarrow> (\<forall>d \<in> (snd \<circ> snd) ` set (rep_votes vs). votes_for s vs d = unat w)"
    using tally_most_weight [OF ok _ ne assms(4)] by blast
  obtain amount where r: "c = b" "election_votes e' = vs" "election_confirmed e'" "election_last_winner e' = b"
    "ledger_supply P s' = Some amount" "(if length (mdb_entries m) = 1 then amount div 2 else amount div 16 * 15) < w"
    using assms(5) ch m(1,2)
    by (auto simp: election_vote_def vs Let_def uncontested_threshold_def contested_threshold_def
        bind_eq_Some_conv block_equal_eq split: if_splits)
  have "unat (amount div 16 * 15) = unat amount div 16 * 15"
  proof -
    have "unat amount < 2 ^ 128" using unsigned_less [of amount] by simp
    moreover have "unat amount div 16 * 15 \<le> unat amount" by linarith
    ultimately have "unat (amount div 16) * unat (15 :: uint128_t) < 2 ^ LENGTH(128)" by (simp add: unat_div)
    then show ?thesis using unat_mult_lem [of "amount div 16" 15] by (simp add: unat_div)
  qed
  then have "(if length (mdb_entries m) = 1 then unat amount div 2 else unat amount div 16 * 15) < unat w"
    using r(6) by (simp add: word_less_nat_alt unat_div split: if_splits)
  moreover have "\<exists>e2. election_vote P C now e' s' v2 = Some (e2, s', None) \<and> election_confirmed e2" for v2
    using r(3) by (simp add: election_vote_def Let_def case_prod_unfold)
  ultimately show ?thesis using ch(2) r m(3,4) unfolding m(5) by auto
qed

theorem confirmation_needs_quorum_witness:
  "\<exists>s e'. ledger_history sample_platform 0 [(1, sample_send)] = Some s \<and>
     election_vote sample_platform sample_choices 2
       \<lparr>election_votes = make_votes 0xD0B060, election_last_vote = 2, election_last_winner = sample_send,
        election_confirmed = False, election_action = Process_confirmed\<rparr> s
       (make_vote sample_platform paper_test_account paper_test_account 0 sample_send) =
         Some (e', s, Some sample_send) \<and>
     election_confirmed e'"
proof -
  let ?P = sample_platform and ?v = "make_vote sample_platform paper_test_account paper_test_account 0 sample_send"
  let ?e = "\<lparr>election_votes = make_votes 0xD0B060, election_last_vote = 2, election_last_winner = sample_send,
        election_confirmed = False, election_action = Process_confirmed\<rparr>"
  obtain s where s: "ledger_history ?P 0 [(1, sample_send)] = Some s"
    "history_ok ?P [(1, sample_send)]" "view s = sample_sent"
    by (rule sample_sent_history)
  have st: "store_ok s" by (rule ledger_history_inv(1) [OF s(2,1)])
  have weight: "weight s paper_test_account = Some genesis_amount"
    using st by (simp add: weight_def store_simps s(3) sample_sent_def sample_defs)
  have circulating: "ledger_supply ?P s = Some (genesis_amount - 1)"
    using st by (simp add: ledger_supply_def account_balance_def store_simps s(3) sample_sent_def sample_defs)
  have valid: "votes_vote ?P (make_votes 0xD0B060) ?v =
      (True, (make_votes 0xD0B060)\<lparr>rep_votes := [(paper_test_account, 0, sample_send)]\<rparr>)"
    by (simp add: votes_vote_def make_votes_def make_vote_def sample_validate sign_message_def)
      (simp add: sample_platform_def)
  have "\<exists>e'. election_vote ?P sample_choices 2 ?e s ?v = Some (e', s, Some sample_send)"
    by (simp add: election_vote_def valid tally_def weight sample_choices_def block_equal_eq
        uncontested_threshold_def circulating genesis_amount_def)
  then obtain e' where e': "election_vote ?P sample_choices 2 ?e s ?v = Some (e', s, Some sample_send)" by blast
  have "distinct (map fst (rep_votes (election_votes ?e)))" "\<forall>ts. set (tally_order sample_choices ts) = set ts"
    by (simp_all add: make_votes_def sample_choices_def)
  from confirmation_needs_quorum [OF s(2,1) this e'] show ?thesis using s(1) e' by blast
qed

end
