(* ===== verification/Node_Gaps.thy ===== *)
theory Node_Gaps
  imports Node_Props
begin

text \<open>
  Blocks of a chain that arrive out of order: the node parks each block under the hash it
  waits for, and the arrival of the missing block puts the whole chain into the ledger.
\<close>

section \<open>What the cache holds\<close>

text \<open>The cache holds the blocks of \<open>D\<close>, each under its predecessor.\<close>

definition parked :: "platform \<Rightarrow> block set \<Rightarrow> gap_cache \<Rightarrow> bool" where
  "parked P D gs \<longleftrightarrow> distinct (map gap_block gs) \<and> gap_block ` set gs = D \<and>
     (\<forall>g\<in>set gs. gap_required g = previous (gap_block g) \<and> gap_hash g = block_hash P (gap_block g))"

lemma parked_length: "parked P D gs \<Longrightarrow> length gs = card D"
  using distinct_card [of "map gap_block gs"] by (auto simp: parked_def)

lemma parked_empty: "parked P {} gs \<longleftrightarrow> gs = []"
  by (auto simp: parked_def)

lemma parked_find:
  assumes "parked P D gs" and "inj_on previous D"
  shows "gap_find gs h = None \<longleftrightarrow> h \<notin> previous ` D"
    and "gap_find gs h = Some g \<Longrightarrow> gap_block g \<in> D \<and> previous (gap_block g) = h"
  using assms(1) by (auto simp: parked_def gap_find_def find_None_iff find_Some_iff)

lemma parked_get:
  assumes "parked P D gs" and "inj_on previous D"
  shows "h \<notin> previous ` D \<Longrightarrow> gap_cache_get gs h = (None, gs)"
    and "c \<in> D \<Longrightarrow> previous c = h \<Longrightarrow> \<exists>gs'. gap_cache_get gs h = (Some c, gs') \<and> parked P (D - {c}) gs'"
proof -
  note find = parked_find [OF assms]
  show "h \<notin> previous ` D \<Longrightarrow> gap_cache_get gs h = (None, gs)"
    using find(1) [of h] by (simp add: gap_cache_get_def)
  assume c: "c \<in> D" "previous c = h"
  then obtain g where g: "gap_find gs h = Some g" using find(1) [of h] by (cases "gap_find gs h") auto
  then have "gap_block g = c" using find(2) [OF g] c assms(2) by (auto dest: inj_onD)
  moreover have "parked P (D - {c}) (filter (\<lambda>g. gap_required g \<noteq> h) gs)"
  proof -
    have "gap_required g \<noteq> h \<longleftrightarrow> gap_block g \<noteq> c" if "g \<in> set gs" for g
      using that assms c by (auto simp: parked_def dest: inj_onD)
    then have "filter (\<lambda>g. gap_required g \<noteq> h) gs = filter (\<lambda>g. gap_block g \<noteq> c) gs" by (rule filter_cong [OF refl])
    then show ?thesis using assms(1) by (auto simp: parked_def distinct_map_filter)
  qed
  ultimately show "\<exists>gs'. gap_cache_get gs h = (Some c, gs') \<and> parked P (D - {c}) gs'"
    using g by (simp add: gap_cache_get_def)
qed

lemma parked_add:
  assumes park: "parked P D gs" and inj: "inj_on previous (insert c D)" "inj_on (block_hash P) (insert c D)"
    and room: "card (insert c D) \<le> gap_max"
  shows "parked P (insert c D) (gap_cache_add P now gs c (previous c))"
proof (cases "c \<in> D")
  case True
  let ?f = "\<lambda>g. if gap_required g = previous c then g\<lparr>gap_arrival := now\<rparr> else g"
  have "gap_find gs (previous c) \<noteq> None"
    using parked_find(1) [OF park, of "previous c"] inj(1) True by (auto simp: insert_absorb)
  then have eq: "gap_cache_add P now gs c (previous c) = map ?f gs" by (auto simp: gap_cache_add_def)
  have same: "map gap_block (map ?f gs) = map gap_block gs" by simp
  have set: "gap_block ` set (map ?f gs) = insert c D"
    using park True unfolding set_map [symmetric] same by (simp add: parked_def insert_absorb)
  have "\<forall>g\<in>set (map ?f gs). gap_required g = previous (gap_block g) \<and> gap_hash g = block_hash P (gap_block g)"
    using park by (auto simp: parked_def)
  then show ?thesis using park set unfolding eq parked_def same by blast
next
  case False
  let ?g = "\<lparr>gap_arrival = now, gap_required = previous c, gap_hash = block_hash P c,
    gap_votes = make_votes (block_hash P c), gap_block = c\<rparr>"
  have inj': "inj_on previous D" using inj(1) by (simp add: inj_on_def)
  have fin: "finite D" using park by (auto simp: parked_def)
  have new: "previous c \<notin> previous ` D" "block_hash P c \<notin> block_hash P ` D"
    using inj False by (auto simp: inj_on_insert)
  have req: "gap_required ` set gs = previous ` D" "gap_hash ` set gs = block_hash P ` D"
    using park by (force simp: parked_def image_iff)+
  have "gap_find gs (previous c) = None" using parked_find(1) [OF park inj'] new(1) by simp
  moreover have "length gs < gap_max" using parked_length [OF park] room False fin by simp
  ultimately have "gap_cache_add P now gs c (previous c) = gs @ [?g]"
    using new req by (simp add: gap_cache_add_def gap_insert_def Let_def)
  then show ?thesis using park False by (auto simp: parked_def)
qed

section \<open>Chains\<close>

text \<open>The store after blocks that are all accepted.\<close>

fun all_progress :: "platform \<Rightarrow> uint64 \<Rightarrow> block_store \<Rightarrow> block list \<Rightarrow> block_store exec" where
  "all_progress P now s [] = Some s"
| "all_progress P now s (b # bs) = do {
     (r, s) \<leftarrow> process P now s b;
     if ret_code r = progress then all_progress P now s bs else None
   }"

fun linked :: "platform \<Rightarrow> block list \<Rightarrow> bool" where
  "linked P (b # c # bs) \<longleftrightarrow> previous c = block_hash P b \<and> linked P (c # bs)"
| "linked P bs \<longleftrightarrow> True"

definition is_link :: "block \<Rightarrow> bool" where
  "is_link b \<longleftrightarrow> (case b of Send x \<Rightarrow> True | Change x \<Rightarrow> True | _ \<Rightarrow> False)"

lemma progress_step:
  assumes "node_ok P s" and "hash_ok P b" and "process P now s b = Some (r, s')" and "ret_code r = progress"
  shows "node_ok P s'" and "blocks (view s) (block_hash P b) = None"
    and "blocks (view s') = (blocks (view s))(block_hash P b \<mapsto> b)"
proof -
  have ok: "ledger_ok P s" using assms(1) by (simp add: node_ok_def)
  have code: "process_code P (view s) b = progress"
    by (rule ccontr) (use process_rejects [OF ok, of b now] assms(3,4) in \<open>auto simp: rejected_def\<close>)
  then obtain a where step: "ledger_step P now (view s) b a (view s')"
    using process_accepts [OF ok assms(2) code, of now] assms(3)
    by (auto simp: accepts_def accepted_def split: if_splits)
  show "node_ok P s'" by (rule process_node_ok [OF assms(1-3)])
  show "blocks (view s) (block_hash P b) = None" by (rule step_stored_previous(1) [OF ok step])
  show "blocks (view s') = (blocks (view s))(block_hash P b \<mapsto> b)" by (rule step_view(1) [OF step])
qed

lemma all_progress_fresh:
  assumes "node_ok P s" and "list_all (hash_ok P) bs" and "all_progress P now s bs = Some s'"
  shows "distinct (map (block_hash P) bs)" and "b \<in> set bs \<Longrightarrow> blocks (view s) (block_hash P b) = None"
proof -
  have "distinct (map (block_hash P) bs) \<and> (\<forall>b\<in>set bs. blocks (view s) (block_hash P b) = None)"
    using assms
  proof (induction bs arbitrary: s)
    case (Cons b bs)
    then obtain r s1 where s1: "process P now s b = Some (r, s1)" "ret_code r = progress"
      "all_progress P now s1 bs = Some s'"
      by (auto simp: bind_eq_Some_conv split: if_splits)
    note step = progress_step [OF Cons.prems(1) _ s1(1,2)]
    have "hash_ok P b" using Cons.prems(2) by simp
    with Cons.IH [of s1] step Cons.prems(2) s1(3) show ?case
      by (force simp: fun_upd_def split: if_splits)
  qed simp
  then show "distinct (map (block_hash P) bs)" "b \<in> set bs \<Longrightarrow> blocks (view s) (block_hash P b) = None"
    by simp_all
qed

lemma linked_previous: "linked P bs \<Longrightarrow> Suc i < length bs \<Longrightarrow> previous (bs ! Suc i) = block_hash P (bs ! i)"
proof (induction P bs arbitrary: i rule: linked.induct)
  case (1 P b c bs)
  then show ?case by (cases i) auto
qed auto

section \<open>What the node does with the blocks of a chain\<close>

text \<open>A chain whose blocks the ledger does not have, apart from the first one's place.\<close>

definition chain_ahead :: "platform \<Rightarrow> block_store \<Rightarrow> block list \<Rightarrow> bool" where
  "chain_ahead P s bs \<longleftrightarrow> ledger_ok P s \<and> linked P bs \<and> list_all is_link (tl bs) \<and>
     distinct (map (block_hash P) bs) \<and> (\<forall>b\<in>set bs. blocks (view s) (block_hash P b) = None)"

lemma link_gap:
  assumes "ledger_ok P (node_store n)" and "is_link b" and "blocks (view (node_store n)) (block_hash P b) = None"
    and "blocks (view (node_store n)) (previous b) = None"
  shows "\<exists>r. ret_code r = gap_previous \<and> node_process_receive P C now b n =
    Some (r, n\<lparr>node_gaps := gap_cache_add P now (node_gaps n) b (previous b)\<rparr>)"
proof -
  have "process_code P (view (node_store n)) b = gap_previous"
    using assms(2-4) by (cases b) (auto simp: process_code_def is_link_def follows_code_def Let_def)
  then have "process P (of_nat now) (node_store n) b = rejected gap_previous (node_store n)"
    using process_rejects [OF assms(1), of b] by simp
  then show ?thesis by (simp add: node_process_receive_def rejected_def)
qed

text \<open>The only block of the chain that waits for another one is the next.\<close>

lemma chain_next:
  assumes "linked P bs" and "distinct (map (block_hash P) bs)" and "c \<in> set (tl bs)"
    and "k < length bs" and "previous c = block_hash P (bs ! k)"
  shows "Suc k < length bs" and "c = bs ! Suc k"
proof -
  obtain i where i: "Suc i < length bs" "c = bs ! Suc i"
    using assms(3) by (auto simp: in_set_conv_nth nth_tl less_diff_conv)
  then have "map (block_hash P) bs ! i = map (block_hash P) bs ! k"
    using linked_previous [OF assms(1)] assms(4,5) by simp
  then have "i = k" using i(1) assms(2,4) by (simp add: nth_eq_iff_index_eq del: nth_map)
  then show "Suc k < length bs" "c = bs ! Suc k" using i by simp_all
qed

lemma chain_inj:
  assumes "linked P bs" and "distinct (map (block_hash P) bs)" and "D \<subseteq> set (tl bs)"
  shows "inj_on previous D" and "inj_on (block_hash P) D"
proof -
  show "inj_on previous D"
  proof (rule inj_onI)
    fix b c assume bc: "b \<in> D" "c \<in> D" "previous b = previous c"
    obtain i where i: "Suc i < length bs" "b = bs ! Suc i"
      using bc(1) assms(3) by (auto simp: in_set_conv_nth nth_tl less_diff_conv subset_iff)
    then have "previous c = block_hash P (bs ! i)" using linked_previous [OF assms(1)] bc(3) by simp
    with chain_next(2) [OF assms(1,2), of c i] bc(2) assms(3) i show "b = c" by auto
  qed
  have "inj_on (block_hash P) (set bs)" using assms(2) by (simp add: distinct_map)
  then show "inj_on (block_hash P) D" by (rule inj_on_subset) (use assms(3) in \<open>cases bs; auto\<close>)
qed

lemma chain_parks:
  assumes ahead: "chain_ahead P s bs" and "length bs \<le> Suc gap_max"
    and "b \<in> set (tl bs)" and "D \<subseteq> set (tl bs)" and "parked P D gs"
  shows "parked P (insert b D) (gap_cache_add P now gs b (previous b))"
proof (rule parked_add [OF assms(5)])
  have D: "insert b D \<subseteq> set (tl bs)" using assms(3,4) by simp
  show "inj_on previous (insert b D)" "inj_on (block_hash P) (insert b D)"
    using chain_inj [OF _ _ D] ahead by (auto simp: chain_ahead_def)
  have "card (insert b D) \<le> length (tl bs)"
    using card_mono [OF _ D] card_length [of "tl bs"] by (metis List.finite_set order.trans)
  then show "card (insert b D) \<le> gap_max" using assms(2) by simp
qed

lemma gap_walk:
  assumes "chain_ahead P (node_store n) bs" and "length bs \<le> Suc gap_max"
    and "Suc i < length bs" and "D \<subseteq> set (tl bs)" and "parked P D (node_gaps n)"
  shows "\<exists>n'. process_receive_republish P C now (bs ! Suc i) r n = Some n' \<and>
    node_store n' = node_store n \<and> node_wallets n' = node_wallets n \<and>
    parked P (insert (bs ! Suc i) D) (node_gaps n')"
  using assms
proof (induction "length bs - i" arbitrary: i n D rule: less_induct)
  case less
  let ?b = "bs ! Suc i" and ?s = "node_store n"
  have ok: "ledger_ok P ?s" "\<forall>b\<in>set bs. blocks (view ?s) (block_hash P b) = None"
    and lin: "linked P bs" and dist: "distinct (map (block_hash P) bs)" and links: "list_all is_link (tl bs)"
    using less.prems(1) by (auto simp: chain_ahead_def)
  have b: "?b \<in> set (tl bs)" using nth_mem [of i "tl bs"] less.prems(3) by (simp add: nth_tl less_diff_conv)
  have D: "insert ?b D \<subseteq> set (tl bs)" using b less.prems(4) by simp
  define gs where "gs = gap_cache_add P now (node_gaps n) ?b (previous ?b)"
  have "blocks (view ?s) (previous ?b) = None"
    using ok(2) less.prems(3) linked_previous [OF lin less.prems(3)] by simp
  then obtain q where q: "ret_code q = gap_previous"
    "node_process_receive P C now ?b n = Some (q, n\<lparr>node_gaps := gs\<rparr>)"
    using link_gap [OF ok(1), of ?b C now] ok(2) links b less.prems(3) by (auto simp: list_all_iff gs_def)
  have gs: "parked P (insert ?b D) gs"
    unfolding gs_def by (rule chain_parks [OF less.prems(1,2) b less.prems(4,5)])
  note get = parked_get [OF gs chain_inj(1) [OF lin dist D]]
  show ?case
  proof (cases "block_hash P ?b \<in> previous ` insert ?b D")
    case True
    then obtain c where c: "c \<in> insert ?b D" "previous c = block_hash P ?b" by (metis imageE)
    note next_c = chain_next [OF lin dist subsetD [OF D c(1)] less.prems(3) c(2)]
    have "?b \<noteq> c"
      using next_c dist less.prems(3) by (metis distinct_map n_not_Suc_n nth_eq_iff_index_eq)
    obtain gs' where gs': "gap_cache_get gs (block_hash P ?b) = (Some c, gs')" "parked P (insert ?b D - {c}) gs'"
      using get(2) [OF c] by blast
    obtain n' where "process_receive_republish P C now c r (n\<lparr>node_gaps := gs'\<rparr>) = Some n'"
      "node_store n' = ?s" "node_wallets n' = node_wallets n" "parked P (insert c (insert ?b D - {c})) (node_gaps n')"
      using less.hyps [of "Suc i" "n\<lparr>node_gaps := gs'\<rparr>" "insert ?b D - {c}"] less.prems(1,2) next_c gs'(2)
        subset_trans [OF Diff_subset D, of "{c}"] by (auto simp: diff_less_mono2)
    moreover have "insert c (insert ?b D - {c}) = insert ?b D" using c(1) by blast
    ultimately show ?thesis
      using q gs'(1) by (subst process_receive_republish.simps) simp
  next
    case False
    from get(1) [OF this] show ?thesis
      using q gs by (subst process_receive_republish.simps) simp
  qed
qed

section \<open>Acceptance\<close>

lemma republish_keeps:
  assumes "node_wallets n = []"
  shows "\<exists>n'. republish_block P b r n = Some n' \<and> node_store n' = node_store n \<and> node_gaps n' = node_gaps n \<and>
    node_wallets n' = []"
  using assms by (simp add: republish_block_def confirm_broadcast_def publish_serialize_def make_publish_def
      Let_def fold_send_keeps)

lemma accept_step:
  assumes "node_wallets n = []" and "process P (of_nat now) (node_store n) b = Some (q, s)" and "ret_code q = progress"
  shows "\<exists>n'. node_store n' = s \<and> node_gaps n' = node_gaps n \<and> node_wallets n' = [] \<and>
    process_receive_republish P C now b r n =
      (case gap_cache_get (node_gaps n) (block_hash P b) of
         (None, gs) \<Rightarrow> Some (n'\<lparr>node_gaps := gs\<rparr>)
       | (Some c, gs) \<Rightarrow> process_receive_republish P C now c r (n'\<lparr>node_gaps := gs\<rparr>))"
proof -
  have "node_process_receive P C now b n = Some (q, n\<lparr>node_store := s\<rparr>)"
    using assms by (cases b) (simp_all add: node_process_receive_def call_observers_def send_visitor_def)
  moreover obtain n' where "republish_block P b r (n\<lparr>node_store := s\<rparr>) = Some n'" "node_store n' = s"
    "node_gaps n' = node_gaps n" "node_wallets n' = []"
    using republish_keeps [of "n\<lparr>node_store := s\<rparr>" P b r] assms(1) by auto
  ultimately show ?thesis
    using assms(3) by (subst process_receive_republish.simps) (auto split: option.splits prod.splits)
qed

lemma accept_walk:
  assumes "node_ok P (node_store n)" and "list_all (hash_ok P) (b # cs)" and "linked P (b # cs)"
    and "all_progress P (of_nat now) (node_store n) (b # cs) = Some s'"
    and "node_wallets n = []" and "parked P (set cs) (node_gaps n)"
  shows "\<exists>n'. process_receive_republish P C now b r n = Some n' \<and> node_store n' = s' \<and> node_gaps n' = []"
  using assms
proof (induction cs arbitrary: b n)
  case Nil
  then obtain q where "process P (of_nat now) (node_store n) b = Some (q, s')" "ret_code q = progress"
    by (auto simp: bind_eq_Some_conv split: if_splits)
  moreover have "node_gaps n = []" using Nil.prems(6) by (simp add: parked_empty)
  ultimately show ?case
    using accept_step [OF Nil.prems(5), of P now b q s' C r] by (auto simp: gap_cache_get_def gap_find_def)
next
  case (Cons c cs)
  obtain q s where s: "process P (of_nat now) (node_store n) b = Some (q, s)" "ret_code q = progress"
    "all_progress P (of_nat now) s (c # cs) = Some s'"
    using Cons.prems(4) unfolding all_progress.simps(2) [of _ _ _ b] by (auto simp: bind_eq_Some_conv split: if_splits)
  have ok: "node_ok P s" using progress_step(1) [OF Cons.prems(1) _ s(1,2)] Cons.prems(2) by simp
  have dist: "distinct (map (block_hash P) (b # c # cs))"
    by (rule all_progress_fresh(1) [OF Cons.prems(1,2,4)])
  have "inj_on previous (set (c # cs))"
    using chain_inj(1) [OF Cons.prems(3) dist, of "set (c # cs)"] by simp
  moreover have "previous c = block_hash P b" using Cons.prems(3) by simp
  ultimately obtain gs where gs: "gap_cache_get (node_gaps n) (block_hash P b) = (Some c, gs)"
    "parked P (set (c # cs) - {c}) gs"
    using parked_get(2) [OF Cons.prems(6)] by (metis list.set_intros(1))
  obtain n' where n': "node_store n' = s" "node_wallets n' = []"
    "process_receive_republish P C now b r n = process_receive_republish P C now c r (n'\<lparr>node_gaps := gs\<rparr>)"
    using accept_step [OF Cons.prems(5) s(1,2), of C r] gs(1) by auto
  have "set (c # cs) - {c} = set cs" using dist by auto
  then show ?case
    using Cons.IH [of "n'\<lparr>node_gaps := gs\<rparr>" c] ok Cons.prems(2,3) s(3) n' gs(2) by simp
qed

section \<open>Recovery\<close>

text \<open>Blocks given to the node one after the other, each at its time.\<close>

fun receive_blocks :: "platform \<Rightarrow> choices \<Rightarrow> (nat \<times> block) list \<Rightarrow> node \<Rightarrow> node exec" where
  "receive_blocks P C [] n = Some n"
| "receive_blocks P C ((now, b) # es) n = do {
     n \<leftarrow> process_receive_republish P C now b 0 n;
     receive_blocks P C es n
   }"

lemma receive_blocks_append:
  "receive_blocks P C (es @ fs) n = do { n \<leftarrow> receive_blocks P C es n; receive_blocks P C fs n }"
  by (induction P C es n rule: receive_blocks.induct) (auto split: Option.bind_splits)

lemma gaps_collect:
  assumes "chain_ahead P (node_store n) bs" and "length bs \<le> Suc gap_max" and "snd ` set es \<subseteq> set (tl bs)"
    and "D \<subseteq> set (tl bs)" and "parked P D (node_gaps n)"
  shows "\<exists>n'. receive_blocks P C es n = Some n' \<and> node_store n' = node_store n \<and>
    node_wallets n' = node_wallets n \<and> parked P (snd ` set es \<union> D) (node_gaps n')"
  using assms
proof (induction es arbitrary: n D)
  case (Cons e es)
  obtain t b where e: "e = (t, b)" by (cases e)
  then obtain i where i: "Suc i < length bs" "b = bs ! Suc i"
    using Cons.prems(3) by (auto simp: in_set_conv_nth nth_tl less_diff_conv)
  obtain n1 where n1: "process_receive_republish P C t b 0 n = Some n1" "node_store n1 = node_store n"
    "node_wallets n1 = node_wallets n" "parked P (insert b D) (node_gaps n1)"
    using gap_walk [OF Cons.prems(1,2) i(1) Cons.prems(4,5), of C t 0] i(2) by blast
  moreover have "snd ` set es \<subseteq> set (tl bs)" "insert b D \<subseteq> set (tl bs)" using Cons.prems(3,4) e by auto
  ultimately show ?case using Cons.IH [of n1 "insert b D"] Cons.prems(1,2) e by simp
qed simp

text \<open>
  C4. Blocks that arrive too early are not lost. Let the node have no wallets and an empty gap
  cache, and let \<open>b # cs\<close> be a chain of at most 129 blocks, sends and changes after the first
  one, that the ledger would accept in this order. If the blocks \<open>cs\<close> arrive in any order, each
  any number of times, and \<open>b\<close> arrives last, the loop of \<open>process_receive_republish\<close> ends after
  every arrival, and at the end the ledger is what it would be had the blocks arrived in
  order, and the cache is empty again.
\<close>

theorem out_of_order_blocks_recover:
  assumes "history_ok P es" and "ledger_history P t0 es = Some (node_store n)"
    and "node_wallets n = []" and "node_gaps n = []"
    and "linked P (b # cs)" and "list_all is_link cs" and "list_all (hash_ok P) (b # cs)"
    and "length cs \<le> gap_max" and "all_progress P (of_nat now) (node_store n) (b # cs) = Some s'"
    and "snd ` set arrivals = set cs"
  shows "\<exists>n'. receive_blocks P C (arrivals @ [(now, b)]) n = Some n' \<and> node_store n' = s' \<and> node_gaps n' = []"
proof -
  have ok: "node_ok P (node_store n)" by (rule ledger_history_ok [OF assms(1,2)])
  have "chain_ahead P (node_store n) (b # cs)"
    using ok assms(5,6) all_progress_fresh [OF ok assms(7,9)] by (simp add: chain_ahead_def node_ok_def)
  then obtain n1 where n1: "receive_blocks P C arrivals n = Some n1" "node_store n1 = node_store n"
    "node_wallets n1 = []" "parked P (set cs) (node_gaps n1)"
    using gaps_collect [of P n "b # cs" arrivals "{}" C] assms(3,4,8,10) by (auto simp: parked_empty)
  then show ?thesis
    using accept_walk [of P n1 b cs now s' C 0] ok assms(5,7,9) by (auto simp: receive_blocks_append)
qed

text \<open>A change arrives twice before the send it follows.\<close>

theorem out_of_order_blocks_recover_witness:
  "\<exists>s s' n'. ledger_history sample_platform 0 [] = Some s \<and>
     all_progress sample_platform 1 s [sample_send, sample_change] = Some s' \<and>
     receive_blocks sample_platform sample_choices [(0, sample_change), (1, sample_change), (1, sample_send)]
       (sample_node s) = Some n' \<and> node_store n' = s' \<and> node_gaps n' = []"
proof -
  let ?P = sample_platform
  obtain s where s: "ledger_history ?P 0 [] = Some s" "history_ok ?P []" "view s = genesis_view ?P 0"
    by (rule sample_genesis_history)
  note ok = ledger_history_inv(3) [OF s(2,1)]
  have "process_code ?P (view s) sample_send = progress" by (simp add: s(3) sample_defs genesis_amount_def)
  then have "accepts ?P 1 s sample_send (process ?P 1 s sample_send)"
    using process_accepts [OF ok sample_history_ok(2), of 1] by (simp add: movable_def)
  then obtain a s1 where s1: "process ?P 1 s sample_send = accepted a s1" "ledger_ok ?P s1"
    "ledger_step ?P 1 (view s) sample_send a (view s1)"
    by (rule accepts_ledger_ok [OF ok sample_history_ok(2)]) 
  have v1: "view s1 = sample_sent" using s1(3) by cases (auto simp: sample_sent_def s(3) sample_defs)
  have "process_code ?P (view s1) sample_change = progress" "movable (view s1) sample_change"
    by (simp_all add: v1 sample_sent_def sample_defs genesis_amount_def)
  then have "accepts ?P 1 s1 sample_change (process ?P 1 s1 sample_change)"
    using process_accepts [OF s1(2) sample_history_ok(3), of 1] by simp
  then obtain a2 s' where "process ?P 1 s1 sample_change = accepted a2 s'" by (auto simp: accepts_def)
  then have all: "all_progress ?P 1 s [sample_send, sample_change] = Some s'"
    using s1(1) by (simp add: accepted_def)
  show ?thesis
    using out_of_order_blocks_recover [of ?P "[]" 0 "sample_node s" sample_send "[sample_change]" 1 s'
        "[(0, sample_change), (1, sample_change)]" sample_choices] s(1,2) all sample_history_ok(2,3)
    by (simp add: sample_node_def sample_hashes is_link_def gap_max_def)
qed

end
