(* ===== verification/Bootstrap_Sync.thy ===== *)
theory Bootstrap_Sync
  imports Node_Props
begin

text \<open>
  \<open>block_synchronization\<close> of \<open>paper/node.cpp\<close>: blocks are handed to a target so that each comes
  after the blocks it depends on. Hashes whose blocks wait for a dependency are on a stack.
  The virtual functions \<open>synchronized\<close> and \<open>retrieve\<close> and the function object \<open>target\<close> are
  arguments; \<open>pull_synchronization\<close> and \<open>push_synchronization\<close> supply them.

  The loops have results of type \<open>'a exec option\<close>: \<open>None\<close> is a loop that does not end, \<open>Some None\<close>
  one that fails an assertion.
\<close>

section \<open>The algorithm\<close>

type_synonym hash_stack = "block_hash list"

definition add_dependency_hash ::
  "('s \<Rightarrow> block_hash \<Rightarrow> (bool \<times> 's) exec) \<Rightarrow> block_hash \<Rightarrow> bool \<times> 's \<times> hash_stack \<Rightarrow>
     (bool \<times> 's \<times> hash_stack) exec" where
  "add_dependency_hash synchronized hash_a = (\<lambda>(result, s, blocks_l). do {
     (done_l, s) \<leftarrow> synchronized s hash_a;
     Some (if \<not> done_l then (False, s, hash_a # blocks_l) else (result, s, blocks_l))
   })"

definition add_dependency ::
  "('s \<Rightarrow> block_hash \<Rightarrow> (bool \<times> 's) exec) \<Rightarrow> block \<Rightarrow> 's \<Rightarrow> hash_stack \<Rightarrow>
     (bool \<times> 's \<times> hash_stack) exec" where
  "add_dependency synchronized block_a s blocks_l =
     (case block_a of
        Send b \<Rightarrow> add_dependency_hash synchronized (send_previous (send_hashables b)) (True, s, blocks_l)
      | Receive b \<Rightarrow> do {
          (result, s, blocks_l) \<leftarrow>
            add_dependency_hash synchronized (receive_previous (receive_hashables b)) (True, s, blocks_l);
          if result
          then add_dependency_hash synchronized (receive_source (receive_hashables b)) (result, s, blocks_l)
          else Some (result, s, blocks_l)
        }
      | Open b \<Rightarrow> add_dependency_hash synchronized (open_source (open_hashables b)) (True, s, blocks_l)
      | Change b \<Rightarrow>
          add_dependency_hash synchronized (change_previous (change_hashables b)) (True, s, blocks_l))"

partial_function (option) fill_dependencies ::
  "('s \<Rightarrow> block_hash \<Rightarrow> block option exec) \<Rightarrow> ('s \<Rightarrow> block_hash \<Rightarrow> (bool \<times> 's) exec) \<Rightarrow>
     's \<Rightarrow> hash_stack \<Rightarrow> (bool \<times> 's \<times> hash_stack) exec option" where
  "fill_dependencies retrieve synchronized s blocks_l =
     (case blocks_l of
        [] \<Rightarrow> Some None
      | top_l # rest \<Rightarrow>
          (case retrieve s top_l of
             None \<Rightarrow> Some None
           | Some block_l \<Rightarrow>
               (case block_l of
                  None \<Rightarrow> Some (Some (True, s, blocks_l))
                | Some b \<Rightarrow>
                    (case add_dependency synchronized b s blocks_l of
                       None \<Rightarrow> Some None
                     | Some r \<Rightarrow>
                         if fst r then Some (Some (False, snd r))
                         else fill_dependencies retrieve synchronized (fst (snd r)) (snd (snd r))))))"

definition synchronize_one ::
  "('s \<Rightarrow> block_hash \<Rightarrow> block option exec) \<Rightarrow> ('s \<Rightarrow> block_hash \<Rightarrow> (bool \<times> 's) exec) \<Rightarrow>
     ('s \<Rightarrow> block \<Rightarrow> 's exec) \<Rightarrow> 's \<Rightarrow> hash_stack \<Rightarrow> (bool \<times> 's \<times> hash_stack) exec option" where
  "synchronize_one retrieve synchronized target s blocks_l =
     (case fill_dependencies retrieve synchronized s blocks_l of
        None \<Rightarrow> None
      | Some filled \<Rightarrow> Some (do {
          (result, s, blocks_l) \<leftarrow> filled;
          if \<not> result then
            case blocks_l of
              [] \<Rightarrow> None
            | top_l # rest \<Rightarrow> do {
                block_l \<leftarrow> retrieve s top_l;
                case block_l of
                  Some b \<Rightarrow> do { s \<leftarrow> target s b; Some (False, s, rest) }
                | None \<Rightarrow> Some (True, s, rest)
              }
          else Some (result, s, blocks_l)
        }))"

partial_function (option) synchronize_loop ::
  "('s \<Rightarrow> block_hash \<Rightarrow> block option exec) \<Rightarrow> ('s \<Rightarrow> block_hash \<Rightarrow> (bool \<times> 's) exec) \<Rightarrow>
     ('s \<Rightarrow> block \<Rightarrow> 's exec) \<Rightarrow> 's \<Rightarrow> hash_stack \<Rightarrow> (bool \<times> 's \<times> hash_stack) exec option" where
  "synchronize_loop retrieve synchronized target s blocks_l =
     (if blocks_l = [] then Some (Some (False, s, blocks_l))
      else
        (case synchronize_one retrieve synchronized target s blocks_l of
           None \<Rightarrow> None
         | Some one \<Rightarrow>
             (case one of
                None \<Rightarrow> Some None
              | Some r \<Rightarrow>
                  if fst r then Some (Some r)
                  else synchronize_loop retrieve synchronized target (fst (snd r)) (snd (snd r)))))"

definition synchronize ::
  "('s \<Rightarrow> block_hash \<Rightarrow> block option exec) \<Rightarrow> ('s \<Rightarrow> block_hash \<Rightarrow> (bool \<times> 's) exec) \<Rightarrow>
     ('s \<Rightarrow> block \<Rightarrow> 's exec) \<Rightarrow> 's \<Rightarrow> hash_stack \<Rightarrow> block_hash \<Rightarrow>
     (bool \<times> 's \<times> hash_stack) exec option" where
  "synchronize retrieve synchronized target s blocks_l hash_a =
     synchronize_loop retrieve synchronized target s (hash_a # blocks_l)"

section \<open>The tables of a bootstrap and the ledger\<close>

definition side_tables :: "block_store \<Rightarrow> table \<times> table" where
  "side_tables s = (unchecked_blocks s, unsynced_blocks s)"

lemma side_tables_update [simp]:
  "side_tables (account_put s a i) = side_tables s" "side_tables (frontier_put s h a) = side_tables s"
  "side_tables (pending_put s h r) = side_tables s" "side_tables (representation_put s a w) = side_tables s"
  "side_tables (s\<lparr>send_blocks := x\<rparr>) = side_tables s" "side_tables (s\<lparr>receive_blocks := x\<rparr>) = side_tables s"
  "side_tables (s\<lparr>open_blocks := x\<rparr>) = side_tables s" "side_tables (s\<lparr>change_blocks := x\<rparr>) = side_tables s"
  by (simp_all add: side_tables_def account_put_def frontier_put_def pending_put_def representation_put_def)

lemma side_tables_kept:
  "account_del s a = Some s' \<Longrightarrow> side_tables s' = side_tables s"
  "frontier_del s h = Some s' \<Longrightarrow> side_tables s' = side_tables s"
  "pending_del s h = Some s' \<Longrightarrow> side_tables s' = side_tables s"
  "checksum_put s p m c = Some s' \<Longrightarrow> side_tables s' = side_tables s"
  "block_put_raw s d h v = Some s' \<Longrightarrow> side_tables s' = side_tables s"
  by (auto simp: side_tables_def account_del_def frontier_del_def pending_del_def checksum_put_def assert_def
      bind_eq_Some_conv elim: block_put_raw.elims)

lemma side_tables_block_put: "block_put P s h b = Some s' \<Longrightarrow> side_tables s' = side_tables s"
  by (cases b) (auto simp: block_put_def fill_value_def bind_eq_Some_conv Let_def side_tables_kept
      dest!: side_tables_kept(5) split: if_splits prod.splits)

lemma side_tables_change_latest: "change_latest now s a h r w = Some s' \<Longrightarrow> side_tables s' = side_tables s"
  by (auto simp: change_latest_def checksum_update_def bind_eq_Some_conv Let_def
      dest!: side_tables_kept(1,4) split: if_splits option.splits)

lemma side_tables_move: "move_representation s x y w = Some s' \<Longrightarrow> side_tables s' = side_tables s"
  by (auto simp: move_representation_def bind_eq_Some_conv Let_def assert_def split: if_splits)

lemmas side_tables_ops = side_tables_kept(1-3) side_tables_block_put side_tables_change_latest side_tables_move

lemma process_side_tables:
  assumes "process P now s b = Some (r, s')"
  shows "side_tables s' = side_tables s"
proof (cases b)
  case (Send x)
  then show ?thesis using assms
    by (auto simp: process_def process_send_def rejected_def accepted_def bind_eq_Some_conv Let_def
        dest!: side_tables_ops split: if_split_asm)
next
  case (Receive x)
  consider "pending_get s (source b) = None" | "pending_get s (source b) = Some None"
    | i where "pending_get s (source b) = Some (Some i)" by (cases "pending_get s (source b)") auto
  then show ?thesis
  proof cases
    case (3 i)
    show ?thesis
    proof (cases "account_get s (rcv_destination i)")
      case (Some j)
      then show ?thesis using 3 assms Receive
        by (cases j) (auto simp: process_def process_receive_def rejected_def accepted_def bind_eq_Some_conv Let_def
            dest!: side_tables_ops split: if_split_asm)
    qed (use 3 assms Receive in \<open>auto simp: process_def process_receive_def rejected_def Let_def split: if_split_asm\<close>)
  qed (use assms Receive in \<open>auto simp: process_def process_receive_def rejected_def Let_def split: if_split_asm\<close>)
next
  case (Open x)
  consider "pending_get s (source b) = None" | "pending_get s (source b) = Some None"
    | i where "pending_get s (source b) = Some (Some i)" by (cases "pending_get s (source b)") auto
  then show ?thesis
  proof cases
    case (3 i)
    show ?thesis
    proof (cases "account_get s (rcv_destination i)")
      case (Some j)
      then show ?thesis using 3 assms Open
        by (cases j) (auto simp: process_def process_open_def rejected_def accepted_def bind_eq_Some_conv Let_def
            dest!: side_tables_ops split: if_split_asm)
    qed (use 3 assms Open in \<open>auto simp: process_def process_open_def rejected_def Let_def split: if_split_asm\<close>)
  qed (use assms Open in \<open>auto simp: process_def process_open_def rejected_def Let_def split: if_split_asm\<close>)
next
  case (Change x)
  then show ?thesis using assms
    by (auto simp: process_def process_change_def rejected_def accepted_def bind_eq_Some_conv Let_def
        dest!: side_tables_ops split: if_split_asm)
qed

lemma history_side_tables:
  assumes "ledger_history P t0 es = Some s"
  shows "unchecked_blocks s = mdb_empty" and "unsynced_blocks s = mdb_empty"
proof -
  have all: "process_all (process P) s1 es = Some s2 \<Longrightarrow> side_tables s2 = side_tables s1" for s1 s2
    by (induction "process P" s1 es rule: process_all.induct) (auto simp: bind_eq_Some_conv process_side_tables)
  obtain s0 s1 where s: "block_store_open empty_store = Some s0" "genesis_initialize P t0 s0 = Some s1"
    "process_all (process P) s1 es = Some s"
    using assms by (auto simp: ledger_history_def bind_eq_Some_conv)
  have "side_tables s0 = side_tables empty_store"
    using s(1) by (auto simp: block_store_open_def dest: side_tables_kept(4))
  moreover have "side_tables s1 = side_tables s0"
    using s(2) by (auto simp: genesis_initialize_def bind_eq_Some_conv assert_def Let_def
        dest!: side_tables_kept(4) side_tables_block_put split: if_splits)
  ultimately have "side_tables s = side_tables empty_store" using all [OF s(3)] by simp
  then show "unchecked_blocks s = mdb_empty" "unsynced_blocks s = mdb_empty"
    by (simp_all add: side_tables_def empty_store_def)
qed

lemma side_frame [simp]:
  "view (s\<lparr>unchecked_blocks := x\<rparr>) = view s" "view (s\<lparr>unsynced_blocks := x\<rparr>) = view s"
  "store_ok (s\<lparr>unchecked_blocks := x\<rparr>) = store_ok s" "store_ok (s\<lparr>unsynced_blocks := x\<rparr>) = store_ok s"
  "stored (s\<lparr>unchecked_blocks := x\<rparr>) = stored s" "stored (s\<lparr>unsynced_blocks := x\<rparr>) = stored s"
  by (simp_all add: view_def store_ok_def stored_def fun_eq_iff)

lemma side_frame_ok [simp]:
  "ledger_ok P (s\<lparr>unchecked_blocks := x\<rparr>) = ledger_ok P s" "ledger_ok P (s\<lparr>unsynced_blocks := x\<rparr>) = ledger_ok P s"
  "node_ok P (s\<lparr>unchecked_blocks := x\<rparr>) = node_ok P s" "node_ok P (s\<lparr>unsynced_blocks := x\<rparr>) = node_ok P s"
  by (simp_all add: ledger_ok_def node_ok_def)

section \<open>Dependencies\<close>

text \<open>The blocks that a block depends on, and stacks in which each hash is waited for by the next.\<close>

definition deps :: "block \<Rightarrow> block_hash list" where
  "deps b =
     (case b of
        Send x \<Rightarrow> [previous b]
      | Receive x \<Rightarrow> [previous b, source b]
      | Open x \<Rightarrow> [source b]
      | Change x \<Rightarrow> [previous b])"

fun dep_path :: "(block_hash \<Rightarrow> block option) \<Rightarrow> hash_stack \<Rightarrow> bool" where
  "dep_path m (x # y # st) \<longleftrightarrow> (\<exists>b. m y = Some b \<and> x \<in> set (deps b)) \<and> dep_path m (y # st)"
| "dep_path m st \<longleftrightarrow> True"

definition ranked :: "(block_hash \<Rightarrow> nat) \<Rightarrow> (block_hash \<Rightarrow> block option) \<Rightarrow> bool" where
  "ranked rank m \<longleftrightarrow> (\<forall>h b. m h = Some b \<longrightarrow> (\<forall>d\<in>set (deps b). rank d < rank h))"

lemma rankedD: "ranked rank m \<Longrightarrow> m h = Some b \<Longrightarrow> d \<in> set (deps b) \<Longrightarrow> rank d < rank h"
  by (simp add: ranked_def)

lemma dep_path_append:
  "dep_path m (p @ x # st) \<longleftrightarrow> dep_path m (p @ [x]) \<and> dep_path m (x # st)"
  by (induction m p rule: dep_path.induct) (auto simp: neq_Nil_conv split: list.splits)

lemma dep_path_sorted:
  assumes "ranked rank m" and "dep_path m st"
  shows "sorted_wrt (<) (map rank st)"
  using assms
proof (induction m st rule: dep_path.induct)
  case (1 m x y st)
  obtain b where "m y = Some b" "x \<in> set (deps b)" using 1(3) by auto
  then have "rank x < rank y" by (rule rankedD [OF 1(2)])
  moreover have "sorted_wrt (<) (map rank (y # st))" using 1 by simp
  ultimately show ?case by auto
qed auto

locale synchronization =
  fixes retrieve :: "'s \<Rightarrow> block_hash \<Rightarrow> block option exec"
    and synchronized :: "'s \<Rightarrow> block_hash \<Rightarrow> (bool \<times> 's) exec"
    and good :: "'s \<Rightarrow> bool" and table :: "'s \<Rightarrow> block_hash \<Rightarrow> block option"
    and has :: "'s \<Rightarrow> block_hash \<Rightarrow> bool" and mark :: "block_hash \<Rightarrow> 's \<Rightarrow> 's"
  assumes retrieve_table: "good s \<Longrightarrow> retrieve s h = Some (table s h)"
    and synchronized_has: "good s \<Longrightarrow> synchronized s h = Some (has s h, if has s h then s else mark h s)"
    and mark_good: "good s \<Longrightarrow> \<not> has s h \<Longrightarrow> good (mark h s)"
    and mark_table: "good s \<Longrightarrow> table (mark h s) = table s"
    and mark_has: "good s \<Longrightarrow> has s x \<Longrightarrow> has (mark h s) x"
begin

lemma add_dependency_find:
  "good s \<Longrightarrow> add_dependency synchronized b s st =
     Some (case find (\<lambda>d. \<not> has s d) (deps b) of
         None \<Rightarrow> (True, s, st)
       | Some d \<Rightarrow> (False, mark d s, d # st))"
  by (cases b) (auto simp: add_dependency_def add_dependency_hash_def deps_def synchronized_has)

text \<open>
  Filling the stack ends: it pushes a path of dependencies that are not synchronized, down to
  a block whose dependencies are, or to a hash without a block.
\<close>

lemma fill_dependencies_path:
  assumes "good s" and "ranked rank (table s)"
  shows "\<exists>res p. fill_dependencies retrieve synchronized s (h # st) = Some (Some (res, foldr mark p s, p @ h # st)) \<and>
    good (foldr mark p s) \<and> table (foldr mark p s) = table s \<and> dep_path (table s) (p @ [h]) \<and>
    (\<forall>x\<in>set p. \<not> has s x) \<and>
    (table s (hd (p @ [h])) = None \<longrightarrow> res) \<and>
    (\<forall>b. table s (hd (p @ [h])) = Some b \<longrightarrow> \<not> res \<and> (\<forall>d\<in>set (deps b). has (foldr mark p s) d))"
  using assms
proof (induction "rank h" arbitrary: h s st rule: less_induct)
  case less
  show ?case
  proof (cases "table s h")
    case None
    then have "fill_dependencies retrieve synchronized s (h # st) = Some (Some (True, s, h # st))"
      using less.prems by (subst fill_dependencies.simps) (simp add: retrieve_table)
    then show ?thesis using None less.prems by (intro exI [of _ True] exI [of _ "[]"]) simp
  next
    case (Some b)
    show ?thesis
    proof (cases "find (\<lambda>d. \<not> has s d) (deps b)")
      case None
      then have "\<forall>d\<in>set (deps b). has s d" by (simp add: find_None_iff)
      moreover have "fill_dependencies retrieve synchronized s (h # st) = Some (Some (False, s, h # st))"
        using None Some less.prems
        by (subst fill_dependencies.simps) (simp add: retrieve_table add_dependency_find)
      ultimately show ?thesis
        using Some less.prems by (intro exI [of _ False] exI [of _ "[]"]) simp
    next
      case (Some d)
      then have d: "d \<in> set (deps b)" "\<not> has s d" by (auto simp: find_Some_iff)
      note rank = rankedD [OF less.prems(2) \<open>table s h = Some b\<close> d(1)]
        and same = mark_table [OF less.prems(1), of d]
      have marked: "good (mark d s)" "ranked rank (table (mark d s))"
        using mark_good [OF less.prems(1) d(2)] less.prems(2) by (simp_all add: same)
      have "fill_dependencies retrieve synchronized s (h # st) =
          fill_dependencies retrieve synchronized (mark d s) (d # h # st)"
        using Some \<open>table s h = Some b\<close> less.prems
        by (subst fill_dependencies.simps) (simp add: retrieve_table add_dependency_find)
      moreover obtain res p where "fill_dependencies retrieve synchronized (mark d s) (d # h # st) =
          Some (Some (res, foldr mark p (mark d s), p @ d # h # st))"
        and p: "good (foldr mark p (mark d s))" "table (foldr mark p (mark d s)) = table s"
        "dep_path (table s) (p @ [d])" "\<forall>x\<in>set p. \<not> has (mark d s) x"
        "table s (hd (p @ [d])) = None \<longrightarrow> res"
        "\<forall>b. table s (hd (p @ [d])) = Some b \<longrightarrow> \<not> res \<and> (\<forall>d'\<in>set (deps b). has (foldr mark p (mark d s)) d')"
        using less.hyps [OF rank marked, of "h # st"] by (elim exE conjE) (simp only: same)
      moreover have "\<forall>x\<in>set (p @ [d]). \<not> has s x" using p(4) d(2) mark_has [OF less.prems(1)] by auto
      moreover have "dep_path (table s) ((p @ [d]) @ [h])"
        using p(3) d(1) \<open>table s h = Some b\<close> dep_path_append [of "table s" p d "[h]"] by simp
      moreover have "hd ((p @ [d]) @ [h]) = hd (p @ [d])" "foldr mark (p @ [d]) s = foldr mark p (mark d s)"
        by (cases p) simp_all
      ultimately show ?thesis
        by (intro exI [of _ res] exI [of _ "p @ [d]"]) (simp only: append.assoc append.simps simp_thms)
    qed
  qed
qed

end

end
