(* ===== verification/Bootstrap_Pull.thy ===== *)
theory Bootstrap_Pull
  imports Bootstrap_Sync
begin

text \<open>
  The end of a pull: the blocks that \<open>bulk_pull_client\<close> put into the table of unchecked blocks
  are processed, each after the blocks it depends on.
\<close>

section \<open>Synchronizing a pull\<close>

definition pull_retrieve :: "node \<Rightarrow> block_hash \<Rightarrow> block option exec" where
  "pull_retrieve n hash_a = unchecked_get (node_store n) hash_a"

definition pull_synchronized :: "node \<Rightarrow> block_hash \<Rightarrow> (bool \<times> node) exec" where
  "pull_synchronized n hash_a = Some (block_exists (node_store n) hash_a, n)"

definition pull_target :: "platform \<Rightarrow> choices \<Rightarrow> nat \<Rightarrow> node \<Rightarrow> block \<Rightarrow> node exec" where
  "pull_target P C now n block_a = do {
     (process_result, n) \<leftarrow> node_process_receive P C now block_a n;
     n \<leftarrow> (if ret_code process_result = fork then broadcast_confirm_req P block_a n else Some n);
     Some (n\<lparr>node_store := unchecked_del (node_store n) (block_hash P block_a)\<rparr>)
   }"

definition pull_first :: "node \<Rightarrow> block_hash" where
  "pull_first n =
     (let iterator = unchecked_begin (node_store n)
      in if iterator \<noteq> iterator_end then fst (the iterator) else 0)"

partial_function (option) process_end ::
  "platform \<Rightarrow> choices \<Rightarrow> nat \<Rightarrow> node \<Rightarrow> node exec option" where
  "process_end P C now n =
     (if uint256_is_zero (pull_first n) then Some (Some n)
      else
        (case synchronize pull_retrieve pull_synchronized (pull_target P C now) n [] (pull_first n) of
           None \<Rightarrow> None
         | Some synced \<Rightarrow>
             (case synced of
                None \<Rightarrow> Some None
              | Some r \<Rightarrow>
                  process_end P C now
                    (if fst r
                     then (fst (snd r))\<lparr>node_store :=
                       foldl unchecked_del (node_store (fst (snd r))) (snd (snd r))\<rparr>
                     else fst (snd r)))))"

section \<open>What one block does\<close>

definition pulled :: "node \<Rightarrow> block_hash \<Rightarrow> block option" where
  "pulled n h =
     (case mdb_get (unchecked_blocks (node_store n)) h of
        None \<Rightarrow> None
      | Some v \<Rightarrow> map_option fst (deserialize_block v))"

definition pull_ok :: "platform \<Rightarrow> table \<Rightarrow> node \<Rightarrow> bool" where
  "pull_ok P U n \<longleftrightarrow> node_ok P (node_store n) \<and> unsynced_blocks (node_store n) = U \<and>
     (\<forall>h v. mdb_get (unchecked_blocks (node_store n)) h = Some v \<longrightarrow>
        (\<exists>b. v = serialize_block b \<and> hash_ok P b \<and> block_hash P b = h))"

lemma pulled_unchecked:
  assumes "pull_ok P U n"
  shows "pulled n h = Some b \<longleftrightarrow> mdb_get (unchecked_blocks (node_store n)) h = Some (serialize_block b)"
    and "pulled n h = Some b \<Longrightarrow> hash_ok P b \<and> block_hash P b = h"
    and "pulled n h = None \<longleftrightarrow> mdb_get (unchecked_blocks (node_store n)) h = None"
proof -
  have read: "deserialize_block (serialize_block b) = Some (b, [])" for b by (simp add: deserialize_block_iff)
  have val: "\<exists>b. v = serialize_block b \<and> hash_ok P b \<and> block_hash P b = h"
    if "mdb_get (unchecked_blocks (node_store n)) h = Some v" for v
    using assms that by (simp add: pull_ok_def)
  show iff: "pulled n h = Some b \<longleftrightarrow> mdb_get (unchecked_blocks (node_store n)) h = Some (serialize_block b)"
    using val read by (cases "mdb_get (unchecked_blocks (node_store n)) h") (auto simp: pulled_def)
  show "pulled n h = Some b \<Longrightarrow> hash_ok P b \<and> block_hash P b = h"
    using iff val [of "serialize_block b"] read by (metis option.inject prod.inject)
  show "pulled n h = None \<longleftrightarrow> mdb_get (unchecked_blocks (node_store n)) h = None"
    using val read by (cases "mdb_get (unchecked_blocks (node_store n)) h") (auto simp: pulled_def)
qed

interpretation pull: synchronization pull_retrieve pull_synchronized "pull_ok P U" pulled
  "\<lambda>n h. block_exists (node_store n) h" "\<lambda>h n. n"
proof
  fix n h assume "pull_ok P U n"
  note t = pulled_unchecked [OF this]
  have "deserialize_block (serialize_block b) = Some (b, [])" for b by (simp add: deserialize_block_iff)
  then show "pull_retrieve n h = Some (pulled n h)"
    using t(1) [of h "the (pulled n h)"] t(3) [of h]
    by (cases "pulled n h") (simp_all add: pull_retrieve_def unchecked_get_def)
qed (simp_all add: pull_synchronized_def)

lemma conflicts_start_store:
  assumes "ledger_ok P (node_store n)" and "\<forall>ts. set (tally_order C ts) = set ts"
    and "conflicts_start P C now b action False n = Some n'"
  shows "node_store n' = node_store n"
proof (cases "map_of (node_roots n) (root b)")
  case None
  then have "block_exists (node_store n) (block_hash P b)"
    using assms(3) by (auto simp: conflicts_start_def make_election_def assert_def bind_eq_Some_conv split: if_splits)
  from conflicts_start_keeps [OF assms(1,2) this, of now action] assms(3) show ?thesis by auto
qed (use assms(3) in \<open>simp add: conflicts_start_def\<close>)

lemma send_visitor_store:
  assumes "ledger_ok P (node_store n)" and "\<forall>ts. set (tally_order C ts) = set ts"
    and "send_visitor P C now b n = Some n'"
  shows "node_store n' = node_store n"
  using assms(3) conflicts_start_store [OF assms(1,2)]
  by (cases b) (auto simp: send_visitor_def bind_eq_Some_conv split: if_splits)

lemma node_process_receive_store:
  assumes "node_ok P (node_store n)" and "hash_ok P b" and "\<forall>ts. set (tally_order C ts) = set ts"
    and "node_process_receive P C now b n = Some (r, n')"
  shows "process P (of_nat now) (node_store n) b = Some (r, node_store n')"
proof -
  obtain s where s: "process P (of_nat now) (node_store n) b = Some (r, s)"
    using assms(4) by (auto simp: node_process_receive_def bind_eq_Some_conv Let_def)
  have ok: "ledger_ok P (node_store (n\<lparr>node_store := s\<rparr>))"
    using process_node_ok [OF assms(1,2) s] by (simp add: node_ok_def)
  have "node_store n' = s"
    using assms(4) s conflicts_start_store [OF ok assms(3)] send_visitor_store [OF ok assms(3)]
    by (auto simp: node_process_receive_def bind_eq_Some_conv call_observers_def Let_def split: process_result.splits)
  then show ?thesis using s by simp
qed

lemma fold_send_always: "node_store (fold (\<lambda>i n. send_buffer bs (g i) r n) xs n) = node_store n"
  by (induction xs arbitrary: n) simp_all

text \<open>
  Blocks given to the abstract ledger one after the other, each when the blocks it depends on
  are there: one that fails a check changes nothing, one that passes is a step.
\<close>

definition deps_stored :: "ledger_view \<Rightarrow> block \<Rightarrow> bool" where
  "deps_stored v b \<longleftrightarrow> (\<forall>d\<in>set (deps b). blocks v d \<noteq> None)"

inductive sync_run :: "platform \<Rightarrow> uint64 \<Rightarrow> ledger_view \<Rightarrow> block list \<Rightarrow> ledger_view \<Rightarrow> bool"
  for P :: platform and now :: uint64 where
  sync_nil: "sync_run P now v [] v"
| sync_reject: "deps_stored v b \<Longrightarrow> process_code P v b \<noteq> progress \<Longrightarrow> sync_run P now v bs v' \<Longrightarrow>
    sync_run P now v (b # bs) v'"
| sync_accept: "deps_stored v b \<Longrightarrow> process_code P v b = progress \<Longrightarrow> ledger_step P now v b a v1 \<Longrightarrow>
    sync_run P now v1 bs v' \<Longrightarrow> sync_run P now v (b # bs) v'"

lemma sync_run_append:
  "sync_run P now v bs v1 \<Longrightarrow> sync_run P now v1 cs v' \<Longrightarrow> sync_run P now v (bs @ cs) v'"
  by (induction rule: sync_run.induct) (auto intro: sync_run.intros)

lemma sync_run_blocks:
  "sync_run P now v bs v' \<Longrightarrow> blocks v' h \<noteq> None \<Longrightarrow> blocks v h \<noteq> None \<or> h \<in> block_hash P ` set bs"
proof (induction rule: sync_run.induct)
  case (sync_accept v b a v1 bs v')
  then show ?case using step_view(1) [OF sync_accept(3)] by (auto split: if_splits)
qed auto

lemma pull_target_step:
  assumes ok: "pull_ok P U n" and order: "\<forall>ts. set (tally_order C ts) = set ts"
    and b: "pulled n h = Some b" and "deps_stored (view (node_store n)) b"
    and "pull_target P C now n b = Some n'"
  shows "pull_ok P U n'" and "pulled n' = (pulled n)(h := None)"
    and "sync_run P (of_nat now) (view (node_store n)) [b] (view (node_store n'))"
proof -
  let ?s = "node_store n"
  have h: "hash_ok P b" "block_hash P b = h" using pulled_unchecked(2) [OF ok b] by auto
  have node: "node_ok P ?s" using ok by (simp add: pull_ok_def)
  obtain r n1 n2 where n: "node_process_receive P C now b n = Some (r, n1)"
    "(if ret_code r = fork then broadcast_confirm_req P b n1 else Some n1) = Some n2"
    "n' = n2\<lparr>node_store := unchecked_del (node_store n2) h\<rparr>"
    using assms(5) by (auto simp: pull_target_def bind_eq_Some_conv simp flip: h(2))
  have "node_store n2 = node_store n1"
    using n(2) by (auto simp: broadcast_confirm_req_def bind_eq_Some_conv fold_send_always split: if_splits)
  note n1 = n(1) this n(3)
  have step: "process P (of_nat now) ?s b = Some (r, node_store n1)"
    by (rule node_process_receive_store [OF node h(1) order n1(1)])
  have table: "unchecked_blocks (node_store n') = mdb_remove (unchecked_blocks ?s) h"
    "unsynced_blocks (node_store n') = unsynced_blocks ?s"
    using process_side_tables [OF step] n1(2,3) by (simp_all add: side_tables_def unchecked_del_def)
  have view: "view (node_store n') = view (node_store n1)" "node_ok P (node_store n') = node_ok P (node_store n1)"
    using n1(2,3) by (simp_all add: unchecked_del_def)
  show "pull_ok P U n'"
    using ok table view process_node_ok [OF node h(1) step] by (auto simp: pull_ok_def split: if_splits)
  show "pulled n' = (pulled n)(h := None)" using table by (auto simp: pulled_def fun_eq_iff)
  show "sync_run P (of_nat now) (view ?s) [b] (view (node_store n'))"
  proof (cases "process_code P (view ?s) b = progress")
    case True
    moreover obtain a where "ledger_step P (of_nat now) (view ?s) b a (view (node_store n1))"
      using process_accepts [OF _ h(1) True, of "of_nat now"] node step
      by (auto simp: node_ok_def accepts_def accepted_def split: if_splits)
    ultimately show ?thesis using sync_accept [OF assms(4) _ _ sync_nil] by (simp add: view)
  next
    case False
    then have "node_store n1 = ?s"
      using process_rejects [OF _ False, of "of_nat now"] node step by (simp add: node_ok_def rejected_def)
    then show ?thesis using assms(4) False sync_nil unfolding view by (simp add: sync_reject)
  qed
qed

text \<open>
  When to process a block fails an assertion: a block that passes every check names the
  representative zero, or moves more weight than its representative has; or a block is a fork
  at a root that is not a block in the middle of a chain, as the root of every open block.
\<close>

definition names_zero :: "block \<Rightarrow> bool" where
  "names_zero b \<longleftrightarrow> (case b of Open x \<Rightarrow> representative b = 0 | Change x \<Rightarrow> representative b = 0 | _ \<Rightarrow> False)"

definition weight_missing :: "ledger_view \<Rightarrow> block \<Rightarrow> bool" where
  "weight_missing v b \<longleftrightarrow>
     (case b of
        Send x \<Rightarrow> False
      | Change x \<Rightarrow>
          (case mdb_get (heads v) (previous b) of
             None \<Rightarrow> False
           | Some a \<Rightarrow> weight_of (weights v) (sender_rep v a) < info_balance (the (mdb_get (infos v) a)))
      | _ \<Rightarrow>
          (case mdb_get (receivables v) (source b) of
             None \<Rightarrow> False
           | Some r \<Rightarrow> weight_of (weights v) (sender_rep v (rcv_source r)) < rcv_amount r))"

lemma movable_iff: "movable v b \<longleftrightarrow> \<not> names_zero b \<and> \<not> weight_missing v b"
  by (cases b) (auto simp: movable_def names_zero_def weight_missing_def not_le not_less split: option.splits)

definition process_fails :: "platform \<Rightarrow> ledger_view \<Rightarrow> block \<Rightarrow> bool" where
  "process_fails P v b \<longleftrightarrow>
     process_code P v b = progress \<and> names_zero b \<or> process_code P v b = progress \<and> weight_missing v b \<or>
     process_code P v b = fork \<and>
     (\<nexists>a i. account_is (blocks v) (root b) a \<and> a \<noteq> 0 \<and> mdb_get (infos v) a = Some i \<and> info_head i \<noteq> root b)"

lemma successor_forked:
  assumes "node_ok P s" and "account_is (blocks (view s)) h a" and "a \<noteq> 0"
    and "mdb_get (infos (view s)) a = Some i" and "info_head i \<noteq> h"
  shows "\<exists>c. successor s h = Some c \<and> block_exists s (block_hash P c)"
proof -
  have "store_ok s" using assms(1) ledger_okD(1) by (auto simp: node_ok_def)
  note ok = this block_exists_view [OF this]
  have "block_exists s h" using assms(2) by cases (simp_all add: ok(2))
  moreover have "ledger_account s h = Some a" by (rule ledger_account_correct [OF ok(1) assms(2,3)])
  moreover have "latest s a \<noteq> Some h" using assms(4,5) ok(1) by (simp add: latest_def store_simps)
  ultimately obtain c where "successor s h = Some c" "block_get s (block_hash P c) = Some (Some c)"
    using successor_next [OF assms(1)] by blast
  then show ?thesis using ok(1) by (auto simp: store_simps)
qed

lemma pull_target_fails:
  assumes "node_ok P (node_store n)" and "hash_ok P b" and "\<forall>ts. set (tally_order C ts) = set ts"
    and "pull_target P C now n b = None"
  shows "process_fails P (view (node_store n)) b"
proof (rule ccontr)
  let ?s = "node_store n"
  assume works: "\<not> process_fails P (view ?s) b"
  have ok: "ledger_ok P ?s" using assms(1) by (simp add: node_ok_def)
  show False
  proof (cases "process_code P (view ?s) b = progress")
    case True
    then have "movable (view ?s) b" using works by (simp add: process_fails_def movable_iff)
    then obtain a s' where s': "process P (of_nat now) ?s b = accepted a s'"
      "ledger_step P (of_nat now) (view ?s) b a (view s')"
      using process_accepts [OF ok assms(2) True, of "of_nat now"] by (auto simp: accepts_def)
    have "process P (of_nat now) ?s b = Some (\<lparr>ret_code = progress, ret_account = Some a\<rparr>, s')"
      using s'(1) by (simp add: accepted_def)
    then have "node_ok P s'" by (rule process_node_ok [OF assms(1,2)])
    then have ok': "ledger_ok P (node_store (n\<lparr>node_store := s'\<rparr>))" by (simp add: node_ok_def)
    have "block_exists (node_store (n\<lparr>node_store := s'\<rparr>)) (block_hash P b)"
      using step_view(1) [OF s'(2)] block_exists_view [OF ledger_okD(1) [OF ok']] by simp
    from conflicts_start_keeps [OF ok' assms(3) this, of now Process_confirmed]
    obtain n' where "conflicts_start P C now b Process_confirmed False (n\<lparr>node_store := s'\<rparr>) = Some n'" by blast
    then have "send_visitor P C now b (n\<lparr>node_store := s'\<rparr>) \<noteq> None" by (cases b) (simp_all add: send_visitor_def)
    then show False
      using assms(4) s'(1) by (auto simp: pull_target_def node_process_receive_def call_observers_def accepted_def)
  next
    case False
    note rejects = process_rejects [OF ok False, of "of_nat now"]
    show False
    proof (cases "process_code P (view ?s) b = fork")
      case True
      then obtain c where c: "successor ?s (root b) = Some c" "block_exists ?s (block_hash P c)"
        using works successor_forked [OF assms(1)] unfolding process_fails_def by blast
      obtain n' where "conflicts_start P C now c Process_confirmed False n = Some n'"
        using conflicts_start_keeps [OF ok assms(3) c(2), of now Process_confirmed] by blast
      then show False
        using assms(4) c(1) rejects True
        by (simp add: pull_target_def node_process_receive_def rejected_def broadcast_confirm_req_def
            confirm_req_serialize_def make_confirm_req_def)
    next
      case False
      then show False
        using assms(4) rejects \<open>process_code P (view ?s) b \<noteq> progress\<close>
        by (auto simp: pull_target_def node_process_receive_def rejected_def split: process_result.splits)
    qed
  qed
qed

section \<open>Synchronization\<close>

text \<open>
  The state of the stack: a path of dependencies of pulled blocks; what is waited for is not
  in the ledger.
\<close>

definition stack_ok :: "node \<Rightarrow> hash_stack \<Rightarrow> bool" where
  "stack_ok n st \<longleftrightarrow> dep_path (pulled n) st \<and> (\<forall>x\<in>set (tl st). pulled n x \<noteq> None) \<and>
     (\<forall>x\<in>set (butlast st). blocks (view (node_store n)) x = None)"

lemma in_tl: "y \<in> set (tl xs) \<Longrightarrow> y \<in> set xs"
  by (cases xs) auto

lemma foldr_id: "foldr (\<lambda>h n. n) p n = n"
  by (induction p) simp_all

lemma dep_path_cong:
  "\<forall>y\<in>set (tl st). m y = m' y \<Longrightarrow> dep_path m st = dep_path m' st"
  by (induction m st rule: dep_path.induct) auto

lemma dep_path_in: "dep_path m st \<Longrightarrow> \<forall>y\<in>set (tl st). m y \<noteq> None"
  by (induction m st rule: dep_path.induct) auto

lemma finite_pulled: "finite (dom (pulled n))"
proof (rule finite_subset)
  show "dom (pulled n) \<subseteq> fst ` set (mdb_entries (unchecked_blocks (node_store n)))"
    by (force simp: pulled_def mdb_get_iff dom_def split: option.splits)
qed simp

abbreviation pull_one :: "platform \<Rightarrow> choices \<Rightarrow> nat \<Rightarrow> node \<Rightarrow> hash_stack \<Rightarrow> (bool \<times> node \<times> hash_stack) exec option" where
  "pull_one P C now \<equiv> synchronize_one pull_retrieve pull_synchronized (pull_target P C now)"

text \<open>One step fills the stack and either hands over its top or is stuck at a missing block.\<close>

lemma pull_one_step:
  assumes ok: "pull_ok P U n" and order: "\<forall>ts. set (tally_order C ts) = set ts"
    and rank: "ranked rank (pulled n)" and st: "stack_ok n (h # rest)" and "pulled n h \<noteq> None"
  obtains (abort) x b where "pull_one P C now n (h # rest) = Some None"
    "pulled n x = Some b" "deps_stored (view (node_store n)) b" "pull_target P C now n b = None"
  | (stuck) x st where "pull_one P C now n (h # rest) = Some (Some (True, n, x # st))"
    "stack_ok n (x # st)" "st \<noteq> []" "pulled n x = None" "last st = last (h # rest)"
  | (step) x st b n' where "pull_one P C now n (h # rest) = Some (Some (False, n', st))"
    "pulled n x = Some b" "pull_ok P U n'" "pulled n' = (pulled n)(x := None)" "stack_ok n' st"
    "sync_run P (of_nat now) (view (node_store n)) [b] (view (node_store n'))"
    "set (h # rest) \<subseteq> insert x (set st)" "\<forall>y\<in>set st. pulled n' y \<noteq> None"
    "st = [] \<or> last st = last (h # rest)" "x \<notin> set st"
proof -
  let ?m = "pulled n" and ?v = "view (node_store n)"
  have s: "store_ok (node_store n)" using ok ledger_okD(1) by (auto simp: pull_ok_def node_ok_def)
  obtain res p where fill: "fill_dependencies pull_retrieve pull_synchronized n (h # rest) =
      Some (Some (res, n, p @ h # rest))"
    and p: "dep_path ?m (p @ [h])" "\<forall>x\<in>set p. blocks ?v x = None"
    and top_l: "?m (hd (p @ [h])) = None \<longrightarrow> res"
      "\<forall>b. ?m (hd (p @ [h])) = Some b \<longrightarrow> \<not> res \<and> (\<forall>d\<in>set (deps b). blocks ?v d \<noteq> None)"
    using pull.fill_dependencies_path [OF ok rank, of h rest]
    unfolding foldr_id block_exists_view [OF s] not_not by (elim exE conjE) (rule that; assumption)
  define x st' where "x = hd (p @ [h])" and "st' = tl (p @ [h]) @ rest"
  have full: "p @ h # rest = x # st'" by (cases p) (simp_all add: x_def st'_def)
  have path: "dep_path ?m (x # st')"
    using p(1) st dep_path_append [of ?m p h rest] by (simp add: stack_ok_def flip: full)
  have "set (butlast (x # st')) = set p \<union> set (butlast (h # rest))"
    by (simp add: butlast_append flip: full)
  then have st_ok: "stack_ok n (x # st')"
    using path dep_path_in [OF path] p(2) st by (auto simp: stack_ok_def)
  have last: "last (x # st') = last (h # rest)" by (simp flip: full)
  show thesis
  proof (cases "?m x")
    case None
    then have "p \<noteq> []" using assms(5) by (auto simp: x_def)
    then have "st' \<noteq> []" by (cases p) (auto simp: st'_def)
    then show thesis
      using stuck [of x st'] None top_l fill st_ok last by (simp add: synchronize_one_def full flip: x_def)
  next
    case (Some b)
    have b: "deps_stored ?v b" "\<not> res" using top_l Some by (simp_all add: deps_stored_def flip: x_def)
    have one: "pull_one P C now n (h # rest) = Some (do { n' \<leftarrow> pull_target P C now n b; Some (False, n', st') })"
      using fill b(2) Some pull.retrieve_table [OF ok, of x] by (simp add: synchronize_one_def full)
    show thesis
    proof (cases "pull_target P C now n b")
      case None
      then show thesis using abort [OF _ \<open>?m x = Some b\<close> b(1)] one by simp
    next
      case (Some n')
      note target = pull_target_step [OF ok order \<open>?m x = Some b\<close> b(1) Some]
      have "x \<notin> set st'" using dep_path_sorted [OF rank path] by auto
      moreover have "\<forall>y\<in>set st'. pulled n' y \<noteq> None"
        using calculation dep_path_in [OF path] by (auto simp: target(2))
      moreover have "stack_ok n' st'"
      proof -
        have "dep_path ?m st'" using path by (cases st') auto
        moreover have "pulled n' y = ?m y" if "y \<in> set st'" for y using that \<open>x \<notin> set st'\<close> by (auto simp: target(2))
        ultimately have "dep_path (pulled n') st'" using dep_path_cong [of st' "pulled n'" ?m] by (auto dest: in_tl)
        moreover have "blocks (view (node_store n')) y = None" if "y \<in> set (butlast st')" for y
        proof -
          have "y \<in> set (butlast (x # st'))" "y \<noteq> x" using that \<open>x \<notin> set st'\<close> by (auto dest: in_set_butlastD)
          then have "blocks ?v y = None" "y \<notin> block_hash P ` set [b]"
            using st_ok pulled_unchecked(2) [OF ok \<open>?m x = Some b\<close>] unfolding stack_ok_def by auto
          then show ?thesis using sync_run_blocks [OF target(3), of y] by blast
        qed
        ultimately show ?thesis using \<open>\<forall>y\<in>set st'. pulled n' y \<noteq> None\<close> by (auto simp: stack_ok_def dest: in_tl)
      qed
      moreover have "set (h # rest) \<subseteq> insert x (set st')" using full by (metis Un_upper2 list.simps(15) set_append)
      moreover have "st' = [] \<or> last st' = last (h # rest)" using last by (metis last_ConsR)
      ultimately show thesis using step [of n' st' x b] one Some \<open>?m x = Some b\<close> target by simp
    qed
  qed
qed

text \<open>
  What a sequence of steps has done: the blocks \<open>ps\<close> left the table of unchecked blocks and
  went through the ledger, each after its dependencies.
\<close>

definition pull_done :: "platform \<Rightarrow> table \<Rightarrow> nat \<Rightarrow> node \<Rightarrow> block list \<Rightarrow> node \<Rightarrow> bool" where
  "pull_done P U now n ps n' \<longleftrightarrow> pull_ok P U n' \<and>
     sync_run P (of_nat now) (view (node_store n)) ps (view (node_store n')) \<and>
     distinct (map (block_hash P) ps) \<and> (\<forall>b\<in>set ps. pulled n (block_hash P b) = Some b) \<and>
     (\<forall>h. pulled n' h = (if h \<in> block_hash P ` set ps then None else pulled n h))"

lemma pull_done_nil: "pull_ok P U n \<Longrightarrow> pull_done P U now n [] n"
  by (simp add: pull_done_def sync_nil)

lemma pull_done_append:
  assumes "pull_done P U now n ps n1" and "pull_done P U now n1 qs n2"
  shows "pull_done P U now n (ps @ qs) n2"
proof -
  note a = assms(1) [unfolded pull_done_def] and b = assms(2) [unfolded pull_done_def]
  have old: "pulled n (block_hash P q) = Some q \<and> block_hash P q \<notin> block_hash P ` set ps" if "q \<in> set qs" for q
    using a b that by (metis option.distinct(1))
  show ?thesis
    unfolding pull_done_def
  proof (intro conjI allI)
    show "sync_run P (of_nat now) (view (node_store n)) (ps @ qs) (view (node_store n2))"
      using a b sync_run_append by blast
    have "set (map (block_hash P) ps) \<inter> set (map (block_hash P) qs) = {}"
      using old unfolding set_map disjoint_iff by (metis imageE)
    then show "distinct (map (block_hash P) (ps @ qs))" using a b by simp
    show "\<forall>b\<in>set (ps @ qs). pulled n (block_hash P b) = Some b" using a old by auto
    show "pulled n2 h = (if h \<in> block_hash P ` set (ps @ qs) then None else pulled n h)" for h
      using a b by (simp add: image_Un)
  qed (use b in blast)
qed

lemma pull_done_one:
  assumes "pull_ok P U n" and "pulled n x = Some b" and "pull_ok P U n'" and "pulled n' = (pulled n)(x := None)"
    and "sync_run P (of_nat now) (view (node_store n)) [b] (view (node_store n'))"
  shows "pull_done P U now n [b] n'"
  using assms pulled_unchecked(2) [OF assms(1,2)] by (auto simp: pull_done_def)

text \<open>The same after blocks were given up too.\<close>

definition pull_outcome :: "platform \<Rightarrow> table \<Rightarrow> nat \<Rightarrow> node \<Rightarrow> block list \<Rightarrow> node \<Rightarrow> bool" where
  "pull_outcome P U now n ps n' \<longleftrightarrow> pull_ok P U n' \<and>
     sync_run P (of_nat now) (view (node_store n)) ps (view (node_store n')) \<and>
     distinct (map (block_hash P) ps) \<and> (\<forall>b\<in>set ps. pulled n (block_hash P b) = Some b) \<and>
     (\<forall>h b. pulled n' h = Some b \<longrightarrow> pulled n h = Some b \<and> h \<notin> block_hash P ` set ps)"

lemma pull_outcome_append:
  assumes "pull_outcome P U now n ps n1" and "pull_outcome P U now n1 qs n2"
  shows "pull_outcome P U now n (ps @ qs) n2"
proof -
  note a = assms(1) [unfolded pull_outcome_def] and b = assms(2) [unfolded pull_outcome_def]
  have old: "pulled n (block_hash P q) = Some q \<and> block_hash P q \<notin> block_hash P ` set ps" if "q \<in> set qs" for q
    using a b that by blast
  have "set (map (block_hash P) ps) \<inter> set (map (block_hash P) qs) = {}"
    using old unfolding set_map disjoint_iff by (metis imageE)
  then show ?thesis
    unfolding pull_outcome_def using a b old sync_run_append by (auto simp: image_Un)
qed

lemma pull_done_outcome: "pull_done P U now n ps n' \<Longrightarrow> pull_outcome P U now n ps n'"
  by (auto simp: pull_done_def pull_outcome_def split: if_splits)

text \<open>
  The only way the processing fails: after some blocks it comes to one whose dependencies are
  in the ledger, and to process that block fails an assertion.
\<close>

definition pull_fails :: "platform \<Rightarrow> table \<Rightarrow> nat \<Rightarrow> node \<Rightarrow> bool" where
  "pull_fails P U now n \<longleftrightarrow> (\<exists>ps n1 h b. pull_outcome P U now n ps n1 \<and> pulled n1 h = Some b \<and>
     deps_stored (view (node_store n1)) b \<and> process_fails P (view (node_store n1)) b)"

lemma pull_fails_here:
  assumes "pull_ok P U n" and "pulled n h = Some b" and "deps_stored (view (node_store n)) b"
    and "\<forall>ts. set (tally_order C ts) = set ts" and "pull_target P C now n b = None"
  shows "pull_fails P U now n"
proof -
  have "node_ok P (node_store n)" "hash_ok P b"
    using assms(1) pulled_unchecked(2) [OF assms(1,2)] by (simp_all add: pull_ok_def)
  then have "process_fails P (view (node_store n)) b" by (rule pull_target_fails [OF _ _ assms(4,5)])
  then show ?thesis
    unfolding pull_fails_def using pull_done_outcome [OF pull_done_nil [OF assms(1), of now]] assms(2,3) by blast
qed

lemma pull_fails_later:
  "pull_outcome P U now n ps n' \<Longrightarrow> pull_fails P U now n' \<Longrightarrow> pull_fails P U now n"
  unfolding pull_fails_def using pull_outcome_append by blast

lemma ranked_sub: "ranked rank m \<Longrightarrow> (\<And>h b. m' h = Some b \<Longrightarrow> m h = Some b) \<Longrightarrow> ranked rank m'"
  by (simp add: ranked_def)

lemma pull_loop:
  assumes "pull_ok P U n" and "\<forall>ts. set (tally_order C ts) = set ts" and "ranked rank (pulled n)"
    and "stack_ok n st" and "\<forall>x\<in>set st. pulled n x \<noteq> None"
  shows "\<exists>r. synchronize_loop pull_retrieve pull_synchronized (pull_target P C now) n st = Some r \<and>
    (r = None \<longrightarrow> pull_fails P U now n) \<and>
    (\<forall>res n' st'. r = Some (res, n', st') \<longrightarrow> (\<exists>ps. pull_done P U now n ps n' \<and>
      (if res then stack_ok n' st' \<and> tl st' \<noteq> [] \<and> pulled n' (hd st') = None \<and> last st' = last st
       else st' = [] \<and> set st \<subseteq> block_hash P ` set ps)))"
  using assms
proof (induction "card (dom (pulled n))" arbitrary: n st rule: less_induct)
  case less
  let ?loop = "synchronize_loop pull_retrieve pull_synchronized (pull_target P C now)"
  show ?case
  proof (cases st)
    case Nil
    then show ?thesis
      using pull_done_nil [OF less.prems(1), of now] by (subst synchronize_loop.simps) auto
  next
    case (Cons h rest)
    have h: "stack_ok n (h # rest)" "pulled n h \<noteq> None" using less.prems(4,5) Cons by simp_all
    from less.prems(1-3) h show ?thesis
    proof (cases rule: pull_one_step [where now = now])
      case abort
      then show ?thesis
        using pull_fails_here [OF less.prems(1) _ _ less.prems(2)] by (subst synchronize_loop.simps) (simp add: Cons)
    next
      case (stuck x st')
      then show ?thesis
        using pull_done_nil [OF less.prems(1), of now] Cons by (subst synchronize_loop.simps) auto
    next
      case (step x st' b n')
      have loop: "?loop n st = ?loop n' st'" using step(1) by (subst synchronize_loop.simps) (simp add: Cons)
      have one: "pull_done P U now n [b] n'" by (rule pull_done_one [OF less.prems(1) step(2-4,6)])
      have x: "block_hash P b = x" using pulled_unchecked(2) [OF less.prems(1) step(2)] by simp
      have "dom (pulled n') = dom (pulled n) - {x}" "x \<in> dom (pulled n)" using step(2,4) by auto
      then have "card (dom (pulled n')) < card (dom (pulled n))"
        using finite_pulled card_Diff1_less by metis
      moreover have "ranked rank (pulled n')"
        by (rule ranked_sub [OF less.prems(3)]) (use step(4) in \<open>auto split: if_splits\<close>)
      ultimately obtain r where r: "?loop n' st' = Some r" "r = None \<Longrightarrow> pull_fails P U now n'"
        "\<And>res n2 st2. r = Some (res, n2, st2) \<Longrightarrow> \<exists>ps. pull_done P U now n' ps n2 \<and>
          (if res then stack_ok n2 st2 \<and> tl st2 \<noteq> [] \<and> pulled n2 (hd st2) = None \<and> last st2 = last st'
           else st2 = [] \<and> set st' \<subseteq> block_hash P ` set ps)"
        using less.hyps [OF _ step(3) less.prems(2) _ step(5,8)] by blast
      have "\<exists>ps. pull_done P U now n ps n2 \<and>
          (if res then stack_ok n2 st2 \<and> tl st2 \<noteq> [] \<and> pulled n2 (hd st2) = None \<and> last st2 = last st
           else st2 = [] \<and> set st \<subseteq> block_hash P ` set ps)" if eq: "r = Some (res, n2, st2)" for res n2 st2
      proof -
        obtain ps where ps: "pull_done P U now n' ps n2"
          "if res then stack_ok n2 st2 \<and> tl st2 \<noteq> [] \<and> pulled n2 (hd st2) = None \<and> last st2 = last st'
           else st2 = [] \<and> set st' \<subseteq> block_hash P ` set ps"
          using r(3) [OF eq] by blast
        have "\<not> res" if "st' = []"
          using r(1) eq that by (subst (asm) synchronize_loop.simps) simp
        moreover have "set st \<subseteq> insert x (set st')" using step(7) Cons by simp
        ultimately show ?thesis
          using ps(2) pull_done_append [OF one ps(1)] step(9) x Cons
          by (intro exI [of _ "[b] @ ps"]) (cases res; force)
      qed
      moreover have "pull_fails P U now n" if "r = None"
        by (rule pull_fails_later [OF pull_done_outcome [OF one] r(2) [OF that]])
      ultimately show ?thesis using r(1) loop by auto
    qed
  qed
qed

section \<open>The end of a pull\<close>

lemma pull_first_eq:
  assumes "pull_ok P U n"
  shows "uint256_is_zero (pull_first n) \<longleftrightarrow> pulled n = (\<lambda>_. None)"
    and "\<not> uint256_is_zero (pull_first n) \<Longrightarrow> pulled n (pull_first n) \<noteq> None"
proof -
  let ?t = "unchecked_blocks (node_store n)"
  note t = pulled_unchecked [OF assms]
  show "uint256_is_zero (pull_first n) \<longleftrightarrow> pulled n = (\<lambda>_. None)"
  proof (cases "mdb_entries ?t")
    case Nil
    then show ?thesis
      using t(3) by (simp add: pull_first_def unchecked_begin_def iterator_begin_def mdb_first_def iterator_end_def
          uint256_is_zero_eq fun_eq_iff mdb_get_entries)
  next
    case (Cons e es)
    then have "mdb_get ?t (fst e) = Some (snd e)" by (simp add: mdb_get_entries)
    moreover have "pull_first n = fst e"
      using Cons by (simp add: pull_first_def unchecked_begin_def iterator_begin_def mdb_first_def iterator_end_def)
    moreover obtain b where "pulled n (fst e) = Some b" using t(3) [of "fst e"] calculation by auto
    ultimately show ?thesis
      using t(2) [of "fst e" b] by (auto simp: uint256_is_zero_eq hash_ok_def fun_eq_iff)
  qed
  show "\<not> uint256_is_zero (pull_first n) \<Longrightarrow> pulled n (pull_first n) \<noteq> None"
    using t(3) [of "pull_first n"]
    by (auto simp: pull_first_def unchecked_begin_def iterator_begin_def mdb_first_def iterator_end_def
        uint256_is_zero_eq mdb_get_entries split: list.splits if_splits)
qed

lemma unchecked_del_all:
  "mdb_get (unchecked_blocks (foldl unchecked_del s st)) h =
     (if h \<in> set st then None else mdb_get (unchecked_blocks s) h)"
  "unsynced_blocks (foldl unchecked_del s st) = unsynced_blocks s"
  "view (foldl unchecked_del s st) = view s" "node_ok P (foldl unchecked_del s st) = node_ok P s"
  by (induction st arbitrary: s) (auto simp: unchecked_del_def)

text \<open>Blocks that are given up: they wait for something that is not there.\<close>

lemma stuck_waits:
  assumes "stack_ok n st" and "y \<in> set (tl st)" and "pulled n y = Some b"
  shows "\<exists>d\<in>set (deps b). d \<in> set (butlast st)"
  using assms unfolding stack_ok_def
proof (elim conjE, induction "pulled n" st rule: dep_path.induct)
  case (1 x z st)
  then show ?case by (cases "y = z") auto
qed auto

text \<open>What a given-up block waits for does not come later.\<close>

lemma pull_waits:
  assumes "pull_outcome P U now n qs n'" and "d \<in> set (deps b)"
    and "blocks (view (node_store n)) d = None" and "pulled n d = None"
  shows "\<not> deps_stored (view (node_store n')) b"
proof -
  have run: "sync_run P (of_nat now) (view (node_store n)) qs (view (node_store n'))"
    and "\<forall>b\<in>set qs. pulled n (block_hash P b) = Some b" using assms(1) by (simp_all add: pull_outcome_def)
  then have "d \<notin> block_hash P ` set qs" using assms(4) by auto
  then have "blocks (view (node_store n')) d = None" using assms(3) sync_run_blocks [OF run, of d] by blast
  then show ?thesis using assms(2) by (auto simp: deps_stored_def)
qed

lemma pull_round:
  assumes "pull_ok P U n" and "\<forall>ts. set (tally_order C ts) = set ts" and "ranked rank (pulled n)"
    and "\<not> uint256_is_zero (pull_first n)"
  obtains (abort) "process_end P C now n = Some None" "pull_fails P U now n"
  | (next_l) n' ps where "process_end P C now n = process_end P C now n'" "pull_outcome P U now n ps n'"
    "pulled n' (pull_first n) = None"
    "\<And>h b. pulled n h = Some b \<Longrightarrow> b \<in> set ps \<or> pulled n' h = Some b \<or>
       (\<exists>d\<in>set (deps b). blocks (view (node_store n')) d = None \<and> pulled n' d = None)"
proof -
  let ?h = "pull_first n" and ?loop = "synchronize_loop pull_retrieve pull_synchronized (pull_target P C now)"
  have h: "pulled n ?h \<noteq> None" by (rule pull_first_eq(2) [OF assms(1,4)])
  then have st: "stack_ok n [?h]" "\<forall>x\<in>set [?h]. pulled n x \<noteq> None" by (simp_all add: stack_ok_def)
  obtain r where r: "?loop n [?h] = Some r" "r = None \<Longrightarrow> pull_fails P U now n"
    "\<And>res n' st'. r = Some (res, n', st') \<Longrightarrow> \<exists>ps. pull_done P U now n ps n' \<and>
      (if res then stack_ok n' st' \<and> tl st' \<noteq> [] \<and> pulled n' (hd st') = None \<and> last st' = last [?h]
       else st' = [] \<and> set [?h] \<subseteq> block_hash P ` set ps)"
    using pull_loop [OF assms(1-3) st, of now] by blast
  show thesis
  proof (cases r)
    case None
    then have "process_end P C now n = Some None"
      using r(1) assms(4) by (subst process_end.simps) (simp add: synchronize_def)
    then show thesis using r(2) [OF None] by (rule abort)
  next
    case (Some q)
    obtain res n1 st1 where q: "q = (res, n1, st1)" by (cases q)
    obtain ps where ps: "pull_done P U now n ps n1"
      and res: "if res then stack_ok n1 st1 \<and> tl st1 \<noteq> [] \<and> pulled n1 (hd st1) = None \<and> last st1 = last [?h]
       else st1 = [] \<and> set [?h] \<subseteq> block_hash P ` set ps"
      using r(3) Some q by blast
    define n' where "n' = (if res then n1\<lparr>node_store := foldl unchecked_del (node_store n1) st1\<rparr> else n1)"
    have eq: "process_end P C now n = process_end P C now n'"
      using r(1) Some q assms(4) by (subst process_end.simps) (simp add: synchronize_def n'_def)
    have n': "view (node_store n') = view (node_store n1)" "pull_ok P U n'"
      "\<And>h. pulled n' h = (if res \<and> h \<in> set st1 then None else pulled n1 h)"
      using ps by (auto simp: n'_def unchecked_del_all pull_ok_def pulled_def pull_done_def)
    note d = ps [unfolded pull_done_def]
    have "pull_outcome P U now n ps n'"
      using d n' by (auto simp: pull_outcome_def split: if_splits)
    moreover have "pulled n' ?h = None"
    proof (cases res)
      case True
      then have "st1 \<noteq> []" "last st1 = ?h" using res by auto
      then have "?h \<in> set st1" using last_in_set by metis
      then show ?thesis using True by (simp add: n'(3))
    next
      case False
      then have "?h \<in> block_hash P ` set ps" using res by simp
      then show ?thesis using d False by (simp add: n'(3))
    qed
    moreover have "b \<in> set ps \<or> pulled n' h = Some b \<or>
       (\<exists>d\<in>set (deps b). blocks (view (node_store n')) d = None \<and> pulled n' d = None)"
      if b: "pulled n h = Some b" for h b
    proof -
      have "b \<in> set ps" if "h \<in> block_hash P ` set ps" using d b that by auto
      moreover have "\<exists>d\<in>set (deps b). blocks (view (node_store n')) d = None \<and> pulled n' d = None"
        if "pulled n1 h = Some b" "res" "h \<in> set st1"
      proof -
        have st1: "stack_ok n1 st1" "pulled n1 (hd st1) = None" using res \<open>res\<close> by auto
        then have "h \<in> set (tl st1)" using that by (cases st1) auto
        from stuck_waits [OF st1(1) this that(1)] obtain d where "d \<in> set (deps b)" "d \<in> set (butlast st1)" by blast
        then show ?thesis using st1(1) \<open>res\<close> by (auto simp: n' stack_ok_def dest: in_set_butlastD)
      qed
      ultimately show ?thesis using d b by (auto simp: n'(3))
    qed
    ultimately show thesis using next_l [OF eq] by blast
  qed
qed

lemma process_end_pulls:
  assumes "pull_ok P U n" and "\<forall>ts. set (tally_order C ts) = set ts" and "ranked rank (pulled n)"
  shows "\<exists>r. process_end P C now n = Some r \<and> (r = None \<longrightarrow> pull_fails P U now n) \<and>
    (\<forall>n'. r = Some n' \<longrightarrow> pulled n' = (\<lambda>_. None) \<and>
      (\<exists>ps. pull_outcome P U now n ps n' \<and>
        (\<forall>h b. pulled n h = Some b \<longrightarrow> b \<in> set ps \<or> \<not> deps_stored (view (node_store n')) b)))"
  using assms
proof (induction "card (dom (pulled n))" arbitrary: n rule: less_induct)
  case less
  show ?case
  proof (cases "uint256_is_zero (pull_first n)")
    case True
    then have "process_end P C now n = Some (Some n)" by (subst process_end.simps) simp
    then show ?thesis
      using True less.prems(1) pull_first_eq(1) [OF less.prems(1)] sync_nil
      by (auto simp: pull_outcome_def intro!: exI [of _ "[]"])
  next
    case False
    from less.prems False show ?thesis
    proof (cases rule: pull_round [where now = now])
      case (next_l n' ps)
      note out = next_l(2) [unfolded pull_outcome_def]
      have sub: "pulled n h = Some b" if "pulled n' h = Some b" for h b using out that by blast
      have "dom (pulled n') \<subset> dom (pulled n)"
        using sub next_l(3) pull_first_eq(2) [OF less.prems(1) False] by blast
      then have less_card: "card (dom (pulled n')) < card (dom (pulled n))" by (rule psubset_card_mono [OF finite_pulled])
      have ok: "pull_ok P U n'" and ranks: "ranked rank (pulled n')"
        using out ranked_sub [OF less.prems(3) sub] by blast+
      obtain r where r: "process_end P C now n' = Some r" "r = None \<Longrightarrow> pull_fails P U now n'"
        "\<And>n2. r = Some n2 \<Longrightarrow> pulled n2 = (\<lambda>_. None) \<and> (\<exists>qs. pull_outcome P U now n' qs n2 \<and>
          (\<forall>h b. pulled n' h = Some b \<longrightarrow> b \<in> set qs \<or> \<not> deps_stored (view (node_store n2)) b))"
        using less.hyps [OF less_card ok less.prems(2) ranks] by blast
      have "pulled n2 = (\<lambda>_. None) \<and> (\<exists>qs. pull_outcome P U now n qs n2 \<and>
          (\<forall>h b. pulled n h = Some b \<longrightarrow> b \<in> set qs \<or> \<not> deps_stored (view (node_store n2)) b))"
        if r2: "r = Some n2" for n2
      proof -
        obtain qs where qs: "pulled n2 = (\<lambda>_. None)" "pull_outcome P U now n' qs n2"
          "\<And>h b. pulled n' h = Some b \<Longrightarrow> b \<in> set qs \<or> \<not> deps_stored (view (node_store n2)) b"
          using r(3) [OF r2] by blast
        have "b \<in> set (ps @ qs) \<or> \<not> deps_stored (view (node_store n2)) b" if "pulled n h = Some b" for h b
          using next_l(4) [OF that]
        proof (elim disjE bexE conjE)
          fix d assume "d \<in> set (deps b)" "blocks (view (node_store n')) d = None" "pulled n' d = None"
          then show ?thesis using pull_waits [OF qs(2)] by blast
        qed (use qs(3) [of h b] in auto)
        then show ?thesis using qs(1) pull_outcome_append [OF next_l(2) qs(2)] by blast
      qed
      moreover have "pull_fails P U now n" if "r = None"
        by (rule pull_fails_later [OF next_l(2) r(2) [OF that]])
      ultimately show ?thesis using r(1) next_l(1) by simp
    qed simp
  qed
qed

text \<open>The table of unchecked blocks after blocks were received.\<close>

definition with_unchecked :: "platform \<Rightarrow> block list \<Rightarrow> block_store \<Rightarrow> block_store" where
  "with_unchecked P bs s = foldl (\<lambda>s b. unchecked_put s (block_hash P b) b) s bs"

lemma find_inj_on: "inj_on f (set xs) \<Longrightarrow> find (\<lambda>x. f x = y) xs = Some x \<longleftrightarrow> x \<in> set xs \<and> f x = y"
  by (induction xs) (auto simp: inj_on_def)

lemma with_unchecked_table:
  "mdb_get (unchecked_blocks (with_unchecked P bs s)) h =
     (case find (\<lambda>b. block_hash P b = h) (rev bs) of
        None \<Rightarrow> mdb_get (unchecked_blocks s) h
      | Some b \<Rightarrow> Some (serialize_block b))"
  "view (with_unchecked P bs s) = view s" "node_ok P (with_unchecked P bs s) = node_ok P s"
  "unsynced_blocks (with_unchecked P bs s) = unsynced_blocks s"
proof -
  show "mdb_get (unchecked_blocks (with_unchecked P bs s)) h =
     (case find (\<lambda>b. block_hash P b = h) (rev bs) of
        None \<Rightarrow> mdb_get (unchecked_blocks s) h
      | Some b \<Rightarrow> Some (serialize_block b))"
    by (induction bs rule: rev_induct) (auto simp: with_unchecked_def unchecked_put_def)
  show "view (with_unchecked P bs s) = view s" "node_ok P (with_unchecked P bs s) = node_ok P s"
    "unsynced_blocks (with_unchecked P bs s) = unsynced_blocks s"
    by (induction bs rule: rev_induct) (simp_all add: with_unchecked_def unchecked_put_def)
qed

lemma process_end_blocks:
  fixes rank :: "block_hash \<Rightarrow> nat"
  assumes "node_ok P s" and "unchecked_blocks s = mdb_empty"
    and "node_store n = with_unchecked P bs s" and "list_all (hash_ok P) bs" and "inj_on (block_hash P) (set bs)"
    and "\<forall>b\<in>set bs. \<forall>d\<in>set (deps b). rank d < rank (block_hash P b)"
    and "\<forall>ts. set (tally_order C ts) = set ts"
  shows "\<exists>r. process_end P C now n = Some r \<and>
    (r = None \<longrightarrow> (\<exists>ps v b. sync_run P (of_nat now) (view s) ps v \<and> set ps \<subseteq> set bs \<and>
      b \<in> set bs \<and> deps_stored v b \<and> process_fails P v b)) \<and>
    (\<forall>n'. r = Some n' \<longrightarrow> unchecked_blocks (node_store n') = mdb_empty \<and>
      unsynced_blocks (node_store n') = unsynced_blocks s \<and> node_ok P (node_store n') \<and>
      (\<exists>ps. sync_run P (of_nat now) (view s) ps (view (node_store n')) \<and> distinct ps \<and> set ps \<subseteq> set bs \<and>
        (\<forall>b\<in>set bs. b \<in> set ps \<or> \<not> deps_stored (view (node_store n')) b)))"
proof -
  have table: "mdb_get (unchecked_blocks (node_store n)) h = Some v \<longleftrightarrow>
      (\<exists>b\<in>set bs. block_hash P b = h \<and> v = serialize_block b)" for h v
    using find_inj_on [of "block_hash P" "rev bs" h] assms(5)
    by (cases "find (\<lambda>b. block_hash P b = h) (rev bs)")
      (simp_all add: assms(3) with_unchecked_table assms(2), metis)
  have ok: "pull_ok P (unsynced_blocks s) n"
    using assms(1,4) by (auto simp: pull_ok_def assms(3) with_unchecked_table(3,4) list_all_iff table [unfolded assms(3)])
  have "serialize_block b = serialize_block c \<Longrightarrow> b = c" for b c
    using deserialize_block_iff [of "serialize_block b" b "[]"] deserialize_block_iff [of "serialize_block b" c "[]"]
    by simp
  then have pulled: "pulled n h = Some b \<longleftrightarrow> b \<in> set bs \<and> block_hash P b = h" for h b
    by (auto simp: pulled_unchecked(1) [OF ok] table)
  have "ranked rank (pulled n)" using assms(6) by (auto simp: ranked_def pulled)
  then obtain r where r: "process_end P C now n = Some r" "r = None \<Longrightarrow> pull_fails P (unsynced_blocks s) now n"
    "\<And>n'. r = Some n' \<Longrightarrow> pulled n' = (\<lambda>_. None) \<and> (\<exists>ps. pull_outcome P (unsynced_blocks s) now n ps n' \<and>
        (\<forall>h b. pulled n h = Some b \<longrightarrow> b \<in> set ps \<or> \<not> deps_stored (view (node_store n')) b))"
    using process_end_pulls [OF ok assms(7)] by blast
  have "unchecked_blocks (node_store n') = mdb_empty \<and>
      unsynced_blocks (node_store n') = unsynced_blocks s \<and> node_ok P (node_store n') \<and>
      (\<exists>ps. sync_run P (of_nat now) (view s) ps (view (node_store n')) \<and> distinct ps \<and> set ps \<subseteq> set bs \<and>
        (\<forall>b\<in>set bs. b \<in> set ps \<or> \<not> deps_stored (view (node_store n')) b))" if "r = Some n'" for n'
  proof -
    note all = r(3) [OF that]
    then have none: "pulled n' = (\<lambda>_. None)" by (rule conjunct1)
    obtain ps where ps: "pull_outcome P (unsynced_blocks s) now n ps n'"
      "\<forall>h b. pulled n h = Some b \<longrightarrow> b \<in> set ps \<or> \<not> deps_stored (view (node_store n')) b"
      using all by blast
    have "pull_ok P (unsynced_blocks s) n'" using ps(1) by (simp add: pull_outcome_def)
    then have "unsynced_blocks (node_store n') = unsynced_blocks s" "node_ok P (node_store n')"
      "unchecked_blocks (node_store n') = mdb_empty"
      using none by (simp add: pull_ok_def, simp add: pull_ok_def, intro mdb_eqI) (simp add: pulled_unchecked(3) fun_eq_iff)
    moreover have "sync_run P (of_nat now) (view s) ps (view (node_store n'))" "distinct ps" "set ps \<subseteq> set bs"
      using ps(1) by (auto simp: pull_outcome_def assms(3) with_unchecked_table(2) pulled distinct_map)
    moreover have "\<forall>b\<in>set bs. b \<in> set ps \<or> \<not> deps_stored (view (node_store n')) b"
      using ps(2) by (auto simp: pulled)
    ultimately show ?thesis by blast
  qed
  moreover have "\<exists>ps v b. sync_run P (of_nat now) (view s) ps v \<and> set ps \<subseteq> set bs \<and>
      b \<in> set bs \<and> deps_stored v b \<and> process_fails P v b" if "r = None"
  proof -
    obtain ps n1 h b where f: "pull_outcome P (unsynced_blocks s) now n ps n1" "pulled n1 h = Some b"
      "deps_stored (view (node_store n1)) b" "process_fails P (view (node_store n1)) b"
      using r(2) \<open>r = None\<close> unfolding pull_fails_def by blast
    have "b \<in> set bs" "sync_run P (of_nat now) (view s) ps (view (node_store n1))" "set ps \<subseteq> set bs"
      using f(1,2) by (auto simp: pull_outcome_def assms(3) with_unchecked_table(2) pulled)
    then show ?thesis using f(3,4) by blast
  qed
  ultimately show ?thesis using r(1) by blast
qed



end
