(* ===== verification/Ledger_Replay.thy ===== *)
theory Ledger_Replay
  imports Bootstrap_Pull
begin

text \<open>
  A ledger can be rebuilt block by block in any order that respects the dependencies: what a
  reachable ledger holds is accepted by every ledger that holds part of it and the blocks it
  depends on.
\<close>

section \<open>What else holds of reachable ledgers\<close>

text \<open>
  A send does not spend more than there was, an open block takes what was sent to its account,
  no block after the genesis names the representative zero, and blocks come after the blocks they depend on.
\<close>

definition replay_ok :: "platform \<Rightarrow> (block_hash \<Rightarrow> block option) \<Rightarrow> bool" where
  "replay_ok P m \<longleftrightarrow>
     (\<forall>h x w. m h = Some (Send x) \<longrightarrow> balance_is (genesis_account P) m (send_previous (send_hashables x)) w \<longrightarrow>
        send_balance (send_hashables x) \<le> w) \<and>
     (\<forall>h x y. m h = Some (Open x) \<longrightarrow> m (open_source (open_hashables x)) = Some (Send y) \<longrightarrow>
        send_destination (send_hashables y) = open_account (open_hashables x)) \<and>
     (\<forall>h b. m h = Some b \<longrightarrow> h \<noteq> genesis_hash P \<longrightarrow> \<not> names_zero b) \<and>
     (\<exists>rank. ranked rank m)"

lemma balance_amount_fun:
  assumes "m G = None"
  shows "balance_is G m h v \<Longrightarrow> balance_is G m h w \<Longrightarrow> v = w"
    and "amount_is G m h v \<Longrightarrow> amount_is G m h w \<Longrightarrow> v = w"
proof (induction arbitrary: w and w rule: balance_is_amount_is.inducts)
  case (bal_send h x)
  from bal_send(2,1) show ?case by cases simp_all
next
  case (bal_receive h x a p)
  from bal_receive(6,1) obtain a' p' where "w = p' + a'"
    "amount_is G m (receive_source (receive_hashables x)) a'" "balance_is G m (receive_previous (receive_hashables x)) p'"
    by cases simp_all
  then show ?case using bal_receive(3,5) by simp
next
  case (bal_open h x a)
  from bal_open(4,1) have "amount_is G m (open_source (open_hashables x)) w" by cases simp_all
  then show ?case by (rule bal_open(3))
next
  case (bal_change h x p)
  from bal_change(4,1) have "balance_is G m (change_previous (change_hashables x)) w" by cases simp_all
  then show ?case by (rule bal_change(3))
next
  case (amt_send h x p)
  from amt_send(4,1) assms obtain p' where "w = p' - send_balance (send_hashables x)"
    "balance_is G m (send_previous (send_hashables x)) p'"
    by cases simp_all
  then show ?case using amt_send(3) by simp
next
  case amt_genesis
  then show ?case using assms by cases simp_all
qed

lemma ranked_new:
  assumes "ranked rank m" and "\<And>k c. m k = Some c \<Longrightarrow> h \<notin> set (deps c)" and "h \<notin> set (deps b)"
  shows "\<exists>rank. ranked rank (m(h \<mapsto> b))"
proof -
  define n where "n = Suc (Max (insert 0 (rank ` set (deps b))))"
  have n: "rank d < n" if "d \<in> set (deps b)" for d
    unfolding n_def using that by (intro le_imp_less_Suc Max_ge) auto
  have "ranked (rank(h := n)) (m(h \<mapsto> b))"
    unfolding ranked_def
  proof (intro allI impI ballI)
    fix k c d assume c: "(m(h \<mapsto> b)) k = Some c" and d: "d \<in> set (deps c)"
    show "(rank(h := n)) d < (rank(h := n)) k"
    proof (cases "k = h")
      case True
      then show ?thesis using c d n assms(3) by auto
    next
      case False
      then show ?thesis using c d rankedD [OF assms(1)] assms(2) by auto
    qed
  qed
  then show ?thesis by blast
qed

lemma deps_cases: "d \<in> set (deps b) \<Longrightarrow> d = previous b \<and> \<not> is_Open b \<or> d = source b \<and> (is_Open b \<or> (\<exists>x. b = Receive x))"
  by (cases b) (auto simp: deps_def)

lemma deps_not_new:
  assumes "chain_ok P m" and "m k = Some c" and "m (block_hash P b) = None" and "hash_ok P b"
  shows "block_hash P b \<notin> set (deps c)"
  using previous_not_new [OF assms(1-3)] source_not_new [OF assms] assms(4) deps_cases [of "block_hash P b" c]
  by (auto simp: hash_ok_def)

text \<open>What a step takes from the ledger before it.\<close>

lemma step_deps:
  assumes "ledger_step P now v b a v'" and "ledger_inv P v"
  shows "deps_stored v b"
proof -
  note inv = ledger_invD [OF assms(2)]
  have head: "blocks v h \<noteq> None" if "mdb_get (heads v) h = Some c" for h c
    using heads_okD(5) [OF inv(3)] heads_info [OF inv(3) that] by metis
  have pend: "blocks v h \<noteq> None" if "mdb_get (receivables v) h = Some r" for h r
    using pending_stored [OF inv(4)] that by fastforce
  have info: "mdb_get (infos v) c = Some i \<Longrightarrow> info_head i = h \<Longrightarrow> blocks v h \<noteq> None" for c i h
    using heads_okD(5) [OF inv(3)] by blast
  from assms(1) show ?thesis
    using head pend info by cases (auto simp: deps_stored_def deps_def)
qed

lemma step_replay:
  assumes "ledger_step P now v b a v'" and "ledger_inv P v"
  shows "b = Send x \<Longrightarrow> \<exists>w. balance_is (genesis_account P) (blocks v) (previous b) w \<and>
      send_balance (send_hashables x) \<le> w"
    and "b = Open y \<Longrightarrow> \<exists>z. blocks v (source b) = Some (Send z) \<and>
      send_destination (send_hashables z) = open_account (open_hashables y)"
proof -
  note inv = ledger_invD [OF assms(2)]
  show "\<exists>w. balance_is (genesis_account P) (blocks v) (previous b) w \<and> send_balance (send_hashables x) \<le> w"
    if "b = Send x"
    using assms(1)
  proof cases
    case (step_send x' i)
    obtain j where "mdb_get (infos v) a = Some j" "info_head j = send_previous (send_hashables x')"
      by (rule heads_info [OF inv(3) step_send(4)])
    then show ?thesis using heads_okD(2) [OF inv(3), of a j] step_send that by auto
  qed (use that in auto)
  show "\<exists>z. blocks v (source b) = Some (Send z) \<and>
      send_destination (send_hashables z) = open_account (open_hashables y)" if "b = Open y"
    using assms(1)
  proof cases
    case (step_open x r j)
    obtain z where "blocks v (open_source (open_hashables x)) = Some (Send z)"
      "send_destination (send_hashables z) = rcv_destination r"
      by (rule pending_okD [OF inv(4) step_open(5)])
    then show ?thesis using that step_open by auto
  qed (use that in auto)
qed

lemma replay_step:
  assumes step: "ledger_step P now v b a v'" and inv: "ledger_inv P v" and hash: "hash_ok P b"
    and ok: "replay_ok P (blocks v)"
  shows "replay_ok P (blocks v')"
proof -
  let ?m = "blocks v" and ?h = "block_hash P b" and ?G = "genesis_account P"
  note chain = ledger_invD(1) [OF inv]
  have new: "?m ?h = None" using step by cases auto
  have self: "?h \<notin> set (deps b)" using step_deps [OF step inv] new by (auto simp: deps_stored_def)
  have m': "blocks v' = ?m(?h \<mapsto> b)" by (rule step_view(1) [OF step])
  have le: "?m \<subseteq>\<^sub>m blocks v'" unfolding m' using new by (rule map_le_new)
  have "?m ?G = None" using chain_okD(3) [OF chain, of ?G] by (cases "?m ?G") auto
  then have G: "blocks v' ?G = None" using hash by (auto simp: m' hash_ok_def)
  have same: "blocks v' d = ?m d" if "d \<in> set (deps c)" "?m k = Some c \<or> c = b" for c d k
    using that self deps_not_new [OF chain _ new hash] by (auto simp: m')
  show ?thesis
    unfolding replay_ok_def
  proof (intro conjI allI impI)
    fix k x w assume x: "blocks v' k = Some (Send x)" and w: "balance_is ?G (blocks v') (send_previous (send_hashables x)) w"
    have "\<exists>u. balance_is ?G ?m (send_previous (send_hashables x)) u \<and> send_balance (send_hashables x) \<le> u"
    proof (cases "k = ?h")
      case True
      then show ?thesis using step_replay(1) [OF step inv, of x] x by (simp add: m')
    next
      case False
      then have k: "?m k = Some (Send x)" using x by (simp add: m')
      then have "?m (send_previous (send_hashables x)) \<noteq> None" using chain_okD(4) [OF chain k] by simp
      then obtain u where "balance_is ?G ?m (send_previous (send_hashables x)) u"
        using ledger_invD(8) [OF inv] unfolding walks_ok_def by blast
      then show ?thesis using ok k unfolding replay_ok_def by blast
    qed
    then show "send_balance (send_hashables x) \<le> w"
      using balance_amount_fun(1) [OF G w] balance_amount_mono(1) [OF _ le] by blast
  next
    fix k x y assume x: "blocks v' k = Some (Open x)" "blocks v' (open_source (open_hashables x)) = Some (Send y)"
    have dep: "open_source (open_hashables x) \<in> set (deps (Open x))" by (simp add: deps_def)
    show "send_destination (send_hashables y) = open_account (open_hashables x)"
    proof (cases "k = ?h")
      case True
      then show ?thesis using step_replay(2) [OF step inv, of x] x same [OF dep] by (simp add: m' split: if_splits)
    next
      case False
      then have "?m k = Some (Open x)" using x(1) by (simp add: m')
      then show ?thesis using ok x(2) same [OF dep] unfolding replay_ok_def by metis
    qed
  next
    fix k c assume c: "blocks v' k = Some c" "k \<noteq> genesis_hash P"
    have "\<not> names_zero b" using step by cases (simp_all add: names_zero_def)
    then show "\<not> names_zero c" using c ok unfolding m' replay_ok_def by (auto split: if_splits)
  next
    show "\<exists>rank. ranked rank (blocks v')"
      unfolding m' using ok ranked_new [OF _ deps_not_new [OF chain _ new hash] self]
      by (auto simp: replay_ok_def)
  qed
qed

lemma replay_genesis:
  assumes "hash_ok P (Open (genesis_open P))"
  shows "replay_ok P (blocks (genesis_view P now))"
proof -
  let ?h = "genesis_hash P"
  have "ranked (\<lambda>k. if k = ?h then 1 else 0) ((\<lambda>k. None)(?h \<mapsto> Open (genesis_open P)))"
    using assms by (auto simp: ranked_def deps_def hash_ok_def genesis_hash_def split: if_splits)
  then show ?thesis by (auto simp: replay_ok_def genesis_view_def Let_def split: if_splits)
qed

text \<open>All of this holds of every reachable ledger.\<close>

definition replayable :: "platform \<Rightarrow> block_store \<Rightarrow> bool" where
  "replayable P s \<longleftrightarrow> node_ok P s \<and> replay_ok P (blocks (view s)) \<and>
     blocks (view s) (genesis_hash P) = Some (Open (genesis_open P))"

interpretation replay: block_processor "process P" "replayable P" "hash_ok P"
proof
  fix s s' b t r
  assume s: "replayable P s" and hash: "hash_ok P b" and p: "process P t s b = Some (r, s')"
  have node: "node_ok P s" "node_ok P s'" using s process_node_ok [OF _ hash p] by (auto simp: replayable_def)
  have "replay_ok P (blocks (view s')) \<and> blocks (view s') (genesis_hash P) = Some (Open (genesis_open P))"
  proof (cases "process_code P (view s) b = progress")
    case True
    then obtain a where "ledger_step P t (view s) b a (view s')"
      using process_accepts [OF _ hash True, of t] node p
      by (auto simp: node_ok_def accepts_def accepted_def split: if_splits)
    moreover from this have "blocks (view s) (block_hash P b) = None" by cases auto
    ultimately show ?thesis
      using replay_step hash s step_view(1) by (auto simp: replayable_def node_ok_def ledger_ok_def)
  next
    case False
    then show ?thesis using process_rejects [OF _ False, of t] node p s by (simp add: node_ok_def rejected_def replayable_def)
  qed
  then show "replayable P s'" using node by (simp add: replayable_def)
qed

lemma ledger_history_replayable:
  assumes "history_ok P es" and "ledger_history P now es = Some s"
  shows "replayable P s"
proof -
  obtain s0 s1 where s: "block_store_open empty_store = Some s0" "genesis_initialize P now s0 = Some s1"
    and ok: "node_ok P s1" and v: "view s1 = genesis_view P now"
    using genesis_initialize_ok [of P now] assms(1) unfolding history_ok_def by metis
  then have "process_all (process P) s1 es = Some s" using assms(2) by (simp add: ledger_history_def)
  moreover have "replayable P s1" using ok v replay_genesis assms(1) by (simp add: replayable_def history_ok_def genesis_view_def Let_def)
  ultimately show ?thesis using replay.process_all_ok [of P s1 es] assms(1) by (simp add: history_ok_def)
qed

section \<open>Part of a ledger accepts the rest of it\<close>

text \<open>The account of a stored block has an entry, and its chain starts with an open block.\<close>

lemma account_opened:
  assumes "chains_ok v" and "account_is (blocks v) h a"
  obtains k x where "blocks v k = Some (Open x)" and "open_account (open_hashables x) = a"
proof -
  obtain hs c where hs: "chain_is (blocks v) h hs" "\<forall>k\<in>set hs. account_is (blocks v) k c"
    using assms(1) chain_stored(2) [OF assms(2)] unfolding chains_ok_def by blast
  then have c: "c = a" using chain_is_stored [OF hs(1)] account_is_fun [OF _ assms(2)] by blast
  obtain x where x: "blocks v (last hs) = Some (Open x)" using chain_is_list(4) [OF hs(1)] by blast
  moreover have "account_is (blocks v) (last hs) a" using hs chain_is_list(1) c by simp
  ultimately have "open_account (open_hashables x) = a" using account_is_fun acc_open by blast
  then show ?thesis using that x by blast
qed

lemma account_known: "chains_ok v \<Longrightarrow> heads_ok P v \<Longrightarrow> account_is (blocks v) h a \<Longrightarrow> mdb_get (infos v) a \<noteq> None"
  using account_opened unfolding heads_ok_def by metis

lemma previous_account:
  assumes "chains_ok v" and "blocks v h = Some b" and "\<not> is_Open b" and "account_is (blocks v) (previous b) a"
  shows "account_is (blocks v) h a"
proof -
  obtain hs c where hs: "chain_is (blocks v) h hs" "\<forall>k\<in>set hs. account_is (blocks v) k c"
    using assms(1,2) unfolding chains_ok_def by blast
  from hs(1) assms(2,3) obtain ks where "hs = h # ks" "chain_is (blocks v) (previous b) ks" by cases auto
  then have "account_is (blocks v) h c" "account_is (blocks v) (previous b) c"
    using hs(2) chain_is_stored by auto
  then show ?thesis using account_is_fun [OF assms(4)] by blast
qed

text \<open>A ledger \<open>w\<close> that holds part of the ledger \<open>v\<close>, and a block that it lacks.\<close>

definition whole :: "platform \<Rightarrow> ledger_view \<Rightarrow> bool" where
  "whole P v \<longleftrightarrow> ledger_inv P v \<and> chains_ok v \<and> replay_ok P (blocks v) \<and> mdb_get (infos v) 0 = None"

definition part_of :: "platform \<Rightarrow> ledger_view \<Rightarrow> ledger_view \<Rightarrow> bool" where
  "part_of P v w \<longleftrightarrow>
     ledger_inv P w \<and> chains_ok w \<and> blocks w \<subseteq>\<^sub>m blocks v \<and> blocks w (genesis_hash P) \<noteq> None"

definition lacks :: "platform \<Rightarrow> ledger_view \<Rightarrow> ledger_view \<Rightarrow> block_hash \<Rightarrow> block \<Rightarrow> bool" where
  "lacks P v w h b \<longleftrightarrow> whole P v \<and> part_of P v w \<and> blocks v h = Some b \<and> blocks w h = None \<and> deps_stored w b"

lemma lacks_previous:
  assumes "lacks P v w h b" and "\<not> is_Open b"
  obtains a i where "mdb_get (heads w) (previous b) = Some a" and "mdb_get (infos w) a = Some i"
    and "info_head i = previous b" and "account_is (blocks v) h a" and "a \<noteq> 0"
proof -
  have all: "ledger_inv P v" "chains_ok v" "mdb_get (infos v) 0 = None" "ledger_inv P w" "chains_ok w"
    "blocks w \<subseteq>\<^sub>m blocks v" "blocks v h = Some b" "blocks w h = None" "deps_stored w b"
    using assms(1) by (simp_all add: lacks_def whole_def part_of_def)
  note v = ledger_invD [OF all(1)] and w = ledger_invD [OF all(4)]
  have prev: "blocks w (previous b) \<noteq> None" using all(9) assms(2) by (cases b) (auto simp: deps_stored_def deps_def)
  have "previous b \<noteq> 0" using prev chain_okD(2) [OF w(1)] by (metis not_None_eq)
  have "previous c \<noteq> previous b" if "blocks w k = Some c" for k c
    using that v(2) map_le_Some [OF all(6) that] all(7,8) \<open>previous b \<noteq> 0\<close> unfolding no_fork_def by (metis option.distinct(1))
  then have "mdb_get (heads w) (previous b) \<noteq> None" using all(5) prev unfolding chains_ok_def by (metis not_None_eq)
  then obtain a where a: "mdb_get (heads w) (previous b) = Some a" by blast
  obtain i where i: "mdb_get (infos w) a = Some i" "info_head i = previous b" by (rule heads_info [OF w(3) a])
  have "account_is (blocks v) (previous b) a"
    using account_is_mono [OF heads_okD(3) [OF w(3) i(1)] all(6)] i(2) by simp
  then have "account_is (blocks v) h a" by (rule previous_account [OF all(2,7) assms(2)])
  moreover have "a \<noteq> 0" using account_known [OF all(2) v(3) calculation] all(3) by auto
  ultimately show ?thesis using that a i by blast
qed

lemma lacks_signed:
  assumes "lacks P v w h b" and "account_is (blocks v) h a"
  shows "block_hash P b = h" and "\<not> validate_message P a h (signature_of b)"
proof -
  have all: "ledger_inv P v" "blocks v h = Some b" "blocks w h = None" "blocks w (genesis_hash P) \<noteq> None"
    using assms(1) by (simp_all add: lacks_def whole_def part_of_def)
  then show "block_hash P b = h" using chain_okD(1) ledger_invD(1) by blast
  have "h \<noteq> genesis_hash P" using all(3,4) by auto
  then show "\<not> validate_message P a h (signature_of b)"
    using ledger_invD(7) [OF all(1)] all(2) account_is_fun [OF assms(2)] unfolding signed_ok_def by blast
qed

lemma lacks_source:
  assumes "lacks P v w h b" and "is_Open b \<or> (\<exists>x. b = Receive x)"
  obtains y r where "blocks v (source b) = Some (Send y)" and "blocks w (source b) = Some (Send y)"
    and "mdb_get (receivables w) (source b) = Some r" and "rcv_destination r = send_destination (send_hashables y)"
proof -
  have all: "ledger_inv P v" "ledger_inv P w" "blocks w \<subseteq>\<^sub>m blocks v" "blocks v h = Some b" "blocks w h = None"
    "deps_stored w b"
    using assms(1) by (simp_all add: lacks_def whole_def part_of_def)
  note v = ledger_invD [OF all(1)] and w = ledger_invD [OF all(2)]
  obtain c where c: "blocks w (source b) = Some c"
    using all(6) assms(2) by (cases b) (auto simp: deps_stored_def deps_def)
  then have src: "blocks v (source b) = Some c" "source b \<noteq> 0" "source b \<noteq> genesis_account P"
    using map_le_Some [OF all(3)] chain_okD(2,3) [OF w(1)] by blast+
  obtain u a where "balance_is (genesis_account P) (blocks v) h u" "account_is (blocks v) h a"
    using v(8) all(4) unfolding walks_ok_def by blast
  note walks = this
  have "\<exists>y. c = Send y"
  proof (cases b)
    case (Receive x)
    from walks(2) show ?thesis using all(4) src(1) Receive by cases simp_all
  next
    case (Open x)
    from walks(1) obtain n where "amount_is (genesis_account P) (blocks v) (source b) n"
      using all(4) Open by cases simp_all
    then show ?thesis using src(1,3) by cases auto
  qed (use assms(2) in auto)
  then obtain y where y: "c = Send y" by blast
  have "source d \<noteq> source b" if "blocks w k = Some d" for k d
    using that v(2) map_le_Some [OF all(3) that] all(4,5) src(2) unfolding no_fork_def by (metis option.distinct(1))
  then have "mdb_get (receivables w) (source b) \<noteq> None"
    using w(4) c y unfolding pending_ok_def by blast
  then obtain r where r: "mdb_get (receivables w) (source b) = Some r" by blast
  then have "rcv_destination r = send_destination (send_hashables y)"
    using pending_okD [OF w(4) r] c y by (metis block.inject(1) option.inject)
  then show ?thesis using that src(1) c y r by blast
qed

lemma replay_progress:
  assumes lacks: "lacks P v w h b"
  shows "process_code P w b = progress"
proof -
  have all: "ledger_inv P v" "chains_ok v" "replay_ok P (blocks v)" "ledger_inv P w" "chains_ok w"
    "blocks w \<subseteq>\<^sub>m blocks v" "blocks v h = Some b" "blocks w h = None" "deps_stored w b"
    using lacks by (simp_all add: lacks_def whole_def part_of_def)
  note v = ledger_invD [OF all(1)] and w = ledger_invD [OF all(4)]
  obtain c where "account_is (blocks v) h c" using v(8) all(7) unfolding walks_ok_def by blast
  note hash = lacks_signed(1) [OF lacks this]
  show ?thesis
  proof (cases b)
    case (Send x)
    obtain a i where a: "mdb_get (heads w) (previous b) = Some a" "mdb_get (infos w) a = Some i"
      "info_head i = previous b" "account_is (blocks v) h a" "a \<noteq> 0"
      using lacks_previous [OF lacks] Send by auto
    have bal: "balance_is (genesis_account P) (blocks v) (previous b) (info_balance i)"
      using balance_amount_mono(1) [OF heads_okD(2) [OF w(3) a(2)] all(6)] a(3) by simp
    then have "send_balance (send_hashables x) \<le> info_balance i"
      using all(3,7) Send unfolding replay_ok_def by simp
    moreover have "blocks w (previous b) \<noteq> None" using heads_okD(5) [OF w(3) a(2)] a(3) by simp
    ultimately show ?thesis
      using a lacks_signed(2) [OF lacks a(4)] all(8) hash Send
      by (simp add: process_code_def follows_code_def Let_def not_less)
  next
    case (Change x)
    obtain a i where a: "mdb_get (heads w) (previous b) = Some a" "mdb_get (infos w) a = Some i"
      "info_head i = previous b" "account_is (blocks v) h a" "a \<noteq> 0"
      using lacks_previous [OF lacks] Change by auto
    have "blocks w (previous b) \<noteq> None" using heads_okD(5) [OF w(3) a(2)] a(3) by simp
    then show ?thesis
      using a lacks_signed(2) [OF lacks a(4)] all(8) hash Change
      by (simp add: process_code_def follows_code_def Let_def)
  next
    case (Receive x)
    obtain a i where a: "mdb_get (infos w) a = Some i" "info_head i = previous b" "account_is (blocks v) h a"
      by (rule lacks_previous [OF lacks]) (use Receive in \<open>auto intro: that\<close>)
    obtain y r where y: "blocks v (source b) = Some (Send y)" "blocks w (source b) = Some (Send y)"
      "mdb_get (receivables w) (source b) = Some r" "rcv_destination r = send_destination (send_hashables y)"
      using lacks_source [OF lacks] Receive by auto
    have "account_is (blocks v) h (send_destination (send_hashables y))"
      using acc_receive [of "blocks v" h x y] all(7) y(1) Receive by simp
    then have "rcv_destination r = a" using account_is_fun [OF a(3)] y(4) by simp
    then show ?thesis
      using a y lacks_signed(2) [OF lacks a(3)] all(8) hash Receive
      by (simp add: process_code_def takes_code_def Let_def)
  next
    case (Open x)
    obtain y r where y: "blocks v (source b) = Some (Send y)" "blocks w (source b) = Some (Send y)"
      "mdb_get (receivables w) (source b) = Some r" "rcv_destination r = send_destination (send_hashables y)"
      using lacks_source [OF lacks] Open by auto
    have acc: "account_is (blocks v) h (open_account (open_hashables x))" using all(7) Open by (simp add: acc_open)
    have dest: "rcv_destination r = open_account (open_hashables x)"
      using all(3,7) y Open unfolding replay_ok_def by simp
    have "mdb_get (infos w) (open_account (open_hashables x)) = None"
    proof (rule ccontr)
      assume "mdb_get (infos w) (open_account (open_hashables x)) \<noteq> None"
      then obtain i where "mdb_get (infos w) (open_account (open_hashables x)) = Some i" by blast
      then have "account_is (blocks w) (info_head i) (open_account (open_hashables x))" by (rule heads_okD(3) [OF w(3)])
      then obtain k z where "blocks w k = Some (Open z)" "open_account (open_hashables z) = open_account (open_hashables x)"
        by (rule account_opened [OF all(5)])
      then show False
        using v(2) map_le_Some [OF all(6)] all(7,8) Open unfolding no_fork_def by (metis option.distinct(1))
    qed
    then show ?thesis
      using y dest lacks_signed(2) [OF lacks acc] all(8) hash Open
      by (simp add: process_code_def takes_code_def Let_def)
  qed
qed

section \<open>Rebuilding a ledger\<close>

lemma step_previous:
  assumes "ledger_step P now v b a v'" and "ledger_inv P v"
  shows "is_Open b \<or> (blocks v (previous b) \<noteq> None \<and> mdb_get (heads v) (previous b) = Some a)"
proof -
  have "mdb_get (infos v) c = Some i \<Longrightarrow> info_head i = h \<Longrightarrow> mdb_get (heads v) h = Some c" for c i h
    using heads_okD(1) [OF ledger_invD(3) [OF assms(2)]] by blast
  note info = this
  from assms(1) show ?thesis using info step_deps [OF assms] by cases (auto simp: deps_stored_def deps_def)
qed

lemma step_part:
  assumes "whole P v" and "part_of P v w" and "blocks v (block_hash P b) = Some b" and "ledger_step P now w b a w'"
  shows "part_of P v w'"
proof -
  have v: "ledger_inv P v" and w: "ledger_inv P w" "chains_ok w" "blocks w \<subseteq>\<^sub>m blocks v"
    "blocks w (genesis_hash P) \<noteq> None"
    using assms(1,2) by (simp_all add: whole_def part_of_def)
  have hash: "hash_ok P b" using chain_okD(2,3) [OF ledger_invD(1) [OF v] assms(3)] by (simp add: hash_ok_def)
  have inv: "ledger_inv P w'" by (rule ledger_step_inv [OF assms(4) w(1) hash])
  have new: "blocks w (block_hash P b) = None" using assms(4) by cases auto
  have "chains_ok w'"
    by (rule step_chains_ok [OF w(2) ledger_invD(3) [OF w(1)] assms(4) new step_previous [OF assms(4) w(1)] ledger_invD(3) [OF inv]])
  moreover have "blocks w' = (blocks w)(block_hash P b \<mapsto> b)" by (rule step_view(1) [OF assms(4)])
  then have "blocks w' \<subseteq>\<^sub>m blocks v" "blocks w' (genesis_hash P) \<noteq> None"
    using w(3,4) assms(3) by (auto simp: map_le_def)
  ultimately show ?thesis using inv by (simp add: part_of_def)
qed

text \<open>Blocks of the ledger that come after their dependencies are all in the ledger afterwards.\<close>

lemma sync_run_part:
  assumes "sync_run P now w bs w'" and "whole P v" and "part_of P v w"
    and "\<forall>b\<in>set bs. blocks v (block_hash P b) = Some b"
  shows "part_of P v w' \<and> blocks w \<subseteq>\<^sub>m blocks w' \<and> (\<forall>b\<in>set bs. blocks w' (block_hash P b) \<noteq> None)"
  using assms(1,3,4)
proof (induction rule: sync_run.induct)
  case (sync_reject w b bs w')
  have "blocks w (block_hash P b) \<noteq> None"
    using replay_progress [of P v w "block_hash P b" b] sync_reject(1,2,5,6) assms(2) by (auto simp: lacks_def)
  then show ?case using sync_reject by (auto dest: map_le_Some)
next
  case (sync_accept w b a w1 bs w')
  have b: "blocks v (block_hash P b) = Some b" using sync_accept(7) by simp
  have "part_of P v w1" by (rule step_part [OF assms(2) sync_accept(6) b sync_accept(3)])
  then have IH: "part_of P v w'" "blocks w1 \<subseteq>\<^sub>m blocks w'" "\<forall>b\<in>set bs. blocks w' (block_hash P b) \<noteq> None"
    using sync_accept(5,7) by simp_all
  have m: "blocks w1 = (blocks w)(block_hash P b \<mapsto> b)" by (rule step_view(1) [OF sync_accept(3)])
  have "blocks w (block_hash P b) = None" using sync_accept(3) by cases auto
  then have "blocks w \<subseteq>\<^sub>m blocks w1" unfolding m by (rule map_le_new)
  moreover have "blocks w' (block_hash P b) \<noteq> None" using map_le_Some [OF IH(2), of "block_hash P b" b] m by simp
  ultimately show ?case using IH map_le_trans by auto
qed simp

definition genesis_in :: "platform \<Rightarrow> ledger_view \<Rightarrow> bool" where
  "genesis_in P v \<longleftrightarrow> genesis_account P \<noteq> 0 \<and> blocks v (genesis_hash P) = Some (Open (genesis_open P))"

lemma deps_whole:
  assumes "whole P v" and "blocks v h = Some b" and "genesis_in P v"
    and "h \<noteq> genesis_hash P" and "d \<in> set (deps b)"
  shows "blocks v d \<noteq> None"
proof -
  note inv = ledger_invD [of P v]
  have v: "ledger_inv P v" using assms(1) by (simp add: whole_def)
  show ?thesis
    using deps_cases [OF assms(5)]
  proof
    assume "d = previous b \<and> \<not> is_Open b"
    then show ?thesis using chain_okD(4) [OF inv(1) [OF v] assms(2)] by auto
  next
    assume d: "d = source b \<and> (is_Open b \<or> (\<exists>x. b = Receive x))"
    obtain u a where w: "balance_is (genesis_account P) (blocks v) h u" "account_is (blocks v) h a"
      using inv(8) [OF v] assms(2) unfolding walks_ok_def by blast
    show ?thesis
    proof (cases b)
      case (Receive x)
      from w(2) show ?thesis using d assms(2) Receive by cases simp_all
    next
      case (Open x)
      from w(1) obtain n where "amount_is (genesis_account P) (blocks v) d n"
        using d assms(2) Open by cases simp_all
      moreover have "d \<noteq> genesis_account P"
      proof
        assume "d = genesis_account P"
        then have "source b = source (Open (genesis_open P))" "source b \<noteq> 0"
          using d assms(3) by (auto simp: genesis_in_def)
        then show False using inv(2) [OF v] assms(2-4) unfolding no_fork_def genesis_in_def by blast
      qed
      ultimately show ?thesis by cases auto
    qed (use d in auto)
  qed
qed

text \<open>
  All that a ledger lacks is there once every missing block was given to it or still waits for
  another one.
\<close>

lemma rebuilt:
  assumes "whole P v" and "part_of P v w'" and "genesis_in P v"
    and "\<And>h b. blocks v h = Some b \<Longrightarrow> blocks w' h \<noteq> None \<or> \<not> deps_stored w' b"
  shows "blocks w' = blocks v"
proof -
  obtain rank where rank: "ranked rank (blocks v)" using assms(1) by (auto simp: whole_def replay_ok_def)
  have "blocks w' h \<noteq> None" if "blocks v h = Some b" for h b
    using that
  proof (induction "rank h" arbitrary: h b rule: less_induct)
    case less
    show ?case
    proof (cases "h = genesis_hash P")
      case True
      then show ?thesis using assms(2) by (simp add: part_of_def)
    next
      case False
      have "blocks w' d \<noteq> None" if "d \<in> set (deps b)" for d
        using less.hyps [OF rankedD [OF rank less.prems that]] deps_whole [OF assms(1) less.prems assms(3) False that] by blast
      then show ?thesis using assms(4) [OF less.prems] by (auto simp: deps_stored_def)
    qed
  qed
  moreover have "blocks w' h = blocks v h" if "blocks w' h \<noteq> None" for h
    using that assms(2) map_le_Some by (fastforce simp: part_of_def)
  ultimately show ?thesis by (intro ext) (metis not_None_eq)
qed

section \<open>The blocks determine the accounts\<close>

lemma rep_is_fun: "rep_is m h r \<Longrightarrow> rep_is m h q \<Longrightarrow> r = q"
proof (induction arbitrary: q rule: rep_is.induct)
  case (rep_send h x r)
  from rep_send.prems rep_send.hyps(1) have "rep_is m (send_previous (send_hashables x)) q" by cases simp_all
  then show ?case by (rule rep_send.IH)
next
  case (rep_receive h x r)
  from rep_receive.prems rep_receive.hyps(1) have "rep_is m (receive_previous (receive_hashables x)) q" by cases simp_all
  then show ?case by (rule rep_receive.IH)
next
  case (rep_open h x)
  from rep_open.prems rep_open.hyps show ?case by cases simp_all
next
  case (rep_change h x)
  from rep_change.prems rep_change.hyps show ?case by cases simp_all
qed

text \<open>What an entry says of an account, apart from the time of its last change.\<close>

definition account_state :: "account_info \<Rightarrow> block_hash \<times> block_hash \<times> uint128_t" where
  "account_state i = (info_head i, info_rep_block i, info_balance i)"

lemma same_blocks_infos:
  assumes "ledger_inv P v" and "chains_ok v" and "ledger_inv P w" and "chains_ok w" and "blocks w = blocks v"
    and i: "mdb_get (infos v) a = Some i"
  shows "\<exists>j. mdb_get (infos w) a = Some j \<and> account_state j = account_state i"
proof -
  note v = ledger_invD [OF assms(1)] and w = ledger_invD [OF assms(3)]
  note h = heads_okD [OF v(3) i]
  have "previous c \<noteq> info_head i" if "blocks w k = Some c" for k c
    using that h(1) v(3) assms(5) unfolding heads_ok_def by metis
  then obtain c where c: "mdb_get (heads w) (info_head i) = Some c"
    using assms(4,5) h(5) unfolding chains_ok_def by (metis not_None_eq)
  obtain j where j: "mdb_get (infos w) c = Some j" "info_head j = info_head i" by (rule heads_info [OF w(3) c])
  note k = heads_okD [OF w(3) j(1), unfolded j(2) assms(5)]
  have "c = a" by (rule account_is_fun [OF k(3) h(3)])
  moreover have "blocks v (genesis_account P) = None"
    using chain_okD(3) [OF v(1), of "genesis_account P"] by (cases "blocks v (genesis_account P)") auto
  then have "info_balance j = info_balance i" by (rule balance_amount_fun(1) [OF _ k(2) h(2)])
  moreover have "info_rep_block j = info_rep_block i" by (rule rep_is_fun [OF k(4) h(4)])
  ultimately show ?thesis using j by (simp add: account_state_def)
qed

lemma same_blocks_accounts:
  assumes "ledger_inv P v" and "chains_ok v" and "ledger_inv P w" and "chains_ok w" and "blocks w = blocks v"
  shows "map_option account_state (mdb_get (infos w) a) = map_option account_state (mdb_get (infos v) a)"
proof (cases "mdb_get (infos v) a")
  case None
  have "mdb_get (infos w) a = None"
    using same_blocks_infos [OF assms(3,4,1,2) assms(5) [symmetric], of a] None by (cases "mdb_get (infos w) a") auto
  then show ?thesis using None by simp
next
  case (Some i)
  then show ?thesis using same_blocks_infos [OF assms Some] by auto
qed

lemma same_blocks_pending:
  assumes "ledger_inv P v" and "ledger_inv P w" and "blocks w = blocks v"
    and r: "mdb_get (receivables v) h = Some r"
  shows "mdb_get (receivables w) h = Some r"
proof -
  note v = ledger_invD [OF assms(1)] and w = ledger_invD [OF assms(2)]
  have "blocks v (genesis_account P) = None"
    using chain_okD(3) [OF v(1), of "genesis_account P"] by (cases "blocks v (genesis_account P)") auto
  then have amount: "x = y" if "amount_is (genesis_account P) (blocks v) h x" "amount_is (genesis_account P) (blocks v) h y" for x y
    using that by (rule balance_amount_fun(2))
  from v(4) r obtain x where x: "blocks v h = Some (Send x)" "send_destination (send_hashables x) = rcv_destination r"
    "amount_is (genesis_account P) (blocks v) h (rcv_amount r)" "account_is (blocks v) h (rcv_source r)"
    "\<And>k b. blocks v k = Some b \<Longrightarrow> source b \<noteq> h"
    by (rule pending_okD) (rule that; assumption)
  then obtain q where q: "mdb_get (receivables w) h = Some q"
    using w(4) assms(3) unfolding pending_ok_def by (metis not_None_eq)
  from w(4) q obtain y where "blocks v h = Some (Send y)" "send_destination (send_hashables y) = rcv_destination q"
    "amount_is (genesis_account P) (blocks v) h (rcv_amount q)" "account_is (blocks v) h (rcv_source q)"
    by (rule pending_okD [where v = w, unfolded assms(3)]) (rule that; assumption)
  then have "q = r"
    using x amount account_is_fun by (intro receivable.equality) auto
  then show ?thesis using q by simp
qed

lemma same_blocks_receivables:
  assumes "ledger_inv P v" and "ledger_inv P w" and "blocks w = blocks v"
  shows "receivables w = receivables v"
proof (rule mdb_eqI)
  fix h
  show "mdb_get (receivables w) h = mdb_get (receivables v) h"
    using same_blocks_pending [OF assms, of h] same_blocks_pending [OF assms(2,1) assms(3) [symmetric], of h]
    by (cases "mdb_get (receivables v) h"; cases "mdb_get (receivables w) h") auto
qed

text \<open>
  C6. What a node knows of the accounts does not depend on the order in which blocks arrived:
  two reachable stores with the same blocks agree on the head, the balance and the block of the
  representative of every account, and on every pending amount.
\<close>

theorem same_blocks_same_accounts:
  assumes "history_ok P es" and "ledger_history P t0 es = Some s"
    and "history_ok P es'" and "ledger_history P t1 es' = Some s'"
    and "\<forall>k. block_get s' k = block_get s k"
  shows "\<exists>i i'. account_get s a = Some i \<and> account_get s' a = Some i' \<and>
      map_option account_state i' = map_option account_state i \<and> pending_get s' h = pending_get s h"
proof -
  note v = ledger_history_inv [OF assms(1,2)] and w = ledger_history_inv [OF assms(3,4)]
  have blocks: "blocks (view s') = blocks (view s)" using assms(5) by (simp add: view_def blocks_of_def fun_eq_iff)
  show ?thesis
    using same_blocks_accounts [OF v(2,5) w(2,5) blocks, of a] same_blocks_receivables [OF v(2) w(2) blocks] v(1) w(1)
    by (simp add: store_simps)
qed

text \<open>
  The genesis account sends one unit to account 5 and names account 7 as its representative;
  account 5 takes the unit up and represents itself.
\<close>

definition sample_tip_block :: send_block where
  "sample_tip_block =
     make_send sample_platform 0xD0B060 5 (genesis_amount - 1) paper_test_account paper_test_account 0"

definition sample_move_block :: change_block where
  "sample_move_block = make_change sample_platform 0xFE0050 7 paper_test_account paper_test_account 0"

definition sample_take_block :: open_block where
  "sample_take_block =
     \<lparr>open_hashables = \<lparr>open_source = 0xFE0050, open_representative = 5, open_account = 5\<rparr>,
      open_signature = 5, open_work = 0\<rparr>"

lemma sample_tip [simp]:
  "send_hashables sample_tip_block = \<lparr>send_previous = 0xD0B060, send_destination = 5, send_balance = genesis_amount - 1\<rparr>"
  "send_signature sample_tip_block = ucast paper_test_account"
  "change_hashables sample_move_block = \<lparr>change_previous = 0xFE0050, change_representative = 7\<rparr>"
  "change_signature sample_move_block = ucast paper_test_account"
  "open_hashables sample_take_block = \<lparr>open_source = 0xFE0050, open_representative = 5, open_account = 5\<rparr>"
  "open_signature sample_take_block = 5"
  by (simp_all add: sample_tip_block_def sample_move_block_def sample_take_block_def make_send_def make_change_def
      sign_message_def sample_platform_def Let_def)

lemma sample_tip_hashes:
  "block_hash sample_platform (Send sample_tip_block) = 0xFE0050"
  "block_hash sample_platform (Change sample_move_block) = 0x70040"
  "block_hash sample_platform (Open sample_take_block) = 0x50060"
  by (simp_all add: sample_hash_simps genesis_amount_def)

lemma sample_tip_ok:
  "hash_ok sample_platform (Send sample_tip_block)" "hash_ok sample_platform (Change sample_move_block)"
  "hash_ok sample_platform (Open sample_take_block)"
  by (simp_all add: hash_ok_def sample_tip_hashes paper_test_account_def)

lemma sample_accounts:
  "paper_test_account \<noteq> 0" "paper_test_account \<noteq> 5" "paper_test_account \<noteq> 7"
  "5 \<noteq> paper_test_account" "7 \<noteq> paper_test_account"
  by (simp_all add: paper_test_account_def)

lemmas sample_tip_defs = genesis_view_def sample_genesis_hash Ledger_Spec.extend_def set_latest_def Let_def
  sample_tip_hashes sample_validate process_code_def follows_code_def takes_code_def movable_def
  sender_rep_def rep_account_def weight_of_def sample_accounts

definition sample_tipped :: ledger_view where
  "sample_tipped =
     (Ledger_Spec.extend sample_platform 1 (Send sample_tip_block) paper_test_account 0xD0B060 (genesis_amount - 1)
        (genesis_view sample_platform 0))
       \<lparr>receivables := mdb_put mdb_empty 0xFE0050
          \<lparr>rcv_source = paper_test_account, rcv_amount = 1, rcv_destination = 5\<rparr>\<rparr>"

lemma sample_tipped_history:
  obtains s where "ledger_history sample_platform 0 [(1, Send sample_tip_block)] = Some s"
    and "history_ok sample_platform [(1, Send sample_tip_block)]" and "view s = sample_tipped"
proof -
  obtain s where s: "ledger_history sample_platform 0 [] = Some s"
    "history_ok sample_platform []" "view s = genesis_view sample_platform 0"
    by (rule sample_genesis_history)
  have code: "process_code sample_platform (view s) (Send sample_tip_block) = progress"
    by (simp add: s(3) sample_tip_defs genesis_amount_def)
  obtain s' a where s': "ledger_history sample_platform 0 ([] @ [(1, Send sample_tip_block)]) = Some s'"
    "history_ok sample_platform ([] @ [(1, Send sample_tip_block)])"
    "ledger_step sample_platform 1 (view s) (Send sample_tip_block) a (view s')"
    by (rule history_extend [OF s(2,1) sample_tip_ok(1) code]) (simp add: movable_def)
  have "view s' = sample_tipped"
    using s'(3) by cases (auto simp: sample_tipped_def s(3) sample_tip_defs)
  then show ?thesis using that s' by simp
qed

text \<open>The weights after the change and the open block, in either order.\<close>

lemma sample_move_first:
  obtains s where
    "ledger_history sample_platform 0 [(1, Send sample_tip_block), (2, Change sample_move_block), (3, Open sample_take_block)] = Some s"
    and "history_ok sample_platform [(1, Send sample_tip_block), (2, Change sample_move_block), (3, Open sample_take_block)]"
    and "weight_of (weights (view s)) 7 = genesis_amount - 2"
    and "blocks (view s) = (blocks sample_tipped)(0x70040 \<mapsto> Change sample_move_block, 0x50060 \<mapsto> Open sample_take_block)"
proof -
  let ?es = "[(1, Send sample_tip_block)]"
  obtain s where s: "ledger_history sample_platform 0 ?es = Some s" "history_ok sample_platform ?es" "view s = sample_tipped"
    by (rule sample_tipped_history)
  have code: "process_code sample_platform (view s) (Change sample_move_block) = progress"
    by (simp add: s(3) sample_tipped_def sample_tip_defs)
  obtain s1 a where s1: "ledger_history sample_platform 0 (?es @ [(2, Change sample_move_block)]) = Some s1"
    "history_ok sample_platform (?es @ [(2, Change sample_move_block)])"
    "ledger_step sample_platform 2 (view s) (Change sample_move_block) a (view s1)"
    by (rule history_extend [OF s(2,1) sample_tip_ok(2) code])
      (simp add: s(3) sample_tipped_def sample_tip_defs genesis_amount_def)
  have v1: "view s1 = (Ledger_Spec.extend sample_platform 2 (Change sample_move_block) paper_test_account 0x70040 (genesis_amount - 1) sample_tipped)
       \<lparr>weights := move_weight paper_test_account 7 (genesis_amount - 1) (weights sample_tipped)\<rparr>"
    using s1(3) by cases (auto simp: sample_tipped_def s(3) sample_tip_defs)
  have code1: "process_code sample_platform (view s1) (Open sample_take_block) = progress"
    by (simp add: v1 sample_tipped_def sample_tip_defs)
  have mov1: "movable (view s1) (Open sample_take_block)"
    by (simp add: v1 sample_tipped_def sample_tip_defs move_weight_def genesis_amount_def word_le_def)
  obtain s2 b where s2: "ledger_history sample_platform 0 ((?es @ [(2, Change sample_move_block)]) @ [(3, Open sample_take_block)]) = Some s2"
    "history_ok sample_platform ((?es @ [(2, Change sample_move_block)]) @ [(3, Open sample_take_block)])"
    "ledger_step sample_platform 3 (view s1) (Open sample_take_block) b (view s2)"
    by (rule history_extend [OF s1(2,1) sample_tip_ok(3) code1 mov1])
  have "weight_of (weights (view s2)) 7 = genesis_amount - 2"
    using s2(3) by cases (auto simp: v1 sample_tipped_def sample_tip_defs move_weight_def genesis_amount_def)
  moreover have "blocks (view s2) = (blocks sample_tipped)(0x70040 \<mapsto> Change sample_move_block, 0x50060 \<mapsto> Open sample_take_block)"
    using step_view(1) [OF s2(3)] step_view(1) [OF s1(3)] s(3) by (simp add: sample_tip_hashes)
  ultimately show ?thesis using that s2 by simp
qed

lemma sample_take_first:
  obtains s where
    "ledger_history sample_platform 0 [(1, Send sample_tip_block), (2, Open sample_take_block), (3, Change sample_move_block)] = Some s"
    and "history_ok sample_platform [(1, Send sample_tip_block), (2, Open sample_take_block), (3, Change sample_move_block)]"
    and "weight_of (weights (view s)) 7 = genesis_amount - 1"
    and "blocks (view s) = (blocks sample_tipped)(0x70040 \<mapsto> Change sample_move_block, 0x50060 \<mapsto> Open sample_take_block)"
proof -
  let ?es = "[(1, Send sample_tip_block)]"
  obtain s where s: "ledger_history sample_platform 0 ?es = Some s" "history_ok sample_platform ?es" "view s = sample_tipped"
    by (rule sample_tipped_history)
  have code: "process_code sample_platform (view s) (Open sample_take_block) = progress"
    by (simp add: s(3) sample_tipped_def sample_tip_defs)
  obtain s1 a where s1: "ledger_history sample_platform 0 (?es @ [(2, Open sample_take_block)]) = Some s1"
    "history_ok sample_platform (?es @ [(2, Open sample_take_block)])"
    "ledger_step sample_platform 2 (view s) (Open sample_take_block) a (view s1)"
    by (rule history_extend [OF s(2,1) sample_tip_ok(3) code])
      (simp add: s(3) sample_tipped_def sample_tip_defs genesis_amount_def)
  have v1: "view s1 = (Ledger_Spec.extend sample_platform 2 (Open sample_take_block) 5 0x50060 1 sample_tipped)
       \<lparr>receivables := mdb_remove (receivables sample_tipped) 0xFE0050,
        weights := move_weight paper_test_account 5 1 (weights sample_tipped)\<rparr>"
    using s1(3) by cases (auto simp: sample_tipped_def s(3) sample_tip_defs)
  have code1: "process_code sample_platform (view s1) (Change sample_move_block) = progress"
    by (simp add: v1 sample_tipped_def sample_tip_defs)
  have mov1: "movable (view s1) (Change sample_move_block)"
    by (simp add: v1 sample_tipped_def sample_tip_defs move_weight_def genesis_amount_def)
  obtain s2 b where s2: "ledger_history sample_platform 0 ((?es @ [(2, Open sample_take_block)]) @ [(3, Change sample_move_block)]) = Some s2"
    "history_ok sample_platform ((?es @ [(2, Open sample_take_block)]) @ [(3, Change sample_move_block)])"
    "ledger_step sample_platform 3 (view s1) (Change sample_move_block) b (view s2)"
    by (rule history_extend [OF s1(2,1) sample_tip_ok(2) code1 mov1])
  have "weight_of (weights (view s2)) 7 = genesis_amount - 1"
    using s2(3) by cases (auto simp: v1 sample_tipped_def sample_tip_defs move_weight_def genesis_amount_def)
  moreover have "blocks (view s2) = (blocks sample_tipped)(0x70040 \<mapsto> Change sample_move_block, 0x50060 \<mapsto> Open sample_take_block)"
    using step_view(1) [OF s2(3)] step_view(1) [OF s1(3)] s(3)
    by (simp add: sample_tip_hashes fun_upd_twist [of "0x50060 :: block_hash"])
  ultimately show ?thesis using that s2 by simp
qed

theorem same_blocks_same_accounts_witness:
  "\<exists>s s' i i'. (\<forall>k. block_get s' k = block_get s k) \<and>
     ledger_history sample_platform 0
       [(1, Send sample_tip_block), (2, Change sample_move_block), (3, Open sample_take_block)] = Some s \<and>
     ledger_history sample_platform 0
       [(1, Send sample_tip_block), (2, Open sample_take_block), (3, Change sample_move_block)] = Some s' \<and>
     account_get s 5 = Some i \<and> account_get s' 5 = Some i' \<and>
     map_option account_state i' = map_option account_state i \<and> pending_get s' 0xFE0050 = pending_get s 0xFE0050"
proof -
  obtain s where s: "ledger_history sample_platform 0
      [(1, Send sample_tip_block), (2, Change sample_move_block), (3, Open sample_take_block)] = Some s"
    "history_ok sample_platform [(1, Send sample_tip_block), (2, Change sample_move_block), (3, Open sample_take_block)]"
    "blocks (view s) = (blocks sample_tipped)(0x70040 \<mapsto> Change sample_move_block, 0x50060 \<mapsto> Open sample_take_block)"
    by (rule sample_move_first)
  obtain s' where s': "ledger_history sample_platform 0
      [(1, Send sample_tip_block), (2, Open sample_take_block), (3, Change sample_move_block)] = Some s'"
    "history_ok sample_platform [(1, Send sample_tip_block), (2, Open sample_take_block), (3, Change sample_move_block)]"
    "blocks (view s') = (blocks sample_tipped)(0x70040 \<mapsto> Change sample_move_block, 0x50060 \<mapsto> Open sample_take_block)"
    by (rule sample_take_first)
  have "\<forall>k. block_get s' k = block_get s k"
    using s(3) s'(3) ledger_history_inv(1) [OF s(2,1)] ledger_history_inv(1) [OF s'(2,1)] by (simp add: block_get_view)
  then show ?thesis using same_blocks_same_accounts [OF s(2,1) s'(2,1), of 5 "0xFE0050"] s(1) s'(1) by blast
qed

text \<open>
  C21. The voting weight of a representative does depend on that order. A change block moves the
  weight of the balance and not of what is pending, and the block that takes up a send moves
  weight away from the representative that the sender has by then. Two stores with the same
  blocks, and so with the same balances, can therefore give a representative different
  weights, and an election different outcomes.
\<close>

theorem weights_depend_on_order:
  "\<exists>s s'. ledger_history sample_platform 0
       [(1, Send sample_tip_block), (2, Change sample_move_block), (3, Open sample_take_block)] = Some s \<and>
     ledger_history sample_platform 0
       [(1, Send sample_tip_block), (2, Open sample_take_block), (3, Change sample_move_block)] = Some s' \<and>
     (\<forall>h. block_get s h = block_get s' h) \<and>
     weight s 7 = Some (genesis_amount - 2) \<and> weight s' 7 = Some (genesis_amount - 1)"
proof -
  obtain s where s: "ledger_history sample_platform 0
      [(1, Send sample_tip_block), (2, Change sample_move_block), (3, Open sample_take_block)] = Some s"
    "history_ok sample_platform [(1, Send sample_tip_block), (2, Change sample_move_block), (3, Open sample_take_block)]"
    "weight_of (weights (view s)) 7 = genesis_amount - 2"
    "blocks (view s) = (blocks sample_tipped)(0x70040 \<mapsto> Change sample_move_block, 0x50060 \<mapsto> Open sample_take_block)"
    by (rule sample_move_first)
  obtain s' where s': "ledger_history sample_platform 0
      [(1, Send sample_tip_block), (2, Open sample_take_block), (3, Change sample_move_block)] = Some s'"
    "history_ok sample_platform [(1, Send sample_tip_block), (2, Open sample_take_block), (3, Change sample_move_block)]"
    "weight_of (weights (view s')) 7 = genesis_amount - 1"
    "blocks (view s') = (blocks sample_tipped)(0x70040 \<mapsto> Change sample_move_block, 0x50060 \<mapsto> Open sample_take_block)"
    by (rule sample_take_first)
  note ok = ledger_history_inv(1) [OF s(2,1)] ledger_history_inv(1) [OF s'(2,1)]
  show ?thesis
    using s s' ok by (auto simp: block_get_view weight_def store_simps weight_of_def)
qed

end
