(* ===== verification/Bootstrap_Server.thy ===== *)
theory Bootstrap_Server
  imports Ledger_Replay
begin

text \<open>
  The server side of a bootstrap of \<open>paper/node.cpp\<close>: \<open>bootstrap_server\<close> reads requests from a
  connection and answers them one after the other; \<open>bulk_pull_server\<close> sends the chain of an
  account, \<open>frontier_req_server\<close> the heads of all accounts, and \<open>bulk_push_server\<close> processes the
  blocks it is sent.

  A connection is the list of the bytes that are still to be read; a read of more bytes than
  there are is a failed read. Logging is left out. An answer is the list of the bytes written;
  the store does not change while an answer is sent. Loops have results of type
  \<open>'a exec option\<close>, as in \<open>Bootstrap_Sync\<close>.
\<close>

section \<open>The chain of an account\<close>

record bulk_pull_server =
  bps_request :: bulk_pull
  bps_current :: block_hash

definition set_current_end :: "block_store \<Rightarrow> bulk_pull \<Rightarrow> bulk_pull_server exec" where
  "set_current_end s request_a = do {
     let request_l = (if \<not> block_exists s (bulk_pull_end request_a)
       then request_a\<lparr>bulk_pull_end := 0\<rparr> else request_a);
     no_address \<leftarrow> account_get s (bulk_pull_start request_l);
     current_l \<leftarrow> (case no_address of
         None \<Rightarrow> Some (bulk_pull_end request_l)
       | Some info_l \<Rightarrow>
           if \<not> uint256_is_zero (bulk_pull_end request_l) then do {
             account_l \<leftarrow> ledger_account s (bulk_pull_end request_l);
             Some (if account_l = bulk_pull_start request_l then info_head info_l else bulk_pull_end request_l)
           }
           else Some (info_head info_l));
     Some \<lparr>bps_request = request_l, bps_current = current_l\<rparr>
   }"

definition get_next :: "block_store \<Rightarrow> bulk_pull_server \<Rightarrow> (block option \<times> bulk_pull_server) exec" where
  "get_next s v =
     (if bps_current v \<noteq> bulk_pull_end (bps_request v) then do {
        result \<leftarrow> block_get s (bps_current v);
        assert (result \<noteq> None);
        let previous_l = previous (the result);
        Some (result,
          if \<not> uint256_is_zero previous_l then v\<lparr>bps_current := previous_l\<rparr>
          else v\<lparr>bps_request := (bps_request v)\<lparr>bulk_pull_end := bps_current v\<rparr>\<rparr>)
      }
      else Some (None, v))"

partial_function (option) bulk_pull_send_next :: "block_store \<Rightarrow> bulk_pull_server \<Rightarrow> byte list \<Rightarrow> byte list exec option" where
  "bulk_pull_send_next s v sent =
     (case get_next s v of
        None \<Rightarrow> Some None
      | Some r \<Rightarrow>
          (case fst r of
             None \<Rightarrow> Some (Some (sent @ [block_type_code Bt_not_a_block]))
           | Some b \<Rightarrow> bulk_pull_send_next s (snd r) (sent @ serialize_block b)))"

definition bulk_pull_respond :: "block_store \<Rightarrow> bulk_pull \<Rightarrow> byte list exec option" where
  "bulk_pull_respond s request_a =
     (case set_current_end s request_a of
        None \<Rightarrow> Some None
      | Some v \<Rightarrow> bulk_pull_send_next s v [])"

section \<open>The heads of all accounts\<close>

record frontier_req_server =
  frs_request :: frontier_req
  frs_current :: account
  frs_info :: account_info

definition frontier_next :: "block_store \<Rightarrow> frontier_req_server \<Rightarrow> frontier_req_server exec" where
  "frontier_next s v =
     (let iterator = latest_begin_at s (frs_current v + 1)
      in if iterator \<noteq> latest_end then do {
           info_l \<leftarrow> account_info_of_val (snd (the iterator));
           Some (v\<lparr>frs_current := fst (the iterator), frs_info := info_l\<rparr>)
         }
         else Some (v\<lparr>frs_current := 0\<rparr>))"

partial_function (option) skip_old_loop ::
  "uint64 \<Rightarrow> block_store \<Rightarrow> frontier_req_server \<Rightarrow> frontier_req_server exec option" where
  "skip_old_loop now_l s v =
     (if \<not> uint256_is_zero (frs_current v) \<and>
         now_l - info_modified (frs_info v) \<ge> ucast (frontier_req_age (frs_request v))
      then (case frontier_next s v of None \<Rightarrow> Some None | Some v' \<Rightarrow> skip_old_loop now_l s v')
      else Some (Some v))"

definition skip_old :: "uint64 \<Rightarrow> block_store \<Rightarrow> frontier_req_server \<Rightarrow> frontier_req_server exec option" where
  "skip_old now_l s v =
     (if frontier_req_age (frs_request v) \<noteq> - 1 then skip_old_loop now_l s v else Some (Some v))"

definition make_frontier_req_server ::
  "uint64 \<Rightarrow> block_store \<Rightarrow> frontier_req \<Rightarrow> frontier_req_server exec option" where
  "make_frontier_req_server now_l s request_a =
     (case frontier_next s \<lparr>frs_request = request_a, frs_current = frontier_req_start request_a - 1,
         frs_info = account_info_default\<rparr> of
        None \<Rightarrow> Some None
      | Some v \<Rightarrow> skip_old now_l s v)"

partial_function (option) frontier_send_next ::
  "block_store \<Rightarrow> frontier_req_server \<Rightarrow> byte list \<Rightarrow> byte list exec option" where
  "frontier_send_next s v sent =
     (if \<not> uint256_is_zero (frs_current v)
      then (case frontier_next s v of
          None \<Rightarrow> Some None
        | Some v' \<Rightarrow>
            frontier_send_next s v' (sent @ bytes256 (frs_current v) @ bytes256 (info_head (frs_info v))))
      else Some (Some (sent @ bytes256 0 @ bytes256 0)))"

definition frontier_respond :: "uint64 \<Rightarrow> block_store \<Rightarrow> frontier_req \<Rightarrow> byte list exec option" where
  "frontier_respond now_l s request_a =
     (case make_frontier_req_server now_l s request_a of
        None \<Rightarrow> None
      | Some v \<Rightarrow> (case v of None \<Rightarrow> Some None | Some v' \<Rightarrow> frontier_send_next s v' []))"

section \<open>Blocks on a connection\<close>

text \<open>
  \<open>bulk_pull_client\<close> and \<open>bulk_push_server\<close> read blocks in the same way: the byte of the type,
  then as many bytes as a block of the type has.
\<close>

datatype received = Received_block block | Received_finish | Received_error

definition received_size :: "block_type option \<Rightarrow> nat option" where
  "received_size t =
     (case t of
        Some Bt_send \<Rightarrow> Some send_block_size
      | Some Bt_receive \<Rightarrow> Some receive_block_size
      | Some Bt_open \<Rightarrow> Some open_block_size
      | Some Bt_change \<Rightarrow> Some change_block_size
      | _ \<Rightarrow> None)"

definition receive_type :: "byte list \<Rightarrow> received \<times> byte list" where
  "receive_type input =
     (case stream_read 1 input of
        None \<Rightarrow> (Received_error, input)
      | Some (type_l, rest) \<Rightarrow>
          if block_type_of_byte (hd type_l) = Some Bt_not_a_block then (Received_finish, rest)
          else
            (case received_size (block_type_of_byte (hd type_l)) of
               None \<Rightarrow> (Received_error, rest)
             | Some size_l \<Rightarrow>
                 (case stream_read size_l rest of
                    None \<Rightarrow> (Received_error, rest)
                  | Some (body, rest) \<Rightarrow>
                      (case deserialize_block (type_l @ body) of
                         None \<Rightarrow> (Received_error, rest)
                       | Some (b, _) \<Rightarrow> (Received_block b, rest)))))"

section \<open>Blocks that are pushed\<close>

partial_function (option) bulk_push_receive ::
  "platform \<Rightarrow> choices \<Rightarrow> nat \<Rightarrow> byte list \<Rightarrow> node \<Rightarrow> (bool \<times> byte list \<times> node) exec" where
  "bulk_push_receive P C now input n =
     (case receive_type input of (event, rest) \<Rightarrow>
        (case event of
           Received_error \<Rightarrow> Some (False, rest, n)
         | Received_finish \<Rightarrow> Some (True, rest, n)
         | Received_block b \<Rightarrow> do {
             n \<leftarrow> process_receive_republish P C now b 0 n;
             bulk_push_receive P C now rest n
           }))"

section \<open>Requests\<close>

datatype server_request =
    Bulk_pull_request bulk_pull
  | Frontier_request frontier_req
  | Bulk_push_request

definition make_bulk_pull :: "account \<Rightarrow> block_hash \<Rightarrow> bulk_pull" where
  "make_bulk_pull start_a end_a =
     \<lparr>bulk_pull_header = make_message Mt_bulk_pull, bulk_pull_start = start_a, bulk_pull_end = end_a\<rparr>"

definition make_frontier_req :: "account \<Rightarrow> uint32 \<Rightarrow> uint32 \<Rightarrow> frontier_req" where
  "make_frontier_req start_a age_a count_a =
     \<lparr>frontier_req_header = make_message Mt_frontier_req, frontier_req_start = start_a,
      frontier_req_age = age_a, frontier_req_count = count_a\<rparr>"

text \<open>
  A request on the connection, whether the connection is read again for further requests, and
  the bytes that are left; \<open>None\<close> when reading stops without a request.
\<close>

definition receive_bulk_pull_action ::
  "platform \<Rightarrow> byte list \<Rightarrow> byte list \<Rightarrow> (server_request \<times> bool \<times> byte list) option exec" where
  "receive_bulk_pull_action P header_l input =
     (case stream_read (32 + 32) input of
        None \<Rightarrow> Some None
      | Some (body, rest) \<Rightarrow> do {
          request_l \<leftarrow> bulk_pull_deserialize P (header_l @ body);
          Some (map_option (\<lambda>(m, _). (Bulk_pull_request m, True, rest)) request_l)
        })"

definition receive_frontier_req_action ::
  "platform \<Rightarrow> byte list \<Rightarrow> byte list \<Rightarrow> (server_request \<times> bool \<times> byte list) option exec" where
  "receive_frontier_req_action P header_l input =
     (case stream_read (32 + 4 + 4) input of
        None \<Rightarrow> Some None
      | Some (body, rest) \<Rightarrow> do {
          request_l \<leftarrow> frontier_req_deserialize P (header_l @ body);
          Some (map_option (\<lambda>(m, _). (Frontier_request m, True, rest)) request_l)
        })"

definition server_receive ::
  "platform \<Rightarrow> byte list \<Rightarrow> (server_request \<times> bool \<times> byte list) option exec" where
  "server_receive P input =
     (case stream_read 8 input of
        None \<Rightarrow> Some None
      | Some (header_l, rest) \<Rightarrow>
          (case read_header P header_l of
             None \<Rightarrow> Some None
           | Some (h, _) \<Rightarrow>
               if message_kind h = message_type_code Mt_bulk_pull
               then receive_bulk_pull_action P header_l rest
               else if message_kind h = message_type_code Mt_frontier_req
               then receive_frontier_req_action P header_l rest
               else if message_kind h = message_type_code Mt_bulk_push
               then Some (Some (Bulk_push_request, False, rest))
               else Some None))"

text \<open>The queue of requests; \<open>server_started\<close> are the requests that were ever given to a responder.\<close>

record bootstrap_server =
  server_requests :: "server_request list"
  server_started :: "server_request list"

definition make_bootstrap_server :: bootstrap_server where
  "make_bootstrap_server = \<lparr>server_requests = [], server_started = []\<rparr>"

definition run_next :: "bootstrap_server \<Rightarrow> bootstrap_server exec" where
  "run_next v = do {
     assert (server_requests v \<noteq> []);
     Some (v\<lparr>server_started := server_started v @ [hd (server_requests v)]\<rparr>)
   }"

definition add_request :: "server_request \<Rightarrow> bootstrap_server \<Rightarrow> bootstrap_server exec" where
  "add_request message_a v =
     (let start = (server_requests v = []);
          v = v\<lparr>server_requests := server_requests v @ [message_a]\<rparr>
      in if start then run_next v else Some v)"

definition finish_request :: "bootstrap_server \<Rightarrow> bootstrap_server exec" where
  "finish_request v = do {
     assert (server_requests v \<noteq> []);
     let v = v\<lparr>server_requests := tl (server_requests v)\<rparr>;
     if server_requests v \<noteq> [] then run_next v else Some v
   }"

section \<open>What is sent for a pull\<close>

definition blocks_bytes :: "ledger_view \<Rightarrow> block_hash list \<Rightarrow> byte list" where
  "blocks_bytes v hs = concat (map (\<lambda>h. serialize_block (the (blocks v h))) hs)"

lemma blocks_bytes_simps [simp]:
  "blocks_bytes v [] = []" "blocks_bytes v (h # hs) = serialize_block (the (blocks v h)) @ blocks_bytes v hs"
  by (simp_all add: blocks_bytes_def)

lemma bulk_pull_finished:
  "bps_current v = bulk_pull_end (bps_request v) \<Longrightarrow> bulk_pull_send_next s v sent = Some (Some (sent @ [1]))"
  by (subst bulk_pull_send_next.simps) (simp add: get_next_def)

lemma bulk_pull_send_chain:
  assumes "store_ok s" and "chain_ok P (blocks (view s))"
  shows "chain_is (blocks (view s)) h hs \<Longrightarrow>
    bulk_pull_send_next s \<lparr>bps_request = \<lparr>bulk_pull_header = m, bulk_pull_start = a, bulk_pull_end = e\<rparr>, bps_current = h\<rparr> sent =
      Some (Some (sent @ blocks_bytes (view s) (takeWhile (\<lambda>k. k \<noteq> e) hs) @ [1]))"
proof (induction arbitrary: sent rule: chain_is.induct)
  case (chain_open h x)
  then show ?case
    using assms
    by (subst bulk_pull_send_next.simps)
      (simp add: get_next_def store_simps uint256_is_zero_eq assert_def bulk_pull_finished)
next
  case (chain_next h b hs)
  have "previous b \<noteq> 0" using chain_is_stored [OF chain_next(3)] chain_okD(2) [OF assms(2)] by (metis not_None_eq)
  then show ?case
    using assms chain_next(1,4)
    by (subst bulk_pull_send_next.simps) (simp add: get_next_def store_simps uint256_is_zero_eq assert_def)
qed

lemma bulk_pull_respond_eq:
  assumes ok: "ledger_ok P s" "chains_ok (view s)" and zero: "mdb_get (infos (view s)) 0 = None"
    and i: "mdb_get (infos (view s)) a = Some i" and hs: "chain_is (blocks (view s)) (info_head i) hs"
    and acc: "set hs = {k. account_is (blocks (view s)) k a}"
    and r: "r = \<lparr>bulk_pull_header = m, bulk_pull_start = a, bulk_pull_end = e\<rparr>"
  shows "bulk_pull_respond s r = Some (Some (blocks_bytes (view s)
      (if blocks (view s) e \<noteq> None \<and> e \<notin> set hs then [] else takeWhile (\<lambda>k. k \<noteq> e) hs) @ [1]))"
proof -
  let ?m = "blocks (view s)"
  note inv = ledger_okD [OF ok(1)]
  have none: "?m 0 = None" using chain_okD(2) [OF inv(3)] by (metis not_None_eq)
  show ?thesis
  proof (cases "?m e")
    case None
    have "set_current_end s r =
        Some \<lparr>bps_request = \<lparr>bulk_pull_header = m, bulk_pull_start = a, bulk_pull_end = 0\<rparr>, bps_current = info_head i\<rparr>"
      using None i inv(1) by (simp add: set_current_end_def store_simps uint256_is_zero_eq r)
    moreover have "takeWhile (\<lambda>k. k \<noteq> 0) hs = hs" "takeWhile (\<lambda>k. k \<noteq> e) hs = hs"
      using chain_is_stored [OF hs] none None by (auto simp: takeWhile_eq_all_conv)
    ultimately show ?thesis
      using None bulk_pull_send_chain [OF inv(1,3) hs, of m a 0 "[]"]
      by (simp add: bulk_pull_respond_def del: takeWhile_eq_all_conv)
  next
    case (Some b)
    then have "e \<noteq> 0" using none by auto
    obtain c where c: "account_is ?m e c" using inv(10) Some unfolding walks_ok_def by blast
    have "c \<noteq> 0" using account_known [OF ok(2) inv(5) c] zero by auto
    then have l: "ledger_account s e = Some c" by (rule ledger_account_correct [OF inv(1) c])
    have mem: "e \<in> set hs \<longleftrightarrow> c = a" using acc c account_is_fun by blast
    have "set_current_end s r = Some \<lparr>bps_request = r, bps_current = if c = a then info_head i else e\<rparr>"
      using Some \<open>e \<noteq> 0\<close> i l inv(1) by (simp add: set_current_end_def store_simps uint256_is_zero_eq r)
    then show ?thesis
      using Some mem bulk_pull_send_chain [OF inv(1,3) hs, of m a e "[]"] r
      by (cases "c = a") (simp_all add: bulk_pull_respond_def bulk_pull_finished)
  qed
qed

lemma bulk_pull_respond_unknown:
  assumes "ledger_ok P s" and "mdb_get (infos (view s)) (bulk_pull_start r) = None"
  shows "bulk_pull_respond s r = Some (Some [1])"
  using assms ledger_okD(1) [OF assms(1)]
  by (simp add: bulk_pull_respond_def set_current_end_def store_simps bulk_pull_finished)

section \<open>What is sent for a frontier request\<close>

text \<open>The entries of the accounts from a number on, as both sides walk them.\<close>

definition accounts_from :: "ledger_view \<Rightarrow> account \<Rightarrow> (account \<times> account_info) list" where
  "accounts_from v k = filter (\<lambda>e. k \<le> fst e) (mdb_entries (infos v))"

lemma accounts_from_0: "accounts_from v 0 = mdb_entries (infos v)"
  by (simp add: accounts_from_def)

lemma add_one_le: "a \<noteq> - 1 \<Longrightarrow> a + 1 \<le> b \<longleftrightarrow> a < b" for a b :: "'a::len word"
proof -
  assume "a \<noteq> - 1"
  then have "1 + a \<noteq> 0" by (metis add.commute eq_neg_iff_add_eq_0)
  then show ?thesis using unatSuc [of a] by (simp add: word_le_nat_alt word_less_nat_alt add.commute Suc_le_eq)
qed

lemma filter_first: "filter p xs = y # ys \<Longrightarrow> y \<in> set xs"
  by (induction xs) (auto split: if_splits)

lemma filter_sorted_next:
  fixes xs :: "('k::linorder \<times> 'v) list"
  assumes "sorted_wrt (<) (map fst xs)" and "filter (\<lambda>e. k \<le> fst e) xs = (a, i) # es"
  shows "filter (\<lambda>e. a < fst e) xs = es"
  using assms
proof (induction xs)
  case (Cons x xs)
  show ?case
  proof (cases "k \<le> fst x")
    case True
    then have "x = (a, i)" "filter (\<lambda>e. k \<le> fst e) xs = es" using Cons(3) by simp_all
    moreover have "filter (\<lambda>e. k \<le> fst e) xs = xs" "filter (\<lambda>e. a < fst e) xs = xs"
      using Cons(2) True calculation(1) by (auto simp: filter_id_conv dest!: bspec)
    ultimately show ?thesis by simp
  next
    case False
    then have "filter (\<lambda>e. k \<le> fst e) xs = (a, i) # es" using Cons(3) by simp
    moreover have "k \<le> a" using calculation by (metis (mono_tags, lifting) filter_eq_ConsD fst_conv)
    ultimately show ?thesis using Cons False by auto
  qed
qed simp

lemma accounts_from_next:
  assumes "accounts_from v k = (a, i) # es" and "a \<noteq> - 1"
  shows "accounts_from v (a + 1) = es"
  using filter_sorted_next [OF sorted_mdb_entries assms(1) [unfolded accounts_from_def]] assms(2)
  by (simp add: accounts_from_def add_one_le)

lemma find_filter: "find p xs = (case filter p xs of [] \<Rightarrow> None | x # _ \<Rightarrow> Some x)"
  by (induction xs) auto

lemma account_info_of_val_eq: "length x = 88 \<Longrightarrow> account_info_of_val x = Some (fst (the (account_info_deserialize x)))"
  by (simp add: account_info_of_val_def account_info_deserialize_def read_uint256_def read_uint128_def read_uint64_def
      stream_read_def)

lemma latest_begin_view:
  assumes "store_ok s"
  shows "case accounts_from (view s) k of
      [] \<Rightarrow> latest_begin_at s k = None
    | e # _ \<Rightarrow> \<exists>x. latest_begin_at s k = Some (fst e, x) \<and> account_info_of_val x = Some (snd e)"
proof -
  let ?f = "\<lambda>x. fst (the (account_info_deserialize x))"
  have view: "mdb_entries (infos (view s)) = map (apsnd ?f) (mdb_entries (accounts s))"
    by (simp add: view_def mdb_map.rep_eq)
  then have entries: "accounts_from (view s) k = map (apsnd ?f) (filter (\<lambda>e. k \<le> fst e) (mdb_entries (accounts s)))"
    by (simp add: accounts_from_def filter_map o_def)
  have "account_info_of_val (snd e) = Some (?f (snd e))" if "e \<in> set (mdb_entries (accounts s))" for e
  proof -
    have "mdb_get (accounts s) (fst e) = Some (snd e)" using that by (simp add: mdb_get_iff)
    then show ?thesis using sizedD [OF store_ok_sized(1) [OF assms]] account_info_of_val_eq by blast
  qed
  note val = this
  show ?thesis
  proof (cases "filter (\<lambda>e. k \<le> fst e) (mdb_entries (accounts s))")
    case Nil
    then show ?thesis by (simp add: latest_begin_at_def iterator_at_def mdb_set_range_def find_filter entries)
  next
    case (Cons e es)
    have "account_info_of_val (snd e) = Some (?f (snd e))" by (rule val [OF filter_first [OF Cons]])
    then show ?thesis
      by (cases e) (simp add: latest_begin_at_def iterator_at_def mdb_set_range_def find_filter entries Cons)
  qed
qed

lemma frontier_next_view:
  assumes "store_ok s"
  shows "frontier_next s v = Some (case accounts_from (view s) (frs_current v + 1) of
      [] \<Rightarrow> v\<lparr>frs_current := 0\<rparr>
    | e # _ \<Rightarrow> v\<lparr>frs_current := fst e, frs_info := snd e\<rparr>)"
  using latest_begin_view [OF assms, of "frs_current v + 1"]
  by (auto simp: frontier_next_def latest_end_def iterator_end_def split: list.splits)

text \<open>
  The two numbers that the walk cannot tell from its ends: zero, which stands for no further
  account, and the last number, whose successor is zero again.
\<close>

definition accounts_plain :: "ledger_view \<Rightarrow> bool" where
  "accounts_plain v \<longleftrightarrow> mdb_get (infos v) 0 = None \<and> mdb_get (infos v) (- 1) = None"

definition heads_bytes :: "(account \<times> account_info) list \<Rightarrow> byte list" where
  "heads_bytes es = concat (map (\<lambda>(a, i). bytes256 a @ bytes256 (info_head i)) es) @ bytes256 0 @ bytes256 0"

lemma accounts_from_plain:
  "accounts_plain v \<Longrightarrow> accounts_from v k = (a, i) # es \<Longrightarrow> a \<noteq> 0 \<and> a \<noteq> - 1 \<and> mdb_get (infos v) a = Some i"
proof -
  assume plain: "accounts_plain v" and "accounts_from v k = (a, i) # es"
  then have "(a, i) \<in> set (mdb_entries (infos v))"
    unfolding accounts_from_def by (blast dest: filter_first)
  then have "mdb_get (infos v) a = Some i" by (simp add: mdb_get_iff)
  then show ?thesis using plain by (auto simp: accounts_plain_def)
qed

lemma frontier_send_heads:
  assumes "store_ok s" and "accounts_plain (view s)" and "accounts_from (view s) k = es"
    and "case es of [] \<Rightarrow> frs_current v = 0 | e # _ \<Rightarrow> frs_current v = fst e \<and> frs_info v = snd e"
  shows "frontier_send_next s v sent = Some (Some (sent @ heads_bytes es))"
  using assms(3,4)
proof (induction es arbitrary: k v sent)
  case Nil
  then show ?case by (subst frontier_send_next.simps) (simp add: uint256_is_zero_eq heads_bytes_def)
next
  case (Cons e es)
  obtain a i where e: "e = (a, i)" by (cases e)
  note plain = accounts_from_plain [OF assms(2) Cons(2) [unfolded e]]
  have rest: "accounts_from (view s) (a + 1) = es" using accounts_from_next Cons(2) plain by (simp add: e)
  obtain v' where v': "frontier_next s v = Some v'"
    "case es of [] \<Rightarrow> frs_current v' = 0 | e # _ \<Rightarrow> frs_current v' = fst e \<and> frs_info v' = snd e"
    using frontier_next_view [OF assms(1), of v] Cons(3) e rest by (cases es) auto
  have "frontier_send_next s v sent =
      frontier_send_next s v' (sent @ bytes256 (frs_current v) @ bytes256 (info_head (frs_info v)))"
    using v'(1) Cons(3) e plain by (subst frontier_send_next.simps) (simp add: uint256_is_zero_eq)
  then show ?case using Cons(1) [OF rest v'(2)] Cons(3) e by (simp add: heads_bytes_def)
qed

lemma frontier_respond_all:
  assumes "store_ok s" and "accounts_plain (view s)"
    and "frontier_req_start r = 0" and "frontier_req_age r = - 1"
  shows "frontier_respond now_l s r = Some (Some (heads_bytes (mdb_entries (infos (view s)))))"
proof -
  let ?v = "\<lparr>frs_request = r, frs_current = frontier_req_start r - 1, frs_info = account_info_default\<rparr>"
  define v where "v = (case accounts_from (view s) 0 of
      [] \<Rightarrow> ?v\<lparr>frs_current := 0\<rparr> | e # _ \<Rightarrow> ?v\<lparr>frs_current := fst e, frs_info := snd e\<rparr>)"
  have v: "frontier_next s ?v = Some v" "frs_request v = r"
    "case accounts_from (view s) 0 of [] \<Rightarrow> frs_current v = 0 | e # _ \<Rightarrow> frs_current v = fst e \<and> frs_info v = snd e"
    using assms(3) by (simp_all add: frontier_next_view [OF assms(1)] v_def split: list.split)
  have "skip_old now_l s v = Some (Some v)" using v(2) assms(4) by (simp add: skip_old_def)
  then show ?thesis
    using v(1) frontier_send_heads [OF assms(1,2) refl v(3), of "[]"]
    by (simp add: frontier_respond_def make_frontier_req_server_def accounts_from_0)
qed

section \<open>The queue of requests\<close>

text \<open>
  The states of a connection after the requests \<open>rs\<close> came in and the answers to the first \<open>k\<close>
  of them were sent.
\<close>

inductive server_run :: "server_request list \<Rightarrow> nat \<Rightarrow> bootstrap_server \<Rightarrow> bool" where
  run_begin: "server_run [] 0 make_bootstrap_server"
| run_add: "server_run rs k v \<Longrightarrow> add_request m v = Some v' \<Longrightarrow> server_run (rs @ [m]) k v'"
| run_finish: "server_run rs k v \<Longrightarrow> finish_request v = Some v' \<Longrightarrow> server_run rs (Suc k) v'"

text \<open>Requests are answered in the order they came in, each once, and one at a time.\<close>

lemma server_run_queue:
  "server_run rs k v \<Longrightarrow> k \<le> length rs \<and> server_requests v = drop k rs \<and> server_started v = take (Suc k) rs"
proof (induction rule: server_run.induct)
  case (run_add rs k v m v')
  then show ?case by (auto simp: add_request_def run_next_def assert_def Let_def hd_append split: if_splits)
next
  case (run_finish rs k v v')
  then have k: "k < length rs" by (auto simp: finish_request_def assert_def split: if_splits)
  have queue: "tl (server_requests v) = drop (Suc k) rs" using run_finish by (simp add: drop_Suc tl_drop)
  show ?case
  proof (cases "Suc k < length rs")
    case True
    then show ?thesis
      using run_finish k queue
      by (auto simp: finish_request_def run_next_def assert_def Let_def hd_drop_conv_nth take_Suc_conv_app_nth)
  next
    case False
    then show ?thesis using run_finish k queue by (auto simp: finish_request_def assert_def Let_def)
  qed
qed (simp add: make_bootstrap_server_def)

lemma server_run_continues:
  assumes "server_run rs k v"
  shows "\<exists>v'. add_request m v = Some v'" and "k < length rs \<Longrightarrow> \<exists>v'. finish_request v = Some v'"
  using server_run_queue [OF assms] by (auto simp: add_request_def finish_request_def run_next_def assert_def Let_def)

end
