(* ===== verification/Bootstrap_Client.thy ===== *)
theory Bootstrap_Client
  imports Bootstrap_Server "HOL-Library.AList"
begin

text \<open>
  The client side of a bootstrap of \<open>paper/node.cpp\<close>: \<open>frontier_req_client\<close> compares the heads
  that a server sends with the own ones, \<open>bulk_pull_client\<close> pulls the chains that are missing
  here, and \<open>bulk_push_client\<close> sends the blocks that are missing there.

  What the other side answers to the bytes of a request is an argument, \<open>serve\<close>. The pulls are
  kept in an unordered map; the order in which it is walked is the argument \<open>pull_order\<close>.
\<close>

section \<open>Comparing heads\<close>

record frontier_req_client =
  frc_pulls :: "(account \<times> block_hash) list"
  frc_current :: account
  frc_info :: account_info

definition client_next :: "block_store \<Rightarrow> frontier_req_client \<Rightarrow> frontier_req_client exec" where
  "client_next s c =
     (let iterator = latest_begin_at s (frc_current c + 1)
      in if iterator \<noteq> latest_end then do {
           info_l \<leftarrow> account_info_of_val (snd (the iterator));
           Some (c\<lparr>frc_current := fst (the iterator), frc_info := info_l\<rparr>)
         }
         else Some (c\<lparr>frc_current := 0\<rparr>))"

definition make_frontier_req_client :: "block_store \<Rightarrow> frontier_req_client exec" where
  "make_frontier_req_client s =
     client_next s \<lparr>frc_pulls = [], frc_current = 0, frc_info = account_info_default\<rparr>"

definition request_account :: "account \<Rightarrow> frontier_req_client \<Rightarrow> frontier_req_client" where
  "request_account account_a c = c\<lparr>frc_pulls := AList.update account_a 0 (frc_pulls c)\<rparr>"

partial_function (option) unsynced_walk ::
  "block_hash \<Rightarrow> block_hash \<Rightarrow> block_store \<Rightarrow> block_store exec option" where
  "unsynced_walk current_l theirs_a s =
     (if \<not> uint256_is_zero current_l \<and> current_l \<noteq> theirs_a
      then
        (case block_get (unsynced_put s current_l) current_l of
           None \<Rightarrow> Some None
         | Some block_l \<Rightarrow>
             (case block_l of
                None \<Rightarrow> Some None
              | Some b \<Rightarrow> unsynced_walk (previous b) theirs_a (unsynced_put s current_l)))
      else Some (Some s))"

text \<open>
  The loop over the accounts that the other side does not have: those below the account it
  sent, or all that are left after the last.
\<close>

partial_function (option) unsynced_accounts ::
  "account option \<Rightarrow> block_store \<Rightarrow> frontier_req_client \<Rightarrow> (block_store \<times> frontier_req_client) exec option" where
  "unsynced_accounts bound s c =
     (if \<not> uint256_is_zero (frc_current c) \<and> (bound = None \<or> frc_current c < the bound)
      then
        (case unsynced_walk (info_head (frc_info c)) 0 s of
           None \<Rightarrow> None
         | Some walked \<Rightarrow>
             (case walked of
                None \<Rightarrow> Some None
              | Some s \<Rightarrow>
                  (case client_next s c of
                     None \<Rightarrow> Some None
                   | Some c \<Rightarrow> unsynced_accounts bound s c)))
      else Some (Some (s, c)))"

definition compare_head ::
  "account \<Rightarrow> block_hash \<Rightarrow> block_store \<Rightarrow> frontier_req_client \<Rightarrow> (block_store \<times> frontier_req_client) exec option" where
  "compare_head account_l latest_l s c =
     (if latest_l = info_head (frc_info c) then Some (Some (s, c))
      else if block_exists s latest_l
      then map_option (map_option (\<lambda>s. (s, c))) (unsynced_walk (info_head (frc_info c)) latest_l s)
      else Some (Some (s, c\<lparr>frc_pulls := AList.update account_l (info_head (frc_info c)) (frc_pulls c)\<rparr>)))"

definition received_account ::
  "account \<Rightarrow> block_hash \<Rightarrow> block_store \<Rightarrow> frontier_req_client \<Rightarrow> (block_store \<times> frontier_req_client) exec option" where
  "received_account account_l latest_l s c =
     (case unsynced_accounts (Some account_l) s c of
        None \<Rightarrow> None
      | Some skipped \<Rightarrow>
          (case skipped of
             None \<Rightarrow> Some None
           | Some (s, c) \<Rightarrow>
               if \<not> uint256_is_zero (frc_current c) then
                 if account_l = frc_current c then
                   map_option (\<lambda>r. do { (s, c) \<leftarrow> r; c \<leftarrow> client_next s c; Some (s, c) })
                     (compare_head account_l latest_l s c)
                 else Some (do { assert (account_l < frc_current c); Some (s, request_account account_l c) })
               else Some (Some (s, request_account account_l c))))"

text \<open>
  Reading pairs until one of the account zero comes, with whether it came before a read failed.
\<close>

partial_function (option) receive_frontier ::
  "byte list \<Rightarrow> block_store \<Rightarrow> frontier_req_client \<Rightarrow> (bool \<times> block_store \<times> frontier_req_client) exec option" where
  "receive_frontier input s c =
     (if length input < 32 + 32 then Some (Some (False, s, c))
      else if \<not> uint256_is_zero (number256 (take 32 input))
      then
        (case received_account (number256 (take 32 input)) (number256 (take 32 (drop 32 input))) s c of
           None \<Rightarrow> None
         | Some received_l \<Rightarrow>
             (case received_l of
                None \<Rightarrow> Some None
              | Some r \<Rightarrow> receive_frontier (drop (32 + 32) input) (fst r) (snd r)))
      else
        (case unsynced_accounts None s c of
           None \<Rightarrow> None
         | Some rest_l \<Rightarrow> Some (map_option (\<lambda>(s, c). (True, s, c)) rest_l)))"

section \<open>Pulling chains\<close>

partial_function (option) pull_receive_block ::
  "platform \<Rightarrow> byte list \<Rightarrow> block_store \<Rightarrow> (bool \<times> block_store) option" where
  "pull_receive_block P input s =
     (case receive_type input of (event, rest) \<Rightarrow>
        (case event of
           Received_error \<Rightarrow> Some (False, s)
         | Received_finish \<Rightarrow> Some (True, s)
         | Received_block b \<Rightarrow> pull_receive_block P rest (unchecked_put s (block_hash P b) b)))"

text \<open>
  One request after the other; the result says whether all were answered up to the byte that
  ends an answer.
\<close>

fun pull_requests ::
  "platform \<Rightarrow> (byte list \<Rightarrow> byte list exec option) \<Rightarrow> (account \<times> block_hash) list \<Rightarrow> block_store \<Rightarrow>
     (bool \<times> block_store) exec option" where
  "pull_requests P serve [] s = Some (Some (True, s))"
| "pull_requests P serve ((start_l, end_l) # pulls_l) s =
     (case serve (bulk_pull_serialize P (make_bulk_pull start_l end_l)) of
        None \<Rightarrow> None
      | Some answer \<Rightarrow>
          (case answer of
             None \<Rightarrow> Some None
           | Some bytes_l \<Rightarrow>
               (case pull_receive_block P bytes_l s of
                  None \<Rightarrow> None
                | Some r \<Rightarrow>
                    if fst r then pull_requests P serve pulls_l (snd r) else Some (Some (False, snd r)))))"

section \<open>Pushing blocks\<close>

record bulk_push_client =
  push_store :: block_store
  push_sent :: "byte list"

definition push_synchronized :: "bulk_push_client \<Rightarrow> block_hash \<Rightarrow> (bool \<times> bulk_push_client) exec" where
  "push_synchronized c hash_a =
     (let result = \<not> unsynced_exists (push_store c) hash_a
      in if \<not> result then do {
           s \<leftarrow> unsynced_del (push_store c) hash_a;
           Some (result, c\<lparr>push_store := s\<rparr>)
         }
         else Some (result, c))"

definition push_retrieve :: "bulk_push_client \<Rightarrow> block_hash \<Rightarrow> block option exec" where
  "push_retrieve c hash_a = block_get (push_store c) hash_a"

definition push_block :: "bulk_push_client \<Rightarrow> block \<Rightarrow> bulk_push_client exec" where
  "push_block c block_a = Some (c\<lparr>push_sent := push_sent c @ serialize_block block_a\<rparr>)"

definition push_first :: "bulk_push_client \<Rightarrow> (block_hash \<times> bulk_push_client) exec" where
  "push_first c =
     (let first_l = unsynced_begin (push_store c)
      in if first_l \<noteq> iterator_end then do {
           s \<leftarrow> unsynced_del (push_store c) (fst (the first_l));
           Some (fst (the first_l), c\<lparr>push_store := s\<rparr>)
         }
         else Some (0, c))"

text \<open>
  \<open>push\<close> and the completion handler of \<open>push_block\<close>: while hashes wait on the stack the next block
  is sent, otherwise the next unsynced hash is taken. The result says whether the end of the
  push was reached; a block that is not in the store stops it.
\<close>

partial_function (option) push ::
  "bulk_push_client \<Rightarrow> hash_stack \<Rightarrow> (bool \<times> bulk_push_client) exec option" where
  "push c blocks_l =
     (if blocks_l \<noteq> []
      then
        (case synchronize_one push_retrieve push_synchronized push_block c blocks_l of
           None \<Rightarrow> None
         | Some one \<Rightarrow>
             (case one of
                None \<Rightarrow> Some None
              | Some r \<Rightarrow>
                  if fst r then Some (Some (False, fst (snd r))) else push (fst (snd r)) (snd (snd r))))
      else
        (case push_first c of
           None \<Rightarrow> Some None
         | Some r \<Rightarrow>
             if \<not> uint256_is_zero (fst r) then push (snd r) [fst r]
             else Some (Some (True, (snd r)\<lparr>push_sent := push_sent (snd r) @ [block_type_code Bt_not_a_block]\<rparr>))))"

definition push_start :: "platform \<Rightarrow> block_store \<Rightarrow> (bool \<times> bulk_push_client) exec option" where
  "push_start P s =
     push \<lparr>push_store = s, push_sent = bulk_push_serialize P \<lparr>bulk_push_header = make_message Mt_bulk_push\<rparr>\<rparr> []"

section \<open>A bootstrap\<close>

text \<open>
  \<open>bootstrap_client\<close>: the heads, the pulls, the processing of what was pulled, and the push. The
  result is the node and the bytes of the push; a connection that fails on the way ends it.
\<close>

definition bootstrap_pull ::
  "platform \<Rightarrow> choices \<Rightarrow> nat \<Rightarrow> ((account \<times> block_hash) list \<Rightarrow> (account \<times> block_hash) list) \<Rightarrow>
     (byte list \<Rightarrow> byte list exec option) \<Rightarrow> node \<Rightarrow> (bool \<times> node) exec option" where
  "bootstrap_pull P C now pull_order serve n =
     (case serve (frontier_req_serialize P (make_frontier_req 0 (- 1) (- 1))) of
        None \<Rightarrow> None
      | Some None \<Rightarrow> Some None
      | Some (Some bytes_l) \<Rightarrow>
          (case make_frontier_req_client (node_store n) of
             None \<Rightarrow> Some None
           | Some c \<Rightarrow>
               (case receive_frontier bytes_l (node_store n) c of
                  None \<Rightarrow> None
                | Some None \<Rightarrow> Some None
                | Some (Some (finished, s, c)) \<Rightarrow>
                    if \<not> finished then Some (Some (False, n\<lparr>node_store := s\<rparr>))
                    else
                      (case pull_requests P serve (pull_order (frc_pulls c)) s of
                         None \<Rightarrow> None
                       | Some None \<Rightarrow> Some None
                       | Some (Some (finished, s)) \<Rightarrow>
                           if \<not> finished then Some (Some (False, n\<lparr>node_store := s\<rparr>))
                           else map_option (map_option (\<lambda>n. (True, n)))
                             (process_end P C now (n\<lparr>node_store := s\<rparr>))))))"

definition bootstrap_run ::
  "platform \<Rightarrow> choices \<Rightarrow> nat \<Rightarrow> ((account \<times> block_hash) list \<Rightarrow> (account \<times> block_hash) list) \<Rightarrow>
     (byte list \<Rightarrow> byte list exec option) \<Rightarrow> node \<Rightarrow> (bool \<times> node \<times> byte list) exec option" where
  "bootstrap_run P C now pull_order serve n =
     (case bootstrap_pull P C now pull_order serve n of
        None \<Rightarrow> None
      | Some None \<Rightarrow> Some None
      | Some (Some (finished, n)) \<Rightarrow>
          if \<not> finished then Some (Some (False, n, []))
          else map_option (map_option (\<lambda>(finished, c). (finished, n\<lparr>node_store := push_store c\<rparr>, push_sent c)))
            (push_start P (node_store n)))"

text \<open>What a \<open>bootstrap_server\<close> with the given store answers to one request for blocks or heads.\<close>

definition serve_request :: "platform \<Rightarrow> uint64 \<Rightarrow> block_store \<Rightarrow> byte list \<Rightarrow> byte list exec option" where
  "serve_request P now_l s input =
     (case server_receive P input of
        None \<Rightarrow> Some None
      | Some None \<Rightarrow> Some (Some [])
      | Some (Some (request_l, _)) \<Rightarrow>
          (case request_l of
             Bulk_pull_request m \<Rightarrow> bulk_pull_respond s m
           | Frontier_request m \<Rightarrow> frontier_respond now_l s m
           | Bulk_push_request \<Rightarrow> Some (Some [])))"

section \<open>Requests and answers\<close>

lemma header_read: "read_header P (write_header P m) = Some (m, [])" "length (write_header P m) = 8"
  by (rule header.dec_whole) (simp_all add: write_header_def magic_number_def)

lemma stream_read_append: "length x = n \<Longrightarrow> stream_read n (x @ y) = Some (x, y)"
  by (simp add: stream_read_Some)

lemma stream_read_all: "length s = n \<Longrightarrow> stream_read n s = Some (s, [])"
  by (simp add: stream_read_Some)

lemma serve_bulk_pull:
  "serve_request P now_l s (bulk_pull_serialize P (make_bulk_pull a e)) = bulk_pull_respond s (make_bulk_pull a e)"
proof -
  let ?m = "make_bulk_pull a e"
  have "bulk_pull_deserialize P (bulk_pull_serialize P ?m) = Some (Some (?m, []))"
    by (simp add: bootstrap_request_Some make_bulk_pull_def make_message_def)
  moreover have "message_kind (bulk_pull_header ?m) = 6" by (simp add: make_bulk_pull_def make_message_def)
  ultimately show ?thesis
    by (simp add: serve_request_def server_receive_def receive_bulk_pull_action_def bulk_pull_serialize_def
        header_read stream_read_append stream_read_all)
qed

lemma serve_frontier_req:
  "serve_request P now_l s (frontier_req_serialize P (make_frontier_req a x y)) =
     frontier_respond now_l s (make_frontier_req a x y)"
proof -
  let ?m = "make_frontier_req a x y"
  have "frontier_req_deserialize P (frontier_req_serialize P ?m) = Some (Some (?m, []))"
    by (simp add: bootstrap_request_Some make_frontier_req_def make_message_def)
  moreover have "message_kind (frontier_req_header ?m) = 8" by (simp add: make_frontier_req_def make_message_def)
  ultimately show ?thesis
    by (simp add: serve_request_def server_receive_def receive_frontier_req_action_def frontier_req_serialize_def
        header_read stream_read_append stream_read_all)
qed

lemma receive_type_block: "receive_type (serialize_block b @ rest) = (Received_block b, rest)"
proof -
  obtain n where n: "received_size (block_type_of_byte (block_type_code (type_of b))) = Some n"
    "length (serialize b) = n" "type_of b \<noteq> Bt_not_a_block"
    by (cases b) (auto simp: received_size_def block_type_of_byte_def send_codec.enc_length
        receive_codec.enc_length open_codec.enc_length change_codec.enc_length)
  have "deserialize_block (block_type_code (type_of b) # serialize b) = Some (b, [])"
    by (simp add: deserialize_block_iff serialize_block_def)
  moreover have "stream_read 1 (block_type_code (type_of b) # serialize b @ rest) =
      Some ([block_type_code (type_of b)], serialize b @ rest)"
    by (simp add: stream_read_def)
  ultimately show ?thesis
    using n by (simp add: receive_type_def serialize_block_def stream_read_append)
qed

lemma receive_type_finish: "receive_type (1 # rest) = (Received_finish, rest)"
  by (simp add: receive_type_def stream_read_def block_type_of_byte_def)

lemma pull_receive_blocks:
  "pull_receive_block P (concat (map serialize_block bs) @ 1 # rest) s = Some (True, with_unchecked P bs s)"
proof (induction bs arbitrary: s)
  case Nil
  then show ?case by (subst pull_receive_block.simps) (simp add: receive_type_finish with_unchecked_def)
next
  case (Cons b bs)
  then show ?case by (subst pull_receive_block.simps) (simp add: receive_type_block with_unchecked_def)
qed

section \<open>The comparison of heads\<close>

text \<open>The table of unsynced hashes after some were marked.\<close>

definition with_unsynced :: "block_hash list \<Rightarrow> block_store \<Rightarrow> block_store" where
  "with_unsynced hs s = foldl unsynced_put s hs"

lemma with_unsynced_simps [simp]:
  "with_unsynced [] s = s" "with_unsynced (h # hs) s = with_unsynced hs (unsynced_put s h)"
  "with_unsynced (hs @ ks) s = with_unsynced ks (with_unsynced hs s)"
  by (simp_all add: with_unsynced_def)

lemma store_ok_unsynced [simp]: "store_ok (s\<lparr>unsynced_blocks := x\<rparr>) = store_ok s"
  by (simp add: store_ok_def)

lemma with_unsynced_view [simp]:
  "view (with_unsynced hs s) = view s" "store_ok (with_unsynced hs s) = store_ok s"
  "unchecked_blocks (with_unsynced hs s) = unchecked_blocks s"
  "mdb_get (unsynced_blocks (with_unsynced hs s)) h = (if h \<in> set hs then Some [] else mdb_get (unsynced_blocks s) h)"
  by (induction hs arbitrary: s) (simp_all add: unsynced_put_def)

lemma unsynced_walk_chain:
  assumes "chain_ok P (blocks v)"
  shows "chain_is (blocks v) h hs \<Longrightarrow> store_ok s \<Longrightarrow> view s = v \<Longrightarrow>
    unsynced_walk h e s = Some (Some (with_unsynced (takeWhile (\<lambda>k. k \<noteq> e) hs) s))"
proof (induction arbitrary: s rule: chain_is.induct)
  case (chain_open h x)
  have "unsynced_walk 0 e s = Some (Some s)" for s
    by (subst unsynced_walk.simps) (simp add: uint256_is_zero_eq)
  then show ?case
    using chain_open chain_okD(2) [OF assms chain_open(1)]
    by (subst unsynced_walk.simps) (simp add: uint256_is_zero_eq unsynced_put_def block_get_view)
next
  case (chain_next h b hs)
  then show ?case
    using chain_okD(2) [OF assms chain_next(1)]
    by (subst unsynced_walk.simps) (simp add: uint256_is_zero_eq unsynced_put_def block_get_view)
qed

text \<open>A client stands at a list of entries when it has come to the first of them.\<close>

definition client_at :: "(account \<times> account_info) list \<Rightarrow> frontier_req_client \<Rightarrow> bool" where
  "client_at cs c \<longleftrightarrow> (case cs of [] \<Rightarrow> frc_current c = 0 | e # _ \<Rightarrow> frc_current c = fst e \<and> frc_info c = snd e)"

lemma client_next_view:
  assumes "store_ok s"
  obtains c' where "client_next s c = Some c'" and "client_at (accounts_from (view s) (frc_current c + 1)) c'"
    and "frc_pulls c' = frc_pulls c"
proof (cases "accounts_from (view s) (frc_current c + 1)")
  case Nil
  then show thesis
    using that [of "c\<lparr>frc_current := 0\<rparr>"] latest_begin_view [OF assms, of "frc_current c + 1"]
    by (simp add: client_next_def latest_end_def iterator_end_def client_at_def)
next
  case (Cons e es)
  then show thesis
    using that [of "c\<lparr>frc_current := fst e, frc_info := snd e\<rparr>"] latest_begin_view [OF assms, of "frc_current c + 1"]
    by (auto simp: client_next_def latest_end_def iterator_end_def client_at_def)
qed

text \<open>
  The chains of all accounts, and the entries from some number on: what the loops over the
  accounts rest on.
\<close>

definition chains_from :: "ledger_view \<Rightarrow> (account \<Rightarrow> block_hash list) \<Rightarrow> (account \<times> account_info) list \<Rightarrow> bool" where
  "chains_from v ch cs \<longleftrightarrow> (\<exists>k. accounts_from v k = cs) \<and> accounts_plain v \<and>
     (\<forall>a i. mdb_get (infos v) a = Some i \<longrightarrow> chain_is (blocks v) (info_head i) (ch a))"

lemma chains_fromD:
  assumes "chains_from v ch (e # cs)"
  shows "fst e \<noteq> 0" "chain_is (blocks v) (info_head (snd e)) (ch (fst e))" "chains_from v ch cs"
    "accounts_from v (fst e + 1) = cs"
proof -
  obtain k a i where k: "accounts_from v k = (a, i) # cs" "e = (a, i)"
    using assms unfolding chains_from_def by (cases e) auto
  have "accounts_plain v" using assms by (simp add: chains_from_def)
  note plain = accounts_from_plain [OF this k(1)]
  show "fst e \<noteq> 0" "accounts_from v (fst e + 1) = cs"
    using plain accounts_from_next [OF k(1)] k(2) by simp_all
  then show "chain_is (blocks v) (info_head (snd e)) (ch (fst e))" "chains_from v ch cs"
    using assms plain k(2) by (auto simp: chains_from_def)
qed

lemma unsynced_accounts_skip:
  assumes "chain_ok P (blocks v)" and "chains_from v ch cs" and "client_at cs c"
    and "store_ok s" and "view s = v"
  shows "\<exists>c'. unsynced_accounts bound s c = Some (Some (with_unsynced
      (concat (map (ch \<circ> fst) (takeWhile (\<lambda>e. bound = None \<or> fst e < the bound) cs))) s, c')) \<and>
    chains_from v ch (dropWhile (\<lambda>e. bound = None \<or> fst e < the bound) cs) \<and>
    client_at (dropWhile (\<lambda>e. bound = None \<or> fst e < the bound) cs) c' \<and> frc_pulls c' = frc_pulls c"
  using assms(2-)
proof (induction cs arbitrary: c s)
  case Nil
  then show ?case by (subst unsynced_accounts.simps) (simp add: client_at_def uint256_is_zero_eq)
next
  case (Cons e cs)
  note D = chains_fromD [OF Cons(2)]
  have c: "frc_current c = fst e" "frc_info c = snd e" using Cons(3) by (simp_all add: client_at_def)
  show ?case
  proof (cases "bound = None \<or> fst e < the bound")
    case False
    then show ?thesis
      using c Cons(2,3) by (subst unsynced_accounts.simps) (auto simp: uint256_is_zero_eq)
  next
    case True
    have "blocks v 0 = None" using chain_okD(2) [OF assms(1)] by (metis not_None_eq)
    then have "takeWhile (\<lambda>k. k \<noteq> 0) (ch (fst e)) = ch (fst e)"
      using chain_is_stored [OF D(2)] by (auto simp: takeWhile_eq_all_conv)
    then have walk: "unsynced_walk (info_head (snd e)) 0 s = Some (Some (with_unsynced (ch (fst e)) s))"
      using unsynced_walk_chain [OF assms(1) D(2) Cons(4,5), of 0] by (simp only:)
    let ?s = "with_unsynced (ch (fst e)) s"
    have s: "store_ok ?s" "view ?s = v" using Cons(4,5) by simp_all
    obtain c1 where c1: "client_next ?s c = Some c1" "client_at cs c1" "frc_pulls c1 = frc_pulls c"
      using client_next_view [OF s(1), of c] s(2) D(4) c(1) by metis
    have "unsynced_accounts bound s c = unsynced_accounts bound ?s c1"
      using True D(1) c walk c1(1) by (subst unsynced_accounts.simps) (auto simp: uint256_is_zero_eq)
    then show ?thesis using Cons(1) [OF D(3) c1(2) s] c1(3) True by auto
  qed
qed

text \<open>
  The outcome of the comparison: \<open>ps\<close> are the accounts and heads that the other side sent, \<open>cs\<close>
  the own entries that are still to come. The first result are the accounts to pull with the
  block at which to stop, the second the hashes of the blocks to push.
\<close>

definition has_block :: "ledger_view \<Rightarrow> block_hash \<Rightarrow> bool" where
  "has_block v h \<longleftrightarrow> blocks v h \<noteq> None"

definition compared_head ::
  "(block_hash \<Rightarrow> bool) \<Rightarrow> block_hash list \<Rightarrow> account \<Rightarrow> block_hash \<Rightarrow> block_hash \<Rightarrow>
     (account \<times> block_hash) list \<times> block_hash list" where
  "compared_head has hs a theirs ours =
     (if theirs = ours then ([], [])
      else if has theirs then ([], takeWhile (\<lambda>k. k \<noteq> theirs) hs)
      else ([(a, ours)], []))"

definition merged :: "'a list \<times> 'b list \<Rightarrow> 'a list \<times> 'b list \<Rightarrow> 'a list \<times> 'b list" where
  "merged x y = (fst x @ fst y, snd x @ snd y)"

fun frontier_merge ::
  "(block_hash \<Rightarrow> bool) \<Rightarrow> (account \<Rightarrow> block_hash list) \<Rightarrow> (account \<times> block_hash) list \<Rightarrow>
     (account \<times> account_info) list \<Rightarrow> (account \<times> block_hash) list \<times> block_hash list" where
  "frontier_merge has ch [] cs = ([], concat (map (ch \<circ> fst) cs))"
| "frontier_merge has ch ((a, h) # ps) [] = merged ([(a, 0)], []) (frontier_merge has ch ps [])"
| "frontier_merge has ch ((a, h) # ps) ((c, i) # cs) =
     (if c < a then merged ([], ch c) (frontier_merge has ch ((a, h) # ps) cs)
      else if c = a
      then merged (compared_head has (ch c) a h (info_head i)) (frontier_merge has ch ps cs)
      else merged ([(a, 0)], []) (frontier_merge has ch ps ((c, i) # cs)))"

lemma merged_simps [simp]:
  "merged ([], []) y = y" "merged (merged x y) z = merged x (merged y z)"
  "fst (merged x y) = fst x @ fst y" "snd (merged x y) = snd x @ snd y"
  by (simp_all add: merged_def)

lemma frontier_merge_skip:
  "frontier_merge has ch ((a, h) # ps) cs =
     merged ([], concat (map (ch \<circ> fst) (takeWhile (\<lambda>e. fst e < a) cs)))
       (frontier_merge has ch ((a, h) # ps) (dropWhile (\<lambda>e. fst e < a) cs))"
  by (induction cs) (auto simp: merged_def)

lemma update_new: "k \<notin> fst ` set al \<Longrightarrow> AList.update k v al = al @ [(k, v)]"
  by (induction al) auto

lemma received_account_merge:
  assumes "chain_ok P (blocks v)" and "chains_from v ch cs" and "client_at cs c"
    and "store_ok s" and "view s = v" and "a \<notin> fst ` set (frc_pulls c)"
  obtains cs' c' x where "received_account a h s c = Some (Some (with_unsynced (snd x) s, c'))"
    and "\<And>ps. frontier_merge (has_block v) ch ((a, h) # ps) cs =
      merged x (frontier_merge (has_block v) ch ps cs')"
    and "chains_from v ch cs'" and "client_at cs' c'" and "frc_pulls c' = frc_pulls c @ fst x"
    and "set (fst x) \<subseteq> {a} \<times> UNIV"
proof -
  let ?merge = "frontier_merge (has_block v) ch"
  define skip rest where "skip = concat (map (ch \<circ> fst) (takeWhile (\<lambda>e. fst e < a) cs))"
    and "rest = dropWhile (\<lambda>e. fst e < a) cs"
  obtain c1 where c1: "unsynced_accounts (Some a) s c = Some (Some (with_unsynced skip s, c1))"
    "chains_from v ch rest" "client_at rest c1" "frc_pulls c1 = frc_pulls c"
    using unsynced_accounts_skip [OF assms(1-5), of "Some a"] by (auto simp: skip_def rest_def)
  have merge: "?merge ((a, h) # ps) cs = merged ([], skip) (?merge ((a, h) # ps) rest)" for ps
    by (subst frontier_merge_skip) (simp add: skip_def rest_def)
  let ?s = "with_unsynced skip s"
  have s: "store_ok ?s" "view ?s = v" using assms(4,5) by simp_all
  show thesis
  proof (cases rest)
    case Nil
    show thesis
    proof (rule that [of "([(a, 0)], skip)" "request_account a c1" "[]"])
      show "?merge ((a, h) # ps) cs = merged ([(a, 0)], skip) (?merge ps [])" for ps
        by (simp add: merge Nil merged_def)
    qed (use c1 Nil assms(6) in \<open>auto simp: received_account_def client_at_def uint256_is_zero_eq
        request_account_def update_new\<close>)
  next
    case (Cons e cs')
    note D = chains_fromD [OF c1(2) [unfolded Cons]]
    have e: "frc_current c1 = fst e" "frc_info c1 = snd e" using c1(3) Cons by (simp_all add: client_at_def)
    have "\<not> fst e < a" using Cons unfolding rest_def by (metis hd_dropWhile list.distinct(1) list.sel(1))
    show thesis
    proof (cases "fst e = a")
      case False
      then have less: "a < fst e" using \<open>\<not> fst e < a\<close> by simp
      show thesis
      proof (rule that [of "([(a, 0)], skip)" "request_account a c1" rest])
        show "?merge ((a, h) # ps) cs = merged ([(a, 0)], skip) (?merge ps rest)" for ps
          using less False by (cases e) (simp add: merge Cons merged_def less_not_sym)
        show "client_at rest (request_account a c1)" using c1(3) Cons by (simp add: client_at_def request_account_def)
      qed (use c1 D(1) e less False assms(6) in \<open>auto simp: received_account_def uint256_is_zero_eq assert_def
          request_account_def update_new\<close>)
    next
      case True
      define x where "x = compared_head (has_block v) (ch a) a h (info_head (snd e))"
      define c2 where "c2 = c1\<lparr>frc_pulls := frc_pulls c @ fst x\<rparr>"
      have cmp: "compare_head a h ?s c1 = Some (Some (with_unsynced (snd x) ?s, c2))"
        using unsynced_walk_chain [OF assms(1) D(2) s, of h] c1(4) e True assms(6) block_exists_view [OF s(1), of h] s(2)
        by (auto simp: compare_head_def x_def compared_head_def c2_def update_new has_block_def)
      have s2: "store_ok (with_unsynced (snd x) ?s)" "view (with_unsynced (snd x) ?s) = v" using s by simp_all
      obtain c3 where c3: "client_next (with_unsynced (snd x) ?s) c2 = Some c3" "client_at cs' c3"
        "frc_pulls c3 = frc_pulls c2"
        using client_next_view [OF s2(1), of c2] s2(2) D(4) e(1) unfolding c2_def by auto
      show thesis
      proof (rule that [of "merged ([], skip) x" c3 cs'])
        show "?merge ((a, h) # ps) cs = merged (merged ([], skip) x) (?merge ps cs')" for ps
          using True by (cases e) (simp add: merge Cons x_def)
        show "received_account a h s c = Some (Some (with_unsynced (snd (merged ([], skip) x)) s, c3))"
          using c1(1) e(1) D(1) True cmp c3(1) by (simp add: received_account_def uint256_is_zero_eq)
        show "set (fst (merged ([], skip) x)) \<subseteq> {a} \<times> UNIV" by (auto simp: x_def compared_head_def)
      qed (use c3 c1 D in \<open>simp_all add: c2_def\<close>)
    qed
  qed
qed

definition head_pairs :: "(account \<times> account_info) list \<Rightarrow> (account \<times> block_hash) list" where
  "head_pairs es = map (\<lambda>(a, i). (a, info_head i)) es"

lemma head_pairs_simps [simp]:
  "head_pairs [] = []" "head_pairs ((a, i) # es) = (a, info_head i) # head_pairs es"
  "fst ` set (head_pairs es) = fst ` set es"
  by (auto simp: head_pairs_def image_image split_beta)

lemma heads_bytes_simps:
  "heads_bytes [] = bytes256 0 @ bytes256 0"
  "heads_bytes ((a, i) # es) = bytes256 a @ bytes256 (info_head i) @ heads_bytes es"
  by (simp_all add: heads_bytes_def)

lemma take_bytes256: "take 32 (bytes256 x @ y) = bytes256 x"
  by simp

lemma takeWhile_True: "takeWhile (\<lambda>e. True) xs = xs"
  by (simp add: takeWhile_eq_all_conv)

lemma receive_frontier_merge:
  assumes "chain_ok P (blocks v)" and "chains_from v ch cs" and "client_at cs c"
    and "store_ok s" and "view s = v"
    and "distinct (map fst es)" and "fst ` set es \<inter> fst ` set (frc_pulls c) = {}" and "0 \<notin> fst ` set es"
  shows "\<exists>c'. receive_frontier (heads_bytes es) s c =
      Some (Some (True, with_unsynced (snd (frontier_merge (has_block v) ch (head_pairs es) cs)) s, c')) \<and>
    frc_pulls c' = frc_pulls c @ fst (frontier_merge (has_block v) ch (head_pairs es) cs)"
  using assms(2-)
proof (induction es arbitrary: cs c s)
  case Nil
  obtain c' where c': "unsynced_accounts None s c = Some (Some (with_unsynced (concat (map (ch \<circ> fst) cs)) s, c'))"
    "frc_pulls c' = frc_pulls c"
    using unsynced_accounts_skip [OF assms(1) Nil(1-4), of None] by (auto simp: takeWhile_True)
  have "number256 (take 32 (heads_bytes [])) = 0" unfolding heads_bytes_simps by (simp only: take_bytes256 number_bytes)
  moreover have "length (heads_bytes []) = 64" by (simp add: heads_bytes_simps)
  ultimately show ?case using c' by (subst receive_frontier.simps) (simp add: uint256_is_zero_eq)
next
  case (Cons e es)
  obtain a i where e: "e = (a, i)" by (cases e)
  have a: "a \<noteq> 0" "a \<notin> fst ` set (frc_pulls c)" using Cons(7,8) e by auto
  obtain cs' c' x where step: "received_account a (info_head i) s c = Some (Some (with_unsynced (snd x) s, c'))"
    and merge: "\<And>ps. frontier_merge (has_block v) ch ((a, info_head i) # ps) cs =
      merged x (frontier_merge (has_block v) ch ps cs')"
    and c': "chains_from v ch cs'" "client_at cs' c'" "frc_pulls c' = frc_pulls c @ fst x"
    and x: "set (fst x) \<subseteq> {a} \<times> UNIV"
    by (rule received_account_merge [OF assms(1) Cons(2-5) a(2), of "info_head i"]) (rule that; assumption)
  let ?s = "with_unsynced (snd x) s"
  have "receive_frontier (heads_bytes (e # es)) s c = receive_frontier (heads_bytes es) ?s c'"
    using step a(1) by (subst receive_frontier.simps) (simp add: heads_bytes_simps e uint256_is_zero_eq)
  moreover have "store_ok ?s" "view ?s = v" using Cons(4,5) by simp_all
  moreover have "fst ` set (fst x) \<subseteq> {a}" using image_mono [OF x, of fst] by simp
  then have "fst ` set (frc_pulls c') \<subseteq> insert a (fst ` set (frc_pulls c))" by (simp add: c'(3) image_Un) blast
  then have "fst ` set es \<inter> fst ` set (frc_pulls c') = {}"
    using Cons(6,7) unfolding e list.map list.set distinct.simps set_map image_insert fst_conv by blast
  moreover have "distinct (map fst es)" "0 \<notin> fst ` set es" using Cons(6,8) by auto
  ultimately show ?case
    using Cons(1) [OF c'(1,2), of ?s] c'(3) by (auto simp: e merge)
qed

text \<open>The outcome in terms of the two sets of entries.\<close>

lemma frontier_merge_pulls:
  assumes "sorted_wrt (<) (map fst ps)" and "sorted_wrt (<) (map fst cs)"
  shows "(a, e) \<in> set (fst (frontier_merge has ch ps cs)) \<longleftrightarrow>
    (\<exists>h. (a, h) \<in> set ps \<and> (case map_of cs a of
        None \<Rightarrow> e = 0
      | Some i \<Rightarrow> h \<noteq> info_head i \<and> \<not> has h \<and> e = info_head i))"
  using assms
proof (induction has ch ps cs rule: frontier_merge.induct)
  case (3 has ch b h ps c i cs)
  have gt: "(x, y) \<in> set ps \<Longrightarrow> b < x" "(x, z) \<in> set cs \<Longrightarrow> c < x" for x y z using "3.prems" by auto
  have none: "x \<le> c \<Longrightarrow> map_of cs x = None" for x
    using gt(2) by (metis leD map_of_SomeD not_None_eq)
  let ?R = "\<lambda>cs h. case map_of cs a of
        None \<Rightarrow> e = 0
      | Some i \<Rightarrow> h \<noteq> info_head i \<and> \<not> has h \<and> e = info_head i"
  have split: "(\<exists>x. (a, x) \<in> set ((b, h) # ps) \<and> R x) \<longleftrightarrow> (a = b \<and> R h) \<or> (\<exists>x. (a, x) \<in> set ps \<and> R x)" for R
    by auto
  have same: "(\<exists>x. (a, x) \<in> set qs \<and> ?R ((c, i) # cs) x) \<longleftrightarrow> (\<exists>x. (a, x) \<in> set qs \<and> ?R cs x)"
    if "\<And>x. (a, x) \<in> set qs \<Longrightarrow> a \<noteq> c" for qs
    using that by (intro ex_cong1 conj_cong refl) simp
  consider "c < b" | "c = b" | "b < c" by (rule linorder_cases)
  then show ?case
  proof cases
    case 1
    have "\<And>x. (a, x) \<in> set ((b, h) # ps) \<Longrightarrow> a \<noteq> c" using gt(1) [of a] 1 by (auto dest: less_asym)
    note same [OF this]
    moreover have "(a, e) \<in> set (fst (frontier_merge has ch ((b, h) # ps) ((c, i) # cs))) \<longleftrightarrow>
        (a, e) \<in> set (fst (frontier_merge has ch ((b, h) # ps) cs))"
      using 1 by simp
    moreover have "(a, e) \<in> set (fst (frontier_merge has ch ((b, h) # ps) cs)) \<longleftrightarrow>
        (\<exists>x. (a, x) \<in> set ((b, h) # ps) \<and> ?R cs x)"
      using "3.IH"(1) "3.prems" 1 by simp
    ultimately show ?thesis by (simp only:)
  next
    case 2
    have "\<And>x. (a, x) \<in> set ps \<Longrightarrow> a \<noteq> c" using gt(1) [of a] 2 by auto
    note same [OF this]
    moreover have "(a, e) \<in> set (fst (frontier_merge has ch ((b, h) # ps) ((c, i) # cs))) \<longleftrightarrow>
        (a, e) \<in> set (fst (compared_head has (ch c) b h (info_head i))) \<or> (a, e) \<in> set (fst (frontier_merge has ch ps cs))"
      using 2 by simp
    moreover have "(a, e) \<in> set (fst (frontier_merge has ch ps cs)) \<longleftrightarrow> (\<exists>x. (a, x) \<in> set ps \<and> ?R cs x)"
      using "3.IH"(2) "3.prems" 2 by simp
    moreover have "(a, e) \<in> set (fst (compared_head has (ch c) b h (info_head i))) \<longleftrightarrow> a = b \<and> ?R ((c, i) # cs) h"
      using 2 by (simp add: compared_head_def)
    ultimately show ?thesis by (simp only: split)
  next
    case 3
    then have ne: "c \<noteq> b" "\<not> c < b" by auto
    have "(a, e) \<in> set (fst (frontier_merge has ch ((b, h) # ps) ((c, i) # cs))) \<longleftrightarrow>
        (a = b \<and> e = 0) \<or> (a, e) \<in> set (fst (frontier_merge has ch ps ((c, i) # cs)))"
      using ne by auto
    moreover have "(a, e) \<in> set (fst (frontier_merge has ch ps ((c, i) # cs))) \<longleftrightarrow>
        (\<exists>x. (a, x) \<in> set ps \<and> ?R ((c, i) # cs) x)"
      using "3.IH"(3) "3.prems" ne by simp
    moreover have "a = b \<Longrightarrow> ?R ((c, i) # cs) h \<longleftrightarrow> e = 0" using none [of b] 3 ne by simp
    ultimately show ?thesis by (simp only: split cong: conj_cong)
  qed
next
  case (2 has ch b h ps)
  then show ?case by auto
qed simp

lemma frontier_merge_marks:
  assumes "sorted_wrt (<) (map fst ps)" and "sorted_wrt (<) (map fst cs)"
  shows "k \<in> set (snd (frontier_merge has ch ps cs)) \<longleftrightarrow>
    (\<exists>a i. (a, i) \<in> set cs \<and> (case map_of ps a of
        None \<Rightarrow> k \<in> set (ch a)
      | Some h \<Rightarrow> h \<noteq> info_head i \<and> has h \<and> k \<in> set (takeWhile (\<lambda>k. k \<noteq> h) (ch a))))"
  using assms
proof (induction has ch ps cs rule: frontier_merge.induct)
  case (1 has ch cs)
  then show ?case by (force simp: image_iff)
next
  case (3 has ch b h ps c i cs)
  have gt: "(x, y) \<in> set ps \<Longrightarrow> b < x" "(x, z) \<in> set cs \<Longrightarrow> c < x" for x y z using "3.prems" by auto
  have none: "x \<le> b \<Longrightarrow> map_of ps x = None" for x
    using gt(1) by (metis leD map_of_SomeD not_None_eq)
  have cs: "(c, y) \<notin> set cs" for y using gt(2) by blast
  let ?Q = "\<lambda>ps a i. case map_of ps a of
        None \<Rightarrow> k \<in> set (ch a)
      | Some h \<Rightarrow> h \<noteq> info_head i \<and> has h \<and> k \<in> set (takeWhile (\<lambda>k. k \<noteq> h) (ch a))"
  have split: "(\<exists>a j. (a, j) \<in> set ((c, i) # cs) \<and> Q a j) \<longleftrightarrow> Q c i \<or> (\<exists>a j. (a, j) \<in> set cs \<and> Q a j)" for Q
    by auto
  consider "c < b" | "c = b" | "b < c" by (rule linorder_cases)
  then show ?case
  proof cases
    case 1
    then have "?Q ((b, h) # ps) c i \<longleftrightarrow> k \<in> set (ch c)" using none [of c] by auto
    then show ?thesis using "3.IH"(1) "3.prems" 1 by (simp only: split) simp
  next
    case 2
    have "?Q ((b, h) # ps) c i \<longleftrightarrow> k \<in> set (snd (compared_head has (ch c) b h (info_head i)))"
      using 2 by (simp add: compared_head_def)
    moreover have "(\<exists>a j. (a, j) \<in> set cs \<and> ?Q ((b, h) # ps) a j) \<longleftrightarrow> (\<exists>a j. (a, j) \<in> set cs \<and> ?Q ps a j)"
      using cs 2 by (intro ex_cong1 conj_cong refl) auto
    moreover have "k \<in> set (snd (frontier_merge has ch ((b, h) # ps) ((c, i) # cs))) \<longleftrightarrow>
        k \<in> set (snd (compared_head has (ch c) b h (info_head i))) \<or> k \<in> set (snd (frontier_merge has ch ps cs))"
      using 2 by simp
    moreover have "k \<in> set (snd (frontier_merge has ch ps cs)) \<longleftrightarrow> (\<exists>a j. (a, j) \<in> set cs \<and> ?Q ps a j)"
      using "3.IH"(2) "3.prems" 2 by simp
    ultimately show ?thesis by (simp only: split)
  next
    case 3
    then have "?Q ((b, h) # ps) a j = ?Q ps a j" if "(a, j) \<in> set ((c, i) # cs)" for a j
      using that gt(2) [of a j] by auto
    then have "(\<exists>a j. (a, j) \<in> set ((c, i) # cs) \<and> ?Q ((b, h) # ps) a j) \<longleftrightarrow>
        (\<exists>a j. (a, j) \<in> set ((c, i) # cs) \<and> ?Q ps a j)"
      by (intro ex_cong1 conj_cong refl)
    moreover have "c \<noteq> b" "\<not> c < b" using 3 by auto
    then have "k \<in> set (snd (frontier_merge has ch ((b, h) # ps) ((c, i) # cs))) \<longleftrightarrow>
        (\<exists>a j. (a, j) \<in> set ((c, i) # cs) \<and> ?Q ps a j)"
      using "3.IH"(3) "3.prems" by simp
    ultimately show ?thesis by (simp only:)
  qed
qed auto

end
