(* ===== verification/Bootstrap_Replica.thy ===== *)
theory Bootstrap_Replica
  imports Bootstrap_Client
begin

text \<open>
  A bootstrap from end to end: the requests and answers of the client and the server together,
  for a client whose ledger is part of the server's.
\<close>

section \<open>Chains of a ledger and of a part of it\<close>

text \<open>The blocks of every account as a list, the head first.\<close>

definition chain_lists :: "ledger_view \<Rightarrow> (account \<Rightarrow> block_hash list) \<Rightarrow> bool" where
  "chain_lists v ch \<longleftrightarrow> (\<forall>a i. mdb_get (infos v) a = Some i \<longrightarrow>
     chain_is (blocks v) (info_head i) (ch a) \<and> set (ch a) = {k. account_is (blocks v) k a})"

lemma chain_listsD:
  "chain_lists v ch \<Longrightarrow> mdb_get (infos v) a = Some i \<Longrightarrow> chain_is (blocks v) (info_head i) (ch a)"
  "chain_lists v ch \<Longrightarrow> mdb_get (infos v) a = Some i \<Longrightarrow> k \<in> set (ch a) \<longleftrightarrow> account_is (blocks v) k a"
  by (simp_all add: chain_lists_def)

lemma chains_exist:
  assumes "ledger_inv P v" and "chains_ok v"
  obtains ch where "chain_lists v ch"
proof -
  note inv = ledger_invD [OF assms(1)]
  have "\<exists>hs. mdb_get (infos v) a = Some i \<longrightarrow>
      chain_is (blocks v) (info_head i) hs \<and> set hs = {k. account_is (blocks v) k a}" for a i
    using account_chain [OF assms(2) inv(3,2) _ inv(1)] by metis
  then have "\<exists>hs. \<forall>i. mdb_get (infos v) a = Some i \<longrightarrow>
      chain_is (blocks v) (info_head i) hs \<and> set hs = {k. account_is (blocks v) k a}" for a
    by (cases "mdb_get (infos v) a") auto
  then have "\<exists>ch. chain_lists v ch" unfolding chain_lists_def by (intro choice allI)
  then show ?thesis using that by blast
qed

lemma chain_is_from: "chain_is m h hs \<Longrightarrow> k \<in> set hs \<Longrightarrow> chain_is m k (dropWhile (\<lambda>x. x \<noteq> k) hs)"
proof (induction rule: chain_is.induct)
  case (chain_next h b hs)
  then show ?case using chain_is.chain_next [OF chain_next(1-3)] by auto
qed (auto intro: chain_open)

lemma partD:
  assumes "whole P v" and "part_of P v w"
  shows "ledger_inv P v" "chains_ok v" "ledger_inv P w" "chains_ok w" "blocks w \<subseteq>\<^sub>m blocks v"
  using assms by (simp_all add: whole_def part_of_def)

lemma part_account:
  assumes "whole P v" and "part_of P v w" and "account_is (blocks v) k a"
  shows "account_is (blocks w) k a \<longleftrightarrow> blocks w k \<noteq> None"
proof
  note p = partD [OF assms(1,2)]
  assume "blocks w k \<noteq> None"
  then obtain c where c: "account_is (blocks w) k c" using ledger_invD(8) [OF p(3)] unfolding walks_ok_def by blast
  then have "c = a" using account_is_fun [OF assms(3)] account_is_mono [OF c p(5)] by simp
  then show "account_is (blocks w) k a" using c by simp
qed (rule chain_stored(2))

text \<open>The accounts of the part are accounts of the whole.\<close>

lemma part_infos:
  assumes "whole P v" and "part_of P v w" and "mdb_get (infos w) a = Some j"
  obtains i where "mdb_get (infos v) a = Some i"
proof -
  note p = partD [OF assms(1,2)]
  have "account_is (blocks v) (info_head j) a"
    using account_is_mono [OF heads_okD(3) [OF ledger_invD(3) [OF p(3)] assms(3)] p(5)] .
  then show ?thesis using account_known [OF p(2) ledger_invD(3) [OF p(1)]] that by blast
qed

text \<open>The blocks of an account that the part lacks are those above its head there.\<close>

lemma part_missing:
  assumes "whole P v" and "part_of P v w" and "chain_lists v ch"
    and i: "mdb_get (infos v) a = Some i" and j: "mdb_get (infos w) a = Some j"
  shows "set (takeWhile (\<lambda>k. k \<noteq> info_head j) (ch a)) = {k \<in> set (ch a). blocks w k = None}"
    and "info_head j \<in> set (ch a)"
    and "info_head i \<noteq> info_head j \<Longrightarrow> blocks w (info_head i) = None"
    and "info_head i = info_head j \<Longrightarrow> k \<in> set (ch a) \<Longrightarrow> blocks w k \<noteq> None"
proof -
  note p = partD [OF assms(1,2)]
  let ?e = "info_head j"
  obtain cw where "chain_lists w cw" by (rule chains_exist [OF p(3,4)])
  note cw = chain_listsD [OF this j] and ch = chain_listsD [OF assms(3) i]
  have acc: "account_is (blocks v) ?e a"
    using account_is_mono [OF heads_okD(3) [OF ledger_invD(3) [OF p(3)] j] p(5)] .
  then show e: "?e \<in> set (ch a)" by (simp add: ch(2))
  have drop: "dropWhile (\<lambda>k. k \<noteq> ?e) (ch a) = cw a"
    using chain_is_fun [OF chain_is_from [OF ch(1) e] chain_is_mono [OF cw(1) p(5)]] .
  have part: "k \<in> set (cw a) \<longleftrightarrow> k \<in> set (ch a) \<and> blocks w k \<noteq> None" for k
    using part_account [OF assms(1,2)] account_is_mono [OF _ p(5)] chain_stored(2) by (auto simp: cw(2) ch(2))
  have split: "ch a = takeWhile (\<lambda>k. k \<noteq> ?e) (ch a) @ cw a" using drop takeWhile_dropWhile_id by metis
  have "distinct (ch a)" by (rule chain_is_list(3) [OF ch(1)])
  then have "set (takeWhile (\<lambda>k. k \<noteq> ?e) (ch a)) \<inter> set (cw a) = {}" using split by (metis distinct_append)
  moreover have "set (ch a) = set (takeWhile (\<lambda>k. k \<noteq> ?e) (ch a)) \<union> set (cw a)"
    using arg_cong [OF split, of set] by simp
  ultimately show taken: "set (takeWhile (\<lambda>k. k \<noteq> ?e) (ch a)) = {k \<in> set (ch a). blocks w k = None}"
    using part by blast
  obtain hs where hs: "ch a = info_head i # hs" using ch(1) by cases auto
  then have "info_head i \<noteq> ?e \<Longrightarrow> info_head i \<in> set (takeWhile (\<lambda>k. k \<noteq> ?e) (ch a))" by simp
  then show "blocks w (info_head i) = None" if "info_head i \<noteq> ?e" using taken that by blast
  show "blocks w k \<noteq> None" if "info_head i = ?e" "k \<in> set (ch a)"
    using taken that hs by auto
qed

lemma part_unknown:
  assumes "whole P v" and "part_of P v w" and "chain_lists v ch"
    and "mdb_get (infos v) a = Some i" and "mdb_get (infos w) a = None" and "k \<in> set (ch a)"
  shows "blocks w k = None"
proof (rule ccontr)
  note p = partD [OF assms(1,2)]
  assume "blocks w k \<noteq> None"
  then have "account_is (blocks w) k a"
    using part_account [OF assms(1,2)] chain_listsD(2) [OF assms(3,4)] assms(6) by simp
  then show False using account_known [OF p(4) ledger_invD(3) [OF p(3)]] assms(5) by blast
qed

section \<open>The pulls\<close>

definition pull_blocks :: "ledger_view \<Rightarrow> (account \<Rightarrow> block_hash list) \<Rightarrow> (account \<times> block_hash) list \<Rightarrow> block list" where
  "pull_blocks v ch pulls = concat (map (\<lambda>(a, e). map (\<lambda>h. the (blocks v h)) (takeWhile (\<lambda>k. k \<noteq> e) (ch a))) pulls)"

lemma blocks_bytes_map: "blocks_bytes v hs = concat (map serialize_block (map (\<lambda>h. the (blocks v h)) hs))"
  by (simp add: blocks_bytes_def o_def)

lemma with_unchecked_append: "with_unchecked P (xs @ ys) s = with_unchecked P ys (with_unchecked P xs s)"
  by (simp add: with_unchecked_def)

lemma pull_requests_all:
  assumes "ledger_ok P t" and "whole P (view t)" and "chain_lists (view t) ch"
    and "\<forall>(a, e)\<in>set pulls. mdb_get (infos (view t)) a \<noteq> None \<and> (blocks (view t) e \<noteq> None \<longrightarrow> e \<in> set (ch a))"
  shows "pull_requests P (serve_request P now_l t) pulls s = Some (Some (True, with_unchecked P (pull_blocks (view t) ch pulls) s))"
  using assms(4)
proof (induction pulls arbitrary: s)
  case Nil
  then show ?case by (simp add: pull_blocks_def with_unchecked_def)
next
  case (Cons p pulls)
  obtain a e where p: "p = (a, e)" by (cases p)
  obtain i where i: "mdb_get (infos (view t)) a = Some i" using Cons(2) p by auto
  have whole: "chains_ok (view t)" "mdb_get (infos (view t)) 0 = None" using assms(2) by (simp_all add: whole_def)
  have "set (ch a) = {k. account_is (blocks (view t)) k a}" using assms(3) i by (simp add: chain_lists_def)
  then have "bulk_pull_respond t (make_bulk_pull a e) =
      Some (Some (blocks_bytes (view t) (takeWhile (\<lambda>k. k \<noteq> e) (ch a)) @ [1]))"
    using bulk_pull_respond_eq [OF assms(1) whole i chain_listsD(1) [OF assms(3) i] _ make_bulk_pull_def] Cons(2) p
    by auto
  moreover have "pull_receive_block P (blocks_bytes (view t) hs @ [1]) s =
      Some (True, with_unchecked P (map (\<lambda>h. the (blocks (view t) h)) hs) s)" for hs
    unfolding blocks_bytes_map by (rule pull_receive_blocks)
  ultimately show ?case using Cons p by (simp add: serve_bulk_pull pull_blocks_def with_unchecked_append)
qed

lemma head_pairs_map_of: "map_of (head_pairs es) a = map_option info_head (map_of es a)"
  by (induction es) (auto simp: head_pairs_def)

lemma head_pairs_fst: "map fst (head_pairs es) = map fst es"
  by (simp add: head_pairs_def split_def)

lemma head_pairs_in:
  "(a, h) \<in> set (head_pairs (mdb_entries d)) \<longleftrightarrow> (\<exists>i. mdb_get d a = Some i \<and> h = info_head i)"
proof -
  have "distinct (map fst (head_pairs (mdb_entries d)))" by (simp add: head_pairs_fst)
  then have "(a, h) \<in> set (head_pairs (mdb_entries d)) \<longleftrightarrow> map_of (head_pairs (mdb_entries d)) a = Some h" by simp
  then show ?thesis by (auto simp: head_pairs_map_of mdb_get_entries)
qed

lemma merge_pulls:
  assumes "frontier_merge has cw (head_pairs (mdb_entries (infos v))) (mdb_entries (infos w)) = (pulls, marks)"
  shows "(a, e) \<in> set pulls \<longleftrightarrow> (\<exists>i. mdb_get (infos v) a = Some i \<and> (case mdb_get (infos w) a of
      None \<Rightarrow> e = 0 | Some j \<Rightarrow> info_head i \<noteq> info_head j \<and> \<not> has (info_head i) \<and> e = info_head j))"
    and "k \<in> set marks \<longleftrightarrow> (\<exists>a j. mdb_get (infos w) a = Some j \<and> (case mdb_get (infos v) a of
        None \<Rightarrow> k \<in> set (cw a)
      | Some i \<Rightarrow> info_head i \<noteq> info_head j \<and> has (info_head i) \<and> k \<in> set (takeWhile (\<lambda>k. k \<noteq> info_head i) (cw a))))"
proof -
  let ?ps = "head_pairs (mdb_entries (infos v))" and ?cs = "mdb_entries (infos w)"
  have sorted: "sorted_wrt (<) (map fst ?ps)" "sorted_wrt (<) (map fst ?cs)" by (simp_all add: head_pairs_fst)
  show "(a, e) \<in> set pulls \<longleftrightarrow> (\<exists>i. mdb_get (infos v) a = Some i \<and> (case mdb_get (infos w) a of
      None \<Rightarrow> e = 0 | Some j \<Rightarrow> info_head i \<noteq> info_head j \<and> \<not> has (info_head i) \<and> e = info_head j))"
    using frontier_merge_pulls [OF sorted, of a e has cw] assms unfolding head_pairs_in mdb_get_entries by auto
  have "map_of ?ps a = map_option info_head (mdb_get (infos v) a)" for a
    by (simp add: head_pairs_map_of mdb_get_entries)
  moreover have "(a, j) \<in> set ?cs \<longleftrightarrow> mdb_get (infos w) a = Some j" for a j by (simp add: mdb_get_iff)
  ultimately show "k \<in> set marks \<longleftrightarrow> (\<exists>a j. mdb_get (infos w) a = Some j \<and> (case mdb_get (infos v) a of
        None \<Rightarrow> k \<in> set (cw a)
      | Some i \<Rightarrow> info_head i \<noteq> info_head j \<and> has (info_head i) \<and> k \<in> set (takeWhile (\<lambda>k. k \<noteq> info_head i) (cw a))))"
    using frontier_merge_marks [OF sorted, of k has cw] assms
    by (simp add: o_def cong: option.case_cong)
qed

text \<open>
  What the comparison of heads asks for when the own ledger is part of the other one: nothing
  is pushed, and the blocks of the pulls are exactly those that are missing.
\<close>

lemma merge_part:
  assumes whole: "whole P v" and part: "part_of P v w" and ch: "chain_lists v ch"
    and m: "frontier_merge (has_block w) cw (head_pairs (mdb_entries (infos v))) (mdb_entries (infos w)) = (pulls, marks)"
  shows "marks = []"
    and "(a, e) \<in> set pulls \<longleftrightarrow> (\<exists>i. mdb_get (infos v) a = Some i \<and> (case mdb_get (infos w) a of
      None \<Rightarrow> e = 0 | Some j \<Rightarrow> info_head i \<noteq> info_head j \<and> e = info_head j))"
proof -
  have "k \<notin> set marks" for k
  proof
    assume "k \<in> set marks"
    then obtain a j where j: "mdb_get (infos w) a = Some j" "case mdb_get (infos v) a of None \<Rightarrow> k \<in> set (cw a)
        | Some i \<Rightarrow> info_head i \<noteq> info_head j \<and> has_block w (info_head i) \<and>
            k \<in> set (takeWhile (\<lambda>k. k \<noteq> info_head i) (cw a))"
      using merge_pulls(2) [OF m, of k] by blast
    obtain i where i: "mdb_get (infos v) a = Some i" by (rule part_infos [OF whole part j(1)])
    then show False using part_missing(3) [OF whole part ch i j(1)] j(2) by (simp add: has_block_def)
  qed
  then show "marks = []" by (metis ex_in_conv set_empty)
  have has: "\<not> has_block w (info_head i)"
    if "mdb_get (infos v) a = Some i" "mdb_get (infos w) a = Some j" "info_head i \<noteq> info_head j" for i j
    using part_missing(3) [OF whole part ch that] by (simp add: has_block_def)
  show "(a, e) \<in> set pulls \<longleftrightarrow> (\<exists>i. mdb_get (infos v) a = Some i \<and> (case mdb_get (infos w) a of
      None \<Rightarrow> e = 0 | Some j \<Rightarrow> info_head i \<noteq> info_head j \<and> e = info_head j))"
    unfolding merge_pulls(1) [OF m] using has by (cases "mdb_get (infos w) a") auto
qed

text \<open>A list of pulls that asks for all that is missing.\<close>

definition asks_missing :: "ledger_view \<Rightarrow> ledger_view \<Rightarrow> (account \<times> block_hash) list \<Rightarrow> bool" where
  "asks_missing v w pulls \<longleftrightarrow> (\<forall>a e. (a, e) \<in> set pulls \<longleftrightarrow> (\<exists>i. mdb_get (infos v) a = Some i \<and>
     (case mdb_get (infos w) a of None \<Rightarrow> e = 0 | Some j \<Rightarrow> info_head i \<noteq> info_head j \<and> e = info_head j)))"

lemma asks_missing:
  assumes whole: "whole P v" and part: "part_of P v w" and ch: "chain_lists v ch" and pulls: "asks_missing v w pulls"
  shows "(a, e) \<in> set pulls \<Longrightarrow> mdb_get (infos v) a \<noteq> None \<and> (blocks v e \<noteq> None \<longrightarrow> e \<in> set (ch a)) \<and>
      set (takeWhile (\<lambda>k. k \<noteq> e) (ch a)) = {k. account_is (blocks v) k a \<and> blocks w k = None}"
    and "account_is (blocks v) h a \<Longrightarrow> blocks w h = None \<Longrightarrow> \<exists>e. (a, e) \<in> set pulls"
proof -
  note p = partD [OF whole part]
  have none: "blocks v 0 = None" using chain_okD(2) [OF ledger_invD(1) [OF p(1)]] by (metis not_None_eq)
  show "mdb_get (infos v) a \<noteq> None \<and> (blocks v e \<noteq> None \<longrightarrow> e \<in> set (ch a)) \<and>
      set (takeWhile (\<lambda>k. k \<noteq> e) (ch a)) = {k. account_is (blocks v) k a \<and> blocks w k = None}"
    if ae: "(a, e) \<in> set pulls"
  proof -
    obtain i where i: "mdb_get (infos v) a = Some i" using ae pulls unfolding asks_missing_def by blast
    have ch': "set (ch a) = {k. account_is (blocks v) k a}" using ch i by (simp add: chain_lists_def)
    show ?thesis
    proof (cases "mdb_get (infos w) a")
      case None
      then have "e = 0" using ae pulls unfolding asks_missing_def by auto
      moreover have "takeWhile (\<lambda>k. k \<noteq> 0) (ch a) = ch a"
        using chain_is_stored [OF chain_listsD(1) [OF ch i]] none by (auto simp: takeWhile_eq_all_conv)
      moreover have "set (ch a) = {k. account_is (blocks v) k a \<and> blocks w k = None}"
        using part_unknown [OF whole part ch i None] ch' by auto
      ultimately show ?thesis using i none by (simp del: takeWhile_eq_all_conv)
    next
      case (Some j)
      then have "e = info_head j" using ae pulls unfolding asks_missing_def by auto
      then show ?thesis using part_missing(1,2) [OF whole part ch i Some] i ch' by auto
    qed
  qed
  show "\<exists>e. (a, e) \<in> set pulls" if acc: "account_is (blocks v) h a" and "blocks w h = None"
  proof -
    obtain i where i: "mdb_get (infos v) a = Some i"
      using account_known [OF p(2) ledger_invD(3) [OF p(1)] acc] by blast
    have "h \<in> set (ch a)" using chain_listsD(2) [OF ch i] acc by simp
    then have "info_head i \<noteq> info_head j" if "mdb_get (infos w) a = Some j" for j
      using part_missing(4) [OF whole part ch i that, of h] \<open>blocks w h = None\<close> by blast
    then show ?thesis using i pulls unfolding asks_missing_def by (cases "mdb_get (infos w) a") auto
  qed
qed

lemma pull_blocks_missing:
  assumes whole: "whole P v" and part: "part_of P v w" and ch: "chain_lists v ch" and pulls: "asks_missing v w pulls"
  shows "set (pull_blocks v ch pulls) = {b. \<exists>h. blocks v h = Some b \<and> blocks w h = None}"
proof -
  note p = partD [OF whole part] and ask = asks_missing [OF assms]
  have acc: "\<exists>a. account_is (blocks v) h a" if "blocks v h = Some b" for h b
    using ledger_invD(8) [OF p(1)] that unfolding walks_ok_def by blast
  have union: "(\<Union>(a, e)\<in>set pulls. {k. account_is (blocks v) k a \<and> blocks w k = None}) =
      {k. blocks v k \<noteq> None \<and> blocks w k = None}"
    using acc ask(2) chain_stored(2) by fastforce
  have "set (pull_blocks v ch pulls) = (\<Union>(a, e)\<in>set pulls. (\<lambda>h. the (blocks v h)) ` set (takeWhile (\<lambda>k. k \<noteq> e) (ch a)))"
    by (simp add: pull_blocks_def split_def)
  also have "\<dots> = (\<Union>(a, e)\<in>set pulls. (\<lambda>h. the (blocks v h)) ` {k. account_is (blocks v) k a \<and> blocks w k = None})"
    using ask(1) by (intro SUP_cong refl) auto
  also have "\<dots> = (\<lambda>h. the (blocks v h)) ` (\<Union>(a, e)\<in>set pulls. {k. account_is (blocks v) k a \<and> blocks w k = None})"
    by (simp add: image_UN split_def)
  also have "\<dots> = (\<lambda>h. the (blocks v h)) ` {k. blocks v k \<noteq> None \<and> blocks w k = None}"
    by (simp only: union)
  also have "\<dots> = {b. \<exists>h. blocks v h = Some b \<and> blocks w h = None}" by force
  finally show ?thesis .
qed

section \<open>Replication\<close>

text \<open>A client at the first of its accounts.\<close>

lemma client_begins:
  assumes "store_ok s" and "accounts_plain (view s)"
  obtains c where "make_frontier_req_client s = Some c" and "client_at (mdb_entries (infos (view s))) c"
    and "frc_pulls c = []" and "accounts_from (view s) 1 = mdb_entries (infos (view s))"
proof -
  have "(0, i) \<notin> set (mdb_entries (infos (view s)))" for i
    using assms(2) by (simp add: accounts_plain_def mdb_get_iff [symmetric])
  then have "accounts_from (view s) 1 = mdb_entries (infos (view s))"
    unfolding accounts_from_def by (intro filter_True ballI) (auto simp: word_le_nat_alt unat_eq_0 Suc_le_eq word_neq_0_conv intro: gr0I)
  then show ?thesis
    using client_next_view [OF assms(1), of "\<lparr>frc_pulls = [], frc_current = 0, frc_info = account_info_default\<rparr>"] that
    by (auto simp: make_frontier_req_client_def)
qed

lemma bootstrap_pull_missing:
  assumes server: "ledger_ok P t" "whole P (view t)" "accounts_plain (view t)"
    and client: "ledger_ok P (node_store n)" "part_of P (view t) (view (node_store n))"
    and order: "\<forall>ps. set (pull_order ps) = set ps"
  obtains bs where "bootstrap_pull P C now pull_order (serve_request P now_l t) n =
      map_option (map_option (\<lambda>n. (True, n))) (process_end P C now (n\<lparr>node_store := with_unchecked P bs (node_store n)\<rparr>))"
    and "set bs = {b. \<exists>h. blocks (view t) h = Some b \<and> blocks (view (node_store n)) h = None}"
proof -
  let ?v = "view t" and ?s = "node_store n" and ?w = "view (node_store n)"
  note p = partD [OF server(2) client(2)] and ok = ledger_okD(1) [OF server(1)] ledger_okD(1) [OF client(1)]
  have plain: "accounts_plain ?w"
    using part_infos [OF server(2) client(2)] server(3) unfolding accounts_plain_def by (metis not_None_eq)
  obtain ch cw where ch: "chain_lists ?v ch" "chain_lists ?w cw"
    using chains_exist [OF p(1,2)] chains_exist [OF p(3,4)] by metis
  obtain c where c: "make_frontier_req_client ?s = Some c" "client_at (mdb_entries (infos ?w)) c" "frc_pulls c = []"
    "accounts_from ?w 1 = mdb_entries (infos ?w)"
    by (rule client_begins [OF ok(2) plain])
  have entries: "chains_from ?w cw (mdb_entries (infos ?w))"
    using c(4) plain chain_listsD(1) [OF ch(2)] by (auto simp: chains_from_def)
  obtain pulls marks where m: "frontier_merge (has_block ?w) cw (head_pairs (mdb_entries (infos ?v)))
      (mdb_entries (infos ?w)) = (pulls, marks)" by fastforce
  note merge = merge_part [OF server(2) client(2) ch(1) m]
  have zero: "0 \<notin> fst ` set (mdb_entries (infos ?v))"
    using server(3) by (auto simp: accounts_plain_def mdb_get_iff [symmetric])
  have chain: "chain_ok P (blocks ?w)" by (rule ledger_okD(3) [OF client(1)])
  obtain c' where c': "receive_frontier (heads_bytes (mdb_entries (infos ?v))) ?s c = Some (Some (True, ?s, c'))"
    "frc_pulls c' = pulls"
    using receive_frontier_merge [OF chain entries c(2) ok(2) refl distinct_mdb_entries _ zero] m merge(1) c(3) by auto
  have asks: "asks_missing ?v ?w (pull_order pulls)" unfolding asks_missing_def using order merge(2) by simp
  have "pull_requests P (serve_request P now_l t) (pull_order pulls) ?s =
      Some (Some (True, with_unchecked P (pull_blocks ?v ch (pull_order pulls)) ?s))"
    by (rule pull_requests_all [OF server(1,2) ch(1)]) (use asks_missing(1) [OF server(2) client(2) ch(1) asks] in auto)
  moreover have respond: "frontier_respond now_l t (make_frontier_req 0 (- 1) (- 1)) =
      Some (Some (heads_bytes (mdb_entries (infos ?v))))"
    by (rule frontier_respond_all [OF ok(1) server(3)]) (simp_all add: make_frontier_req_def)
  ultimately have "bootstrap_pull P C now pull_order (serve_request P now_l t) n =
      map_option (map_option (\<lambda>n. (True, n)))
        (process_end P C now (n\<lparr>node_store := with_unchecked P (pull_blocks ?v ch (pull_order pulls)) ?s\<rparr>))"
    using c(1) c' respond by (simp add: bootstrap_pull_def serve_frontier_req)
  then show ?thesis using that pull_blocks_missing [OF server(2) client(2) ch(1) asks] by blast
qed

lemma push_nothing:
  assumes "unsynced_blocks s = mdb_empty"
  shows "push_start P s = Some (Some (True, \<lparr>push_store = s, push_sent =
    bulk_push_serialize P \<lparr>bulk_push_header = make_message Mt_bulk_push\<rparr> @ [1]\<rparr>))"
  using assms unfolding push_start_def
  by (subst push.simps)
    (simp add: push_first_def unsynced_begin_def iterator_begin_def mdb_first_def iterator_end_def uint256_is_zero_eq)

text \<open>
  The one way for a bootstrap to fail: a block of the server that the client lacks, good in the
  state it is processed in, moves more weight than the representative has there.
\<close>

definition weight_short :: "platform \<Rightarrow> uint64 \<Rightarrow> ledger_view \<Rightarrow> ledger_view \<Rightarrow> bool" where
  "weight_short P now v w \<longleftrightarrow> (\<exists>ps u b. sync_run P now w ps u \<and>
     (\<forall>b\<in>set ps. blocks v (block_hash P b) = Some b) \<and>
     blocks v (block_hash P b) = Some b \<and> blocks w (block_hash P b) = None \<and>
     process_code P u b = progress \<and> weight_missing u b)"

lemma old_block: "blocks v (block_hash P b) \<noteq> None \<Longrightarrow> process_code P v b = old"
  by (cases b) (simp_all add: process_code_def)

lemma fails_short:
  assumes "whole P v" and "part_of P v w" and "sync_run P now w ps u" and "process_fails P u b" and "deps_stored u b"
    and "\<forall>b\<in>set ps. blocks v (block_hash P b) = Some b"
    and "blocks v (block_hash P b) = Some b" and "blocks w (block_hash P b) = None"
  shows "weight_short P now v w"
proof -
  have "part_of P v u" using sync_run_part [OF assms(3,1,2,6)] by blast
  moreover have "blocks u (block_hash P b) = None"
    using old_block [of u P b] assms(4) by (cases "blocks u (block_hash P b)") (auto simp: process_fails_def)
  ultimately have "process_code P u b = progress"
    by (intro replay_progress [where v = v and h = "block_hash P b"]) (use assms in \<open>simp add: lacks_def\<close>)
  moreover have "block_hash P b \<noteq> genesis_hash P" using assms(2,8) unfolding part_of_def by metis
  then have "\<not> names_zero b" using assms(1,7) unfolding whole_def replay_ok_def by blast
  then have "weight_missing u b" using calculation assms(4) by (simp add: process_fails_def)
  ultimately show ?thesis unfolding weight_short_def using assms(3,6-8) by blast
qed

lemma bootstrap_replicates:
  assumes server: "ledger_ok P t" "whole P (view t)" "accounts_plain (view t)" "genesis_in P (view t)"
    and client: "node_ok P (node_store n)" "part_of P (view t) (view (node_store n))"
      "unchecked_blocks (node_store n) = mdb_empty" "unsynced_blocks (node_store n) = mdb_empty"
    and order: "\<forall>ps. set (pull_order ps) = set ps" "\<forall>ts. set (tally_order C ts) = set ts"
  shows "\<exists>r. bootstrap_run P C now pull_order (serve_request P now_l t) n = Some r \<and>
    (r = None \<longrightarrow> weight_short P (of_nat now) (view t) (view (node_store n))) \<and>
    (\<forall>finished n' sent. r = Some (finished, n', sent) \<longrightarrow>
      finished \<and> blocks (view (node_store n')) = blocks (view t) \<and>
      node_ok P (node_store n') \<and>
      sent = bulk_push_serialize P \<lparr>bulk_push_header = make_message Mt_bulk_push\<rparr> @ [1])"
proof -
  let ?v = "view t" and ?s = "node_store n" and ?w = "view (node_store n)"
  note v = ledger_okD [OF server(1)]
  have lok: "ledger_ok P ?s" using client(1) by (simp add: node_ok_def)
  obtain rank where rank: "ranked rank (blocks ?v)" using server(2) by (auto simp: whole_def replay_ok_def)
  obtain bs where run: "bootstrap_pull P C now pull_order (serve_request P now_l t) n =
      map_option (map_option (\<lambda>n. (True, n))) (process_end P C now (n\<lparr>node_store := with_unchecked P bs ?s\<rparr>))"
    and bs: "set bs = {b. \<exists>h. blocks ?v h = Some b \<and> blocks ?w h = None}"
    by (rule bootstrap_pull_missing [OF server(1-3) lok client(2) order(1)])
  have stored: "blocks ?v (block_hash P b) = Some b" if "b \<in> set bs" for b
    using that chain_okD(1) [OF v(3)] by (auto simp: bs)
  have hashes: "list_all (hash_ok P) bs" "inj_on (block_hash P) (set bs)"
    using stored chain_okD(2,3) [OF v(3)] by (auto simp: list_all_iff hash_ok_def inj_on_def dest: stored)
  have ranks: "\<forall>b\<in>set bs. \<forall>d\<in>set (deps b). rank d < rank (block_hash P b)"
    using stored rankedD [OF rank] by blast
  have pulls: "node_store (n\<lparr>node_store := with_unchecked P bs ?s\<rparr>) = with_unchecked P bs ?s" by simp
  obtain r where r: "process_end P C now (n\<lparr>node_store := with_unchecked P bs ?s\<rparr>) = Some r"
    "r = None \<longrightarrow> (\<exists>ps u b. sync_run P (of_nat now) ?w ps u \<and> set ps \<subseteq> set bs \<and>
      b \<in> set bs \<and> deps_stored u b \<and> process_fails P u b)"
    "\<forall>n'. r = Some n' \<longrightarrow> unchecked_blocks (node_store n') = mdb_empty \<and>
      unsynced_blocks (node_store n') = unsynced_blocks ?s \<and> node_ok P (node_store n') \<and>
      (\<exists>ps. sync_run P (of_nat now) ?w ps (view (node_store n')) \<and> distinct ps \<and> set ps \<subseteq> set bs \<and>
        (\<forall>b\<in>set bs. b \<in> set ps \<or> \<not> deps_stored (view (node_store n')) b))"
    using process_end_blocks [OF client(1,3) pulls hashes ranks order(2), where now = now]
    by (elim exE conjE) (rule that; assumption)
  have "unsynced_blocks (node_store n') = mdb_empty \<and> blocks (view (node_store n')) = blocks ?v \<and>
      node_ok P (node_store n')" if "r = Some n'" for n'
  proof -
    let ?w' = "view (node_store n')"
    note result = that
    obtain ps where ps: "sync_run P (of_nat now) ?w ps ?w'" "set ps \<subseteq> set bs"
      "\<forall>b\<in>set bs. b \<in> set ps \<or> \<not> deps_stored ?w' b"
      using r(3) result by blast
    have part: "part_of P ?v ?w'" "blocks ?w \<subseteq>\<^sub>m blocks ?w'" "\<forall>b\<in>set ps. blocks ?w' (block_hash P b) \<noteq> None"
      using sync_run_part [OF ps(1) server(2) client(2)] ps(2) stored by blast+
    have "blocks ?w' = blocks ?v"
    proof (rule rebuilt [OF server(2) part(1) server(4)])
      fix h b assume b: "blocks ?v h = Some b"
      show "blocks ?w' h \<noteq> None \<or> \<not> deps_stored ?w' b"
      proof (cases "blocks ?w h")
        case None
        then have "b \<in> set bs" "block_hash P b = h" using b chain_okD(1) [OF v(3)] by (auto simp: bs)
        then show ?thesis using ps(3) part(3) by blast
      next
        case (Some c)
        then show ?thesis using map_le_Some [OF part(2)] by blast
      qed
    qed
    then show ?thesis using r(3) result client(4) by simp
  qed
  note pulled = this
  show ?thesis
  proof (cases r)
    case None
    then obtain ps u b where f: "sync_run P (of_nat now) ?w ps u" "set ps \<subseteq> set bs" "b \<in> set bs"
      "deps_stored u b" "process_fails P u b"
      using r(2) by blast
    obtain h where h: "blocks ?v h = Some b" "blocks ?w h = None" using f(3) unfolding bs by blast
    then have "blocks ?w (block_hash P b) = None" using chain_okD(1) [OF v(3) h(1)] by simp
    moreover have "\<forall>b\<in>set ps. blocks ?v (block_hash P b) = Some b" using stored f(2) by blast
    ultimately have "weight_short P (of_nat now) ?v ?w"
      by (intro fails_short [OF server(2) client(2) f(1,5,4) _ stored [OF f(3)]])
    then show ?thesis using None run r(1) by (simp add: bootstrap_run_def)
  next
    case (Some n')
    have "bootstrap_run P C now pull_order (serve_request P now_l t) n = Some (Some (True, n',
        bulk_push_serialize P \<lparr>bulk_push_header = make_message Mt_bulk_push\<rparr> @ [1]))"
      using run r(1) Some push_nothing [of "node_store n'" P] pulled [OF Some] by (simp add: bootstrap_run_def)
    then show ?thesis using pulled [OF Some] by simp
  qed
qed

lemma account_exists_view: "account_exists s a \<longleftrightarrow> mdb_get (infos (view s)) a \<noteq> None"
  by (simp add: account_exists_def latest_begin_at_def view_def iterator_at_key Let_def)

lemma history_part:
  assumes "history_ok P es" and "ledger_history P t0 es = Some t"
    and "history_ok P es'" and "ledger_history P t1 es' = Some s"
    and "\<forall>h b. block_get s h = Some (Some b) \<longrightarrow> block_get t h = Some (Some b)"
    and "\<not> account_exists t 0"
  shows "whole P (view t)" and "part_of P (view t) (view s)" and "genesis_in P (view t)"
proof -
  note v = ledger_history_inv [OF assms(1,2)] and w = ledger_history_inv [OF assms(3,4)]
  note rv = ledger_history_replayable [OF assms(1,2)] and rw = ledger_history_replayable [OF assms(3,4)]
  have "mdb_get (infos (view t)) 0 = None" using assms(6) by (simp add: account_exists_view)
  then show "whole P (view t)" using v rv by (simp add: whole_def replayable_def)
  have "blocks (view s) \<subseteq>\<^sub>m blocks (view t)"
    using assms(5) by (auto simp: map_le_def block_get_view [OF v(1)] block_get_view [OF w(1)] dom_def)
  then show "part_of P (view t) (view s)" using w rw by (simp add: part_of_def replayable_def)
  show "genesis_in P (view t)" using assms(1) rv by (simp add: genesis_in_def replayable_def history_ok_def)
qed

text \<open>
  C5. A bootstrap brings a node up to date. The client and the server are nodes with reachable
  stores, the client's blocks are among the server's, and no account has the number zero or
  the last number. Then the whole exchange ends, whatever order the pulls are made in: the
  request for the heads, their comparison, the pulls of the missing chains over the
  connection, and the processing of the pulled blocks. It fails an assertion only where a
  block that the client lacked moves more weight than the representative has. Otherwise the
  client has exactly the blocks of the server afterwards, agrees with it on the head, the
  balance and the representative of every account, and pushes nothing.
\<close>

theorem bootstrap_replicates_ledger:
  assumes "history_ok P es" and "ledger_history P t0 es = Some t"
    and "history_ok P es'" and "ledger_history P t1 es' = Some (node_store n)"
    and "\<forall>h b. block_get (node_store n) h = Some (Some b) \<longrightarrow> block_get t h = Some (Some b)"
    and "\<not> account_exists t 0" and "\<not> account_exists t (- 1)"
    and "\<forall>ps. set (pull_order ps) = set ps" and "\<forall>ts. set (tally_order C ts) = set ts"
  shows "\<exists>r. bootstrap_run P C now pull_order (serve_request P now_l t) n = Some r \<and>
    (r = None \<longrightarrow> weight_short P (of_nat now) (view t) (view (node_store n))) \<and>
    (\<forall>finished n' sent. r = Some (finished, n', sent) \<longrightarrow>
      finished \<and> (\<forall>h. block_get (node_store n') h = block_get t h) \<and>
      (\<forall>a. \<exists>i i'. account_get t a = Some i \<and> account_get (node_store n') a = Some i' \<and>
        map_option account_state i' = map_option account_state i) \<and>
      sent = bulk_push_serialize P \<lparr>bulk_push_header = make_message Mt_bulk_push\<rparr> @ [1])"
proof -
  note part = history_part [OF assms(1-6)]
  note v = ledger_history_inv [OF assms(1,2)] and side = history_side_tables [OF assms(4)]
  have plain: "accounts_plain (view t)" using assms(6,7) by (simp add: account_exists_view accounts_plain_def)
  have node: "node_ok P (node_store n)" by (rule ledger_history_ok [OF assms(3,4)])
  obtain r where r: "bootstrap_run P C now pull_order (serve_request P now_l t) n = Some r"
    "r = None \<longrightarrow> weight_short P (of_nat now) (view t) (view (node_store n))"
    "\<And>finished n' sent. r = Some (finished, n', sent) \<Longrightarrow>
      finished \<and> blocks (view (node_store n')) = blocks (view t) \<and>
      node_ok P (node_store n') \<and>
      sent = bulk_push_serialize P \<lparr>bulk_push_header = make_message Mt_bulk_push\<rparr> @ [1]"
    using bootstrap_replicates [OF v(3) part(1) plain part(3) node part(2) side assms(8,9)] by blast
  have "finished \<and> (\<forall>h. block_get (node_store n') h = block_get t h) \<and>
      (\<forall>a. \<exists>i i'. account_get t a = Some i \<and> account_get (node_store n') a = Some i' \<and>
        map_option account_state i' = map_option account_state i) \<and>
      sent = bulk_push_serialize P \<lparr>bulk_push_header = make_message Mt_bulk_push\<rparr> @ [1]"
    if "r = Some (finished, n', sent)" for finished n' sent
  proof -
    note end_l = r(3) [OF that]
    have ok: "store_ok (node_store n')" "ledger_inv P (view (node_store n'))" "chains_ok (view (node_store n'))"
      using end_l by (auto simp: node_ok_def ledger_ok_def)
    show ?thesis
      using end_l same_blocks_accounts [OF v(2,5) ok(2,3)] ok(1) v(1) by (simp add: store_simps block_get_view)
  qed
  then show ?thesis using r(1,2) by blast
qed

text \<open>
  The test ledger at genesis fetches a send block from a node that has it: nothing fails, and
  it has the block afterwards.
\<close>

theorem bootstrap_replicates_ledger_witness:
  "\<exists>s t n' sent. ledger_history sample_platform 0 [] = Some s \<and>
     ledger_history sample_platform 0 [(1, Send sample_tip_block)] = Some t \<and>
     bootstrap_run sample_platform sample_choices 9 rev (serve_request sample_platform 7 t) (sample_node s) =
       Some (Some (True, n', sent)) \<and>
     block_get (node_store n') 0xFE0050 = Some (Some (Send sample_tip_block))"
proof -
  obtain s where s: "ledger_history sample_platform 0 [] = Some s"
    "history_ok sample_platform []" "view s = genesis_view sample_platform 0"
    by (rule sample_genesis_history)
  obtain t where t: "ledger_history sample_platform 0 [(1, Send sample_tip_block)] = Some t"
    "history_ok sample_platform [(1, Send sample_tip_block)]" "view t = sample_tipped"
    by (rule sample_tipped_history)
  have ok: "store_ok s" "store_ok t" using ledger_history_inv(1) [OF s(2,1)] ledger_history_inv(1) [OF t(2,1)] by auto
  let ?w = "genesis_view sample_platform 0"
  have more: "blocks sample_tipped = (blocks ?w)(0xFE0050 \<mapsto> Send sample_tip_block)"
    by (simp add: sample_tipped_def sample_tip_defs)
  have new: "blocks ?w 0xFE0050 = None" by (simp add: sample_tip_defs)
  have sub: "\<forall>h b. block_get s h = Some (Some b) \<longrightarrow> block_get t h = Some (Some b)"
    using new by (auto simp: block_get_view [OF ok(1)] block_get_view [OF ok(2)] s(3) t(3) more)
  have "- 1 \<noteq> paper_test_account" by (simp add: paper_test_account_def)
  then have accounts: "\<not> account_exists t 0" "\<not> account_exists t (- 1)"
    by (simp_all add: account_exists_view t(3) sample_tipped_def sample_tip_defs sample_accounts)
  have node: "ledger_history sample_platform 0 [] = Some (node_store (sample_node s))"
    "\<forall>h b. block_get (node_store (sample_node s)) h = Some (Some b) \<longrightarrow> block_get t h = Some (Some b)"
    using s(1) sub by (simp_all add: sample_node_def)
  have orders: "\<forall>ps. set (rev ps) = set ps" "\<forall>ts. set (tally_order sample_choices ts) = set ts"
    by (simp_all add: sample_choices_def)
  obtain r where r: "bootstrap_run sample_platform sample_choices 9 rev (serve_request sample_platform 7 t) (sample_node s) = Some r"
    "r = None \<longrightarrow> weight_short sample_platform (of_nat 9) (view t) (view (node_store (sample_node s)))"
    "\<forall>finished n' sent. r = Some (finished, n', sent) \<longrightarrow>
      finished \<and> (\<forall>h. block_get (node_store n') h = block_get t h) \<and>
      (\<forall>a. \<exists>i i'. account_get t a = Some i \<and> account_get (node_store n') a = Some i' \<and>
        map_option account_state i' = map_option account_state i) \<and>
      sent = bulk_push_serialize sample_platform \<lparr>bulk_push_header = make_message Mt_bulk_push\<rparr> @ [1]"
    using bootstrap_replicates_ledger [OF t(2,1) s(2) node accounts orders, where now = 9 and now_l = 7]
    by (elim exE conjE) (rule that; assumption)
  have "\<not> weight_short sample_platform 9 sample_tipped ?w"
    by (auto simp: weight_short_def more weight_missing_def split: if_splits)
  then obtain finished n' sent where "r = Some (finished, n', sent)"
    using r(2) by (cases r) (auto simp: sample_node_def s(3) t(3))
  moreover have "block_get t 0xFE0050 = Some (Some (Send sample_tip_block))"
    by (simp add: block_get_view [OF ok(2)] t(3) more)
  ultimately show ?thesis using r(1,3) s(1) t(1) by auto
qed

end
