(* ===== verification/Bootstrap_Push.thy ===== *)
theory Bootstrap_Push
  imports Bootstrap_Client
begin

text \<open>
  The push at the end of a bootstrap: \<open>bulk_push_client\<close> sends the blocks that the other side
  lacks, each after those it depends on, and \<open>bulk_push_server\<close> processes what it is sent.
\<close>

section \<open>The synchronization of a push\<close>

definition push_mark :: "block_hash \<Rightarrow> bulk_push_client \<Rightarrow> bulk_push_client" where
  "push_mark h c = c\<lparr>push_store := (push_store c)\<lparr>unsynced_blocks := mdb_remove (unsynced_blocks (push_store c)) h\<rparr>\<rparr>"

definition unsynced_hashes :: "block_store \<Rightarrow> block_hash set" where
  "unsynced_hashes s = {h. mdb_get (unsynced_blocks s) h \<noteq> None}"

definition push_table :: "bulk_push_client \<Rightarrow> block_hash \<Rightarrow> block option" where
  "push_table c = blocks (view (push_store c))"

lemma unsynced_exists_iff: "unsynced_exists s h \<longleftrightarrow> h \<in> unsynced_hashes s"
  by (simp add: unsynced_exists_def unsynced_begin_at_def iterator_at_key unsynced_hashes_def Let_def)

lemma push_mark_simps [simp]:
  "unsynced_hashes (push_store (push_mark h c)) = unsynced_hashes (push_store c) - {h}"
  "push_table (push_mark h c) = push_table c" "push_sent (push_mark h c) = push_sent c"
  "store_ok (push_store (push_mark h c)) = store_ok (push_store c)"
  "(push_store (push_mark h c))\<lparr>unsynced_blocks := x\<rparr> = (push_store c)\<lparr>unsynced_blocks := x\<rparr>"
  by (auto simp: push_mark_def unsynced_hashes_def push_table_def split: if_splits)

interpretation pushing: synchronization push_retrieve push_synchronized "\<lambda>c::bulk_push_client. store_ok (push_store c)" push_table
  "\<lambda>c h. h \<notin> unsynced_hashes (push_store c)" push_mark
proof
  fix c :: bulk_push_client and h assume "store_ok (push_store c)"
  then show "push_retrieve c h = Some (push_table c h)"
    by (simp add: push_retrieve_def push_table_def block_get_view)
  show "push_synchronized c h =
      Some (h \<notin> unsynced_hashes (push_store c), if h \<notin> unsynced_hashes (push_store c) then c else push_mark h c)"
    by (auto simp: push_synchronized_def unsynced_exists_iff unsynced_del_def mdb_del_def push_mark_def unsynced_hashes_def)
qed simp_all

lemma finite_unsynced: "finite (unsynced_hashes s)"
proof (rule finite_subset)
  show "unsynced_hashes s \<subseteq> fst ` set (mdb_entries (unsynced_blocks s))"
    by (force simp: unsynced_hashes_def mdb_get_iff)
qed simp

lemma push_marks:
  "unsynced_hashes (push_store (foldr push_mark p c)) = unsynced_hashes (push_store c) - set p"
  "push_table (foldr push_mark p c) = push_table c" "push_sent (foldr push_mark p c) = push_sent c"
  "store_ok (push_store (foldr push_mark p c)) = store_ok (push_store c)"
  "(push_store (foldr push_mark p c))\<lparr>unsynced_blocks := x\<rparr> = (push_store c)\<lparr>unsynced_blocks := x\<rparr>"
  by (induction p) auto

section \<open>The order of the blocks\<close>

text \<open>
  Blocks for the hashes of a set, each once, and none before a block of the set that it
  depends on.
\<close>

fun sent_in_order :: "platform \<Rightarrow> block_hash set \<Rightarrow> block list \<Rightarrow> bool" where
  "sent_in_order P A [] \<longleftrightarrow> A = {}"
| "sent_in_order P A (b # bs) \<longleftrightarrow>
     block_hash P b \<in> A \<and> set (deps b) \<inter> A = {} \<and> sent_in_order P (A - {block_hash P b}) bs"

lemma sent_in_order_all: "sent_in_order P A bs \<Longrightarrow> distinct (map (block_hash P) bs) \<and> block_hash P ` set bs = A"
  by (induction P A bs rule: sent_in_order.induct) auto

text \<open>One step fills the stack and sends its top, of which nothing else to send is a dependency.\<close>

lemma push_step:
  assumes ok: "store_ok (push_store c)" and chain: "chain_ok P (push_table c)" and rank: "ranked rank (push_table c)"
    and st: "dep_path (push_table c) (h # rest)" and "\<forall>x\<in>set (h # rest). push_table c x \<noteq> None"
    and "set (h # rest) \<inter> unsynced_hashes (push_store c) = {}"
    and "\<forall>x\<in>unsynced_hashes (push_store c). push_table c x \<noteq> None"
  obtains p x st' b where "p @ h # rest = x # st'" and "push_table c x = Some b" and "block_hash P b = x"
    and "synchronize_one push_retrieve push_synchronized push_block c (h # rest) =
      Some (Some (False, (foldr push_mark p c)\<lparr>push_sent := push_sent c @ serialize_block b\<rparr>, st'))"
    and "set p \<subseteq> unsynced_hashes (push_store c)" and "distinct (x # st')" and "dep_path (push_table c) (x # st')"
    and "set (deps b) \<inter> (unsynced_hashes (push_store c) \<union> set (h # rest)) = {}"
proof -
  let ?m = "push_table c" and ?U = "unsynced_hashes (push_store c)"
  obtain res p where fill: "fill_dependencies push_retrieve push_synchronized c (h # rest) =
      Some (Some (res, foldr push_mark p c, p @ h # rest))"
    and p: "dep_path ?m (p @ [h])" "\<forall>x\<in>set p. \<not> x \<notin> ?U"
    and top_l: "\<forall>b. ?m (hd (p @ [h])) = Some b \<longrightarrow>
      \<not> res \<and> (\<forall>d\<in>set (deps b). d \<notin> unsynced_hashes (push_store (foldr push_mark p c)))"
    using pushing.fill_dependencies_path [OF ok rank, of h rest] by (elim exE conjE) (rule that; assumption)
  define x st' where "x = hd (p @ [h])" and "st' = tl (p @ [h]) @ rest"
  have full: "p @ h # rest = x # st'" by (cases p) (simp_all add: x_def st'_def)
  have path: "dep_path ?m (x # st')"
    using p(1) st dep_path_append [of ?m p h rest] by (simp flip: full)
  have "x = h \<or> x \<in> set p" by (cases p) (auto simp: x_def)
  then have "x \<in> set (h # rest) \<union> ?U" using p(2) by auto
  then obtain b where b: "?m x = Some b" using assms(5,7) by blast
  have hash: "block_hash P b = x" using chain_okD(1) [OF chain b] .
  have sorted: "sorted_wrt (<) (map rank (x # st'))" by (rule dep_path_sorted [OF rank path])
  then have "distinct (map rank (x # st'))" unfolding strict_sorted_iff by blast
  then have distinct: "distinct (x # st')" unfolding distinct_map by blast
  have below: "rank d < rank y" if "d \<in> set (deps b)" "y \<in> set (x # st')" for d y
    using rankedD [OF rank b that(1)] that(2) sorted by auto
  have "d \<notin> ?U \<union> set (h # rest)" if "d \<in> set (deps b)" for d
  proof -
    have "d \<notin> set (x # st')" using below [OF that] by blast
    then have "d \<notin> set p" "d \<notin> set (h # rest)" by (auto simp flip: full)
    then show ?thesis using top_l b that by (auto simp: push_marks simp flip: x_def)
  qed
  then have "set (deps b) \<inter> (?U \<union> set (h # rest)) = {}" by blast
  moreover have "synchronize_one push_retrieve push_synchronized push_block c (h # rest) =
      Some (Some (False, (foldr push_mark p c)\<lparr>push_sent := push_sent c @ serialize_block b\<rparr>, st'))"
    using fill top_l b pushing.retrieve_table [of "foldr push_mark p c" x] ok
    by (simp add: synchronize_one_def full push_block_def push_marks flip: x_def)
  moreover have "set p \<subseteq> ?U" using p(2) by blast
  ultimately show thesis using that full b hash distinct path by blast
qed

text \<open>
  What remains of a push, for every stack on it: the blocks for the hashes on the stack and in
  the table are sent, and the table is empty.
\<close>

lemma push_remaining:
  assumes "store_ok (push_store c)" and "chain_ok P (push_table c)" and "ranked rank (push_table c)"
    and "dep_path (push_table c) st" and "distinct st" and "\<forall>x\<in>set st. push_table c x \<noteq> None"
    and "set st \<inter> unsynced_hashes (push_store c) = {}"
    and "\<forall>x\<in>unsynced_hashes (push_store c). push_table c x \<noteq> None"
  shows "\<exists>bs. push c st = Some (Some (True, \<lparr>push_store = (push_store c)\<lparr>unsynced_blocks := mdb_empty\<rparr>,
      push_sent = push_sent c @ concat (map serialize_block bs) @ [1]\<rparr>)) \<and>
    sent_in_order P (unsynced_hashes (push_store c) \<union> set st) bs \<and>
    (\<forall>b\<in>set bs. push_table c (block_hash P b) = Some b)"
  using assms
proof (induction "2 * card (unsynced_hashes (push_store c)) + length st" arbitrary: c st rule: less_induct)
  case less
  let ?U = "unsynced_hashes (push_store c)"
  show ?case
  proof (cases st)
    case Nil
    show ?thesis
    proof (cases "mdb_entries (unsynced_blocks (push_store c))")
      case none: Nil
      then have empty: "unsynced_blocks (push_store c) = mdb_empty"
        by (intro mdb_eqI) (simp add: mdb_get_entries)
      then have "push c [] = Some (Some (True, c\<lparr>push_sent := push_sent c @ [1]\<rparr>))"
        by (subst push.simps) (simp add: push_first_def unsynced_begin_def iterator_begin_def mdb_first_def
            iterator_end_def uint256_is_zero_eq)
      moreover have "(push_store c)\<lparr>unsynced_blocks := mdb_empty\<rparr> = push_store c" using empty by (cases "push_store c") simp
      moreover have "?U = {}" using empty by (simp add: unsynced_hashes_def)
      ultimately show ?thesis using Nil by (intro exI [of _ "[]"]) (cases c; simp)
    next
      case (Cons e es)
      define h where "h = fst e"
      have get: "mdb_get (unsynced_blocks (push_store c)) h = Some (snd e)"
        by (simp add: mdb_get_entries Cons h_def)
      then have h: "h \<in> ?U" by (simp add: unsynced_hashes_def)
      then obtain b where b: "push_table c h = Some b" using less.prems(8) by blast
      have h0: "h \<noteq> 0" using chain_okD(2) [OF less.prems(2) b] .
      have step: "push c [] = push (push_mark h c) [h]"
        using get h0 Cons
        by (subst push.simps) (simp add: push_first_def unsynced_begin_def iterator_begin_def mdb_first_def
            iterator_end_def uint256_is_zero_eq unsynced_del_def mdb_del_def push_mark_def h_def)
      have "card (?U - {h}) < card ?U" by (rule card_Diff1_less [OF finite_unsynced h])
      then have "2 * card (unsynced_hashes (push_store (push_mark h c))) + length [h] < 2 * card ?U + length st"
        by simp
      moreover have "insert h ?U = ?U" using h by blast
      ultimately show ?thesis
        using less.hyps [of "push_mark h c" "[h]"] less.prems b Nil step by simp
    qed
  next
    case (Cons h rest)
    have "dep_path (push_table c) (h # rest)" "\<forall>x\<in>set (h # rest). push_table c x \<noteq> None"
      "set (h # rest) \<inter> ?U = {}" using less.prems(4,6,7) Cons by simp_all
    from less.prems(1-3) this less.prems(8) obtain p x st' b where full: "p @ h # rest = x # st'"
      and b: "push_table c x = Some b" "block_hash P b = x"
      and one: "synchronize_one push_retrieve push_synchronized push_block c (h # rest) =
        Some (Some (False, (foldr push_mark p c)\<lparr>push_sent := push_sent c @ serialize_block b\<rparr>, st'))"
      and p: "set p \<subseteq> ?U" and st': "distinct (x # st')" "dep_path (push_table c) (x # st')"
      and deps: "set (deps b) \<inter> (?U \<union> set (h # rest)) = {}"
      by (rule push_step)
    let ?c = "(foldr push_mark p c)\<lparr>push_sent := push_sent c @ serialize_block b\<rparr>"
    have c: "push_table ?c = push_table c" "store_ok (push_store ?c)" "unsynced_hashes (push_store ?c) = ?U - set p"
      "(push_store ?c)\<lparr>unsynced_blocks := y\<rparr> = (push_store c)\<lparr>unsynced_blocks := y\<rparr>" for y
      using push_marks(2) [of p c] less.prems(1) by (simp_all add: push_marks push_table_def)
    have all: "set (x # st') = set p \<union> set (h # rest)" by (simp flip: full)
    have "length (x # st') = length p + length st" by (simp add: Cons flip: full)
    moreover have "distinct p" using st'(1) unfolding full [symmetric] by simp
    then have "card (?U - set p) + length p = card ?U"
      using p card_mono [OF finite_unsynced p] by (simp add: card_Diff_subset distinct_card)
    ultimately have smaller: "2 * card (unsynced_hashes (push_store ?c)) + length st' < 2 * card ?U + length st"
      by (simp add: push_marks(1))
    have sub: "set st' \<subseteq> ?U \<union> set st" using all p Cons by auto
    have rest: "\<forall>y\<in>set st'. push_table ?c y \<noteq> None" "set st' \<inter> unsynced_hashes (push_store ?c) = {}"
      using sub less.prems(6,8) all less.prems(7) Cons unfolding c by (blast, auto)
    have tail: "dep_path (push_table ?c) st'" "distinct st'"
      using st' unfolding c by (cases st'; auto)+
    obtain bs where bs: "push ?c st' = Some (Some (True, \<lparr>push_store = (push_store ?c)\<lparr>unsynced_blocks := mdb_empty\<rparr>,
        push_sent = push_sent ?c @ concat (map serialize_block bs) @ [1]\<rparr>))"
      "sent_in_order P (unsynced_hashes (push_store ?c) \<union> set st') bs"
      "\<forall>b\<in>set bs. push_table ?c (block_hash P b) = Some b"
      using less.hyps [OF smaller c(2) _ _ tail rest] less.prems(2,3,8) unfolding c by blast
    have remaining: "unsynced_hashes (push_store ?c) \<union> set st' = (?U \<union> set st) - {x}"
    proof -
      have "x \<notin> ?U - set p" "x \<notin> set st'" using all less.prems(7) Cons st'(1) by auto
      then show ?thesis using all p Cons unfolding c by auto
    qed
    have "x \<in> ?U \<union> set st" using all p Cons by auto
    then have "sent_in_order P (?U \<union> set st) (b # bs)" using deps bs(2) b(2) Cons unfolding remaining by simp
    moreover have "push c st = push ?c st'" using one by (subst push.simps) (simp add: Cons)
    ultimately show ?thesis
      using bs(1,3) b unfolding c by (intro exI [of _ "b # bs"]) simp
  qed
qed

section \<open>A push on both sides\<close>

text \<open>The blocks of a push given to the node of the receiving side, one after the other.\<close>

fun receive_all :: "platform \<Rightarrow> choices \<Rightarrow> nat \<Rightarrow> block list \<Rightarrow> node \<Rightarrow> node exec" where
  "receive_all P C now [] n = Some n"
| "receive_all P C now (b # bs) n = do {
     n \<leftarrow> process_receive_republish P C now b 0 n;
     receive_all P C now bs n
   }"

lemma bulk_push_receives:
  "bulk_push_receive P C now (concat (map serialize_block bs) @ 1 # rest) n =
     map_option (\<lambda>n. (True, rest, n)) (receive_all P C now bs n)"
proof (induction bs arbitrary: n)
  case Nil
  then show ?case by (subst bulk_push_receive.simps) (simp add: receive_type_finish)
next
  case (Cons b bs)
  then show ?case
    by (subst bulk_push_receive.simps)
      (cases "process_receive_republish P C now b 0 n"; simp add: receive_type_block)
qed

lemma with_unsynced_reset: "(with_unsynced hs s)\<lparr>unsynced_blocks := x\<rparr> = s\<lparr>unsynced_blocks := x\<rparr>"
  by (induction hs arbitrary: s) (simp_all add: unsynced_put_def)

text \<open>
  C8. A push ends and sends what the other side lacks. For every reachable ledger and every
  set of stored blocks marked as unsynced, the client sends exactly these blocks, each once
  and none before a marked block it depends on, then the byte that ends a push; the table of
  unsynced hashes is empty afterwards and the rest of the store as before. The receiving
  side reads the same blocks back and gives them to its node in that order.
\<close>

theorem pushed_blocks_in_order:
  assumes "history_ok P es" and "ledger_history P t0 es = Some s" and "\<forall>h\<in>set hs. block_exists s h"
  shows "\<exists>bs. push_start P (with_unsynced hs s) = Some (Some (True, \<lparr>push_store = s,
      push_sent = bulk_push_serialize P \<lparr>bulk_push_header = make_message Mt_bulk_push\<rparr> @
        concat (map serialize_block bs) @ [1]\<rparr>)) \<and>
    sent_in_order P (set hs) bs \<and> (\<forall>b\<in>set bs. block_get s (block_hash P b) = Some (Some b)) \<and>
    (\<forall>C now n. bulk_push_receive P C now (concat (map serialize_block bs) @ [1]) n =
      map_option (\<lambda>n. (True, [], n)) (receive_all P C now bs n))"
proof -
  note v = ledger_history_inv [OF assms(1,2)] and side = history_side_tables [OF assms(2)]
  obtain rank where rank: "ranked rank (blocks (view s))"
    using ledger_history_replayable [OF assms(1,2)] by (auto simp: replayable_def replay_ok_def)
  let ?c = "\<lparr>push_store = with_unsynced hs s,
    push_sent = bulk_push_serialize P \<lparr>bulk_push_header = make_message Mt_bulk_push\<rparr>\<rparr>"
  have table: "push_table ?c = blocks (view s)" "unsynced_hashes (push_store ?c) = set hs"
    by (auto simp: push_table_def unsynced_hashes_def side)
  have marked: "\<forall>x\<in>unsynced_hashes (push_store ?c). push_table ?c x \<noteq> None"
    using assms(3) unfolding table by (simp add: block_exists_view [OF v(1)])
  have same: "(with_unsynced hs s)\<lparr>unsynced_blocks := mdb_empty\<rparr> = s"
    unfolding with_unsynced_reset using side(2) by (cases s) simp
  obtain bs where bs: "push ?c [] = Some (Some (True, \<lparr>push_store = (push_store ?c)\<lparr>unsynced_blocks := mdb_empty\<rparr>,
      push_sent = push_sent ?c @ concat (map serialize_block bs) @ [1]\<rparr>))"
    "sent_in_order P (unsynced_hashes (push_store ?c) \<union> set []) bs"
    "\<forall>b\<in>set bs. push_table ?c (block_hash P b) = Some b"
    using push_remaining [of ?c P rank "[]"] v(1) ledger_okD(3) [OF v(3)] rank marked by (auto simp: table)
  show ?thesis
    using bs same table v(1)
    by (intro exI [of _ bs]) (simp add: push_start_def bulk_push_receives block_get_view)
qed

text \<open>The send and the genesis of the test ledger are pushed: both blocks are sent.\<close>

theorem pushed_blocks_in_order_witness:
  "\<exists>s bs. ledger_history sample_platform 0 [(1, Send sample_tip_block)] = Some s \<and>
     push_start sample_platform (with_unsynced [0xFE0050, 0xD0B060] s) = Some (Some (True, \<lparr>push_store = s,
       push_sent = bulk_push_serialize sample_platform \<lparr>bulk_push_header = make_message Mt_bulk_push\<rparr> @
         concat (map serialize_block bs) @ [1]\<rparr>)) \<and>
     sent_in_order sample_platform {0xFE0050, 0xD0B060} bs \<and> length bs = 2"
proof -
  obtain s where s: "ledger_history sample_platform 0 [(1, Send sample_tip_block)] = Some s"
    "history_ok sample_platform [(1, Send sample_tip_block)]" "view s = sample_tipped"
    by (rule sample_tipped_history)
  have "\<forall>h\<in>set [0xFE0050, 0xD0B060]. block_exists s h"
    using ledger_history_inv(1) [OF s(2,1)]
    by (simp add: block_exists_view s(3) sample_tipped_def sample_tip_defs)
  from pushed_blocks_in_order [OF s(2,1) this] obtain bs where bs:
    "push_start sample_platform (with_unsynced [0xFE0050, 0xD0B060] s) = Some (Some (True, \<lparr>push_store = s,
       push_sent = bulk_push_serialize sample_platform \<lparr>bulk_push_header = make_message Mt_bulk_push\<rparr> @
         concat (map serialize_block bs) @ [1]\<rparr>))"
    "sent_in_order sample_platform (set [0xFE0050, 0xD0B060]) bs" by blast
  have "card (block_hash sample_platform ` set bs) = length bs"
    using sent_in_order_all [OF bs(2)] distinct_card [of "map (block_hash sample_platform) bs"] by simp
  then have "length bs = 2" using sent_in_order_all [OF bs(2)] by simp
  then show ?thesis using s(1) bs by auto
qed

end
