(* ===== verification/Spec2Isabelle.thy ===== *)
theory Spec2Isabelle
  imports Wallet_Props Node_Gaps Bootstrap_Replica Bootstrap_Push
begin

text \<open>
  A verification development for \<^emph>\<open>paper\<close>, a block-lattice currency node in C++
  (\<open>src/paper\<close>). Each account has its own chain of blocks. A send block takes an amount out of
  the sender's balance and leaves it pending; a receive or open block of the destination takes
  it up; a change block names another representative. Representatives have the weight of the
  balances that name them and vote on forks. Nodes exchange blocks and votes in datagrams and
  fetch whole chains from each other over a bootstrap connection.

  \<^medskip> \<^bold>\<open>Execution.\<close> \<open>'a exec\<close> is \<open>'a option\<close>: \<open>None\<close> stands for a failed \<open>assert\<close>, for undefined
  behaviour and for a loop that does not end. Error results of the code are values: \<open>option\<close>,
  \<open>process_result\<close>, Boolean flags. Machine integers are words of their width, so that
  arithmetic wraps as in the code. State is passed explicitly: \<open>block_store\<close>, \<open>wallet_store\<close>,
  \<open>peer_container\<close>, \<open>gap_cache\<close> and \<open>node\<close> are the objects of these classes. Code outside the
  sources (hashing, signatures, encryption, number formatting, the network chosen at compile
  time) is the record \<open>platform\<close>; what a theorem needs of it is one of its hypotheses
  (\<open>ctr_mode\<close>: encryption is an exclusive or with a key stream; \<open>number_text\<close>: printed numbers are
  read back). The iteration order of hash maps and random numbers are arguments.

  \<^medskip> \<^bold>\<open>Values\<close> (\<open>utility.cpp\<close>, \<open>config.hpp\<close>).
  \<^item> \<open>Prelude\<close>: execution, bytes, streams, the interfaces \<open>codec\<close> (fixed width) and
    \<open>stream_format\<close> (any width) of encodings that are read back.
  \<^item> \<open>Platform\<close>: the parameters. \<open>Numbers\<close>, \<open>Texts\<close>, \<open>Base58\<close>: the unions of 128, 256 and 512 bits
    with their bytes, hexadecimal and decimal texts, and account numbers in base 58 with their
    check. The reading of an account number after writing it gives the number.

  \<^medskip> \<^bold>\<open>Blocks and the store\<close> (\<open>secure.cpp\<close>, \<open>secure.hpp\<close>).
  \<^item> \<open>Blocks\<close>, \<open>Blocks_Json\<close>: the four block classes, hashed, signed, as bytes and as property
    trees; both forms are read back.
  \<^item> \<open>Mdb\<close>: a table of the embedded database as a sorted association list, behind the interface
    \<open>kv_table\<close>, with the cursor operations the code uses.
  \<^item> \<open>Store\<close>: the class \<open>block_store\<close>, twelve such tables of bytes, with every operation.
    \<open>Store_View\<close>: what the bytes stand for. \<open>view\<close> is the typed content \<open>ledger_view\<close>, \<open>store_ok\<close>
    says that all values can be read; each operation is described on the view.

  \<^medskip> \<^bold>\<open>The ledger\<close> (\<open>secure.cpp\<close>: \<open>ledger\<close>, \<open>ledger_processor\<close>, the visitors, \<open>rollback_visitor\<close>).
  \<^item> \<open>Ledger\<close>: the code, on the bytes of the store. The walks over chains are
    \<open>partial_function (option)\<close>.
  \<^item> \<open>Ledger_Spec\<close>: the abstract ledger, \<open>process_code\<close> for the checks and the step relation
    \<open>ledger_step\<close>. \<open>Ledger_Inv\<close>: every step keeps \<open>ledger_inv\<close> (chains, heads, signatures,
    pending amounts, totals, weights, checksum). \<open>Ledger_Walks\<close>: the walks end and compute what
    the relations say. \<open>Ledger_Refine\<close>: the code performs the abstract step, or answers with
    the code of the check, or fails an assertion exactly if the block is not \<open>movable\<close>.
  \<^item> \<open>Ledger_History\<close>: \<open>ledger_history\<close>, a new store with the genesis and any processed blocks.
    A store of this form is called reachable. The interface \<open>block_processor\<close> carries an
    invariant over a history; it is interpreted twice. \<open>history_ok\<close> says that the genesis account
    is not zero (the key of the live network is a placeholder with the value zero) and that
    no block hashes to zero or to the number of the genesis account. Histories contain no
    rollback and do not open the store again: a rolled back receive block leaves a wrong
    representative (\<open>Ledger_Rollback\<close>), and opening a store clears its checksum.
  \<^item> \<open>Sample\<close>: a small platform and history for the witnesses.
  \<^item> \<open>Ledger_Props\<close>: refinement, conservation of the supply, no double spending, exact entries and
    pending amounts, complete chains, signatures, checksum, supply. \<open>Ledger_Rollback\<close>: what
    undoing the last block of an account restores, and what it does not.
  \<^item> \<open>Ledger_Replay\<close>: the blocks of a reachable ledger are accepted again in every order that
    respects their dependencies, and the same blocks give the same accounts; weights depend
    on the order.
  \<^item> \<open>Votes\<close>: votes, their record, tally and winner.

  \<^medskip> \<^bold>\<open>Wallets\<close> (\<open>node.cpp\<close>: \<open>xorshift1024star\<close>, \<open>kdf\<close>, \<open>fan\<close>, \<open>wallet_store\<close>).
  \<^item> \<open>Kdf\<close>: the generator and the key derivation with its loops over the buffer.
  \<^item> \<open>Wallet_Store\<close>: the encrypted key store with import and JSON form. \<open>Wallet_Spec\<close>: its contract
    \<open>spec_step\<close>, partial where the operations may not be called, and the simulation
    \<open>wallet_is\<close>. \<open>Wallet_Backup\<close>: the JSON form read back. \<open>Wallet_Props\<close>: the properties.

  \<^medskip> \<^bold>\<open>The node\<close> (\<open>node.cpp\<close>, \<open>node.hpp\<close>).
  \<^item> \<open>Messages\<close>: the header, the seven message classes and \<open>message_parser\<close>, which never aborts
    and delivers exactly what was serialized.
  \<^item> \<open>Peers\<close>: endpoints, reserved addresses, \<open>peer_container\<close>. \<open>Gap_Cache\<close>: blocks that wait for
    others, 128 at most.
  \<^item> \<open>Node\<close>: what a node does with a datagram, a block, a vote and a confirmation. The timed
    operations of the service are entries of \<open>node_operations\<close>, sent datagrams entries of
    \<open>node_outbox\<close>. \<open>Node_Props\<close>: forks and elections. \<open>Node_Gaps\<close>: chains that arrive out of order.
  \<^item> \<open>Bootstrap_Sync\<close>: \<open>block_synchronization\<close>, with the interface \<open>synchronization\<close> of its two
    subclasses. \<open>Bootstrap_Pull\<close>: the processing of pulled blocks (\<open>pull_synchronization\<close>,
    \<open>process_end\<close>). \<open>Bootstrap_Push\<close>: the push (\<open>push_synchronization\<close>, \<open>bulk_push_client\<close>,
    \<open>bulk_push_server\<close>). \<open>Bootstrap_Server\<close>: requests, their queue and the answers
    (\<open>bulk_pull_server\<close>, \<open>frontier_req_server\<close>). \<open>Bootstrap_Client\<close>: the comparison of heads, the
    pulls and the whole exchange (\<open>frontier_req_client\<close>, \<open>bulk_pull_client\<close>).
    \<open>Bootstrap_Replica\<close>: a client whose blocks are among the server's has all of them afterwards.

  \<^medskip> \<^bold>\<open>Loops.\<close> No definition has fuel. Loops that are not structural are
  \<open>partial_function (option)\<close>, and the theorems state that they return. The loops of a bootstrap
  have type \<open>'a exec option\<close>, where the outer \<open>None\<close> is a loop that does not end and \<open>Some None\<close> a
  failed assertion; that they end follows from a rank of the blocks by dependency.

  \<^medskip> \<^bold>\<open>Not modelled.\<close> Sockets, threads, locks, logging and the observers of user interfaces;
  the operations run one after the other. The work pool and the queue of wallet actions
  (threads), the RPC server and the configuration files (dispatch and printing of what is
  modelled), the programs \<open>cli\<close>, \<open>landing\<close> and \<open>qt\<close>, and \<open>paper_trail\<close>, an early copy of the
  core. A network write of a bootstrap does not fail half way; a read of bytes that are not
  there does.
\<close>

end
